(* ===== verification/Prelude.thy ===== *)
theory Prelude
  imports Main "HOL-Library.Word"
begin

unbundle bit_operations_syntax

text \<open>
  Shared vocabulary of the development.

  \<^item> The machine integers of the C sources, at their widths.
  \<^item> \<open>'a res\<close>: the outcome of running a piece of C. \<open>Inr x\<close> is a normal return;
    \<open>Inl (Exit_failure msg)\<close> is a call of \<open>exit(EXIT_FAILURE)\<close> (the macros
    \<open>RESULT_UNREACHABLE\<close>, \<open>result_unwrap\<close> and \<open>result_expect\<close>), which ends the
    process; \<open>Inl (Undefined_behaviour msg)\<close> is an access or a shift the C standard
    gives no meaning to. \<open>andthen\<close> is sequential composition.
  \<^item> \<open>memory\<close>: an allocator that may fail. \<open>alloc_ok i\<close> says whether the i-th call of
    \<open>calloc\<close> succeeds, so a theorem that quantifies over the memory covers every
    pattern of failures; \<open>live\<close> counts the blocks allocated and not yet freed.
  \<^item> Lists as the C loops use them: first index with a property, deletion at an index.
\<close>

type_synonym u8 = "8 word"
type_synonym u16 = "16 word"
type_synonym u32 = "32 word"
type_synonym u64 = "64 word"

named_theorems res_simps \<open>outcomes and their composition\<close>
named_theorems frame_simps \<open>fields an operation leaves alone\<close>

section \<open>Outcomes\<close>

datatype failure = Exit_failure string | Undefined_behaviour string

type_synonym 'a res = "failure + 'a"

definition andthen :: "'a res \<Rightarrow> ('a \<Rightarrow> 'b res) \<Rightarrow> 'b res" where
  "andthen r f = (case r of Inl e \<Rightarrow> Inl e | Inr x \<Rightarrow> f x)"

lemma andthen_Inl [simp, res_simps]: "andthen (Inl e) f = Inl e"
  by (simp add: andthen_def)

lemma andthen_Inr [simp, res_simps]: "andthen (Inr x) f = f x"
  by (simp add: andthen_def)

lemma andthen_eq_Inr [simp]: "andthen r f = Inr y \<longleftrightarrow> (\<exists>x. r = Inr x \<and> f x = Inr y)"
  by (cases r) auto

lemma andthen_eq_Inl: "andthen r f = Inl e \<longleftrightarrow> r = Inl e \<or> (\<exists>x. r = Inr x \<and> f x = Inl e)"
  by (cases r) auto

lemma andthen_assoc: "andthen (andthen r f) g = andthen r (\<lambda>x. andthen (f x) g)"
  by (cases r) auto

lemma andthen_cong [fundef_cong]:
  "r = r' \<Longrightarrow> (\<And>x. r' = Inr x \<Longrightarrow> f x = g x) \<Longrightarrow> andthen r f = andthen r' g"
  by (cases r') auto

section \<open>Memory allocation\<close>

record memory =
  alloc_ok :: "nat \<Rightarrow> bool"
  allocs :: nat
  live :: int

text \<open>One call of \<open>calloc\<close>: whether the pointer it returns is non-NULL, and the new memory.\<close>

definition calloc :: "memory \<Rightarrow> bool \<times> memory" where
  "calloc m =
     (alloc_ok m (allocs m),
      m\<lparr>allocs := Suc (allocs m), live := live m + (if alloc_ok m (allocs m) then 1 else 0)\<rparr>)"

text \<open>\<open>n\<close> calls of \<open>free\<close> on non-NULL pointers (\<open>free(NULL)\<close> does nothing).\<close>

definition c_free :: "int \<Rightarrow> memory \<Rightarrow> memory" where
  "c_free n m = m\<lparr>live := live m - n\<rparr>"

lemma calloc_ok_live: "calloc m = (True, m') \<Longrightarrow> live m' = live m + 1"
  and calloc_fail_live: "calloc m = (False, m') \<Longrightarrow> live m' = live m"
  and calloc_oracle: "calloc m = (b, m') \<Longrightarrow> alloc_ok m' = alloc_ok m"
  by (auto simp: calloc_def)

lemma c_free_simps [simp]:
  "live (c_free n m) = live m - n"
  "alloc_ok (c_free n m) = alloc_ok m"
  "allocs (c_free n m) = allocs m"
  by (simp_all add: c_free_def)

text \<open>A memory in which no allocation fails.\<close>

definition plenty :: "memory \<Rightarrow> bool" where
  "plenty m \<longleftrightarrow> (\<forall>i. alloc_ok m i)"

lemma plentyD [simp]: "plenty m \<Longrightarrow> alloc_ok m i"
  by (simp add: plenty_def)

lemma plenty_calloc: "plenty m \<Longrightarrow> fst (calloc m)" and plenty_snd_calloc: "plenty (snd (calloc m)) = plenty m"
  by (simp_all add: plenty_def calloc_def)

lemma plenty_cong: "alloc_ok m = alloc_ok m' \<Longrightarrow> plenty m = plenty m'"
  by (simp add: plenty_def)

lemma plenty_update [simp]:
  "plenty (m\<lparr>allocs := n, live := l\<rparr>) = plenty m"
  "plenty (m\<lparr>live := l\<rparr>) = plenty m"
  "plenty (c_free k m) = plenty m"
  by (simp_all add: plenty_def c_free_def)

definition fresh_memory :: memory where
  "fresh_memory = \<lparr>alloc_ok = (\<lambda>_. True), allocs = 0, live = 0\<rparr>"

lemma plenty_fresh_memory [simp]: "plenty fresh_memory"
  by (simp add: plenty_def fresh_memory_def)

text \<open>The next \<open>n\<close> allocations succeed.\<close>

definition next_ok :: "nat \<Rightarrow> memory \<Rightarrow> bool" where
  "next_ok n m \<longleftrightarrow> (\<forall>k < n. alloc_ok m (allocs m + k))"

lemma next_ok_plenty [simp]: "plenty m \<Longrightarrow> next_ok n m"
  by (simp add: next_ok_def)

lemma next_ok_mono: "next_ok k m \<Longrightarrow> n \<le> k \<Longrightarrow> next_ok n m"
  by (simp add: next_ok_def)

lemma next_ok_2: "next_ok 2 m \<longleftrightarrow> alloc_ok m (allocs m) \<and> alloc_ok m (Suc (allocs m))"
  by (auto simp: next_ok_def less_2_cases_iff)

lemma next_ok_add:
  assumes "alloc_ok m' = alloc_ok m" "allocs m' = allocs m + a"
  shows "next_ok (a + b) m \<longleftrightarrow> next_ok a m \<and> next_ok b m'"
proof -
  have "(\<forall>k < a + b. P k) \<longleftrightarrow> (\<forall>k < a. P k) \<and> (\<forall>k < b. P (a + k))" for P :: "nat \<Rightarrow> bool"
    by (metis add_diff_inverse_nat nat_add_left_cancel_less trans_less_add1)
  then show ?thesis by (simp add: next_ok_def assms add.assoc)
qed


section \<open>Lists as the loops use them\<close>

text \<open>
  The first index whose element satisfies \<open>P\<close>: what a \<open>for\<close> loop with a \<open>break\<close> finds.
\<close>

fun first_index :: "('a \<Rightarrow> bool) \<Rightarrow> 'a list \<Rightarrow> nat option" where
  "first_index P [] = None"
| "first_index P (x # xs) = (if P x then Some 0 else map_option Suc (first_index P xs))"

lemma first_index_None: "first_index P xs = None \<longleftrightarrow> (\<forall>x \<in> set xs. \<not> P x)"
  by (induction xs) auto

lemma first_index_Some:
  "first_index P xs = Some i \<longleftrightarrow> i < length xs \<and> P (xs ! i) \<and> (\<forall>j < i. \<not> P (xs ! j))"
proof (induction xs arbitrary: i)
  case Nil
  then show ?case by simp
next
  case (Cons x xs)
  show ?case
    using Cons.IH by (cases i) (auto simp: less_Suc_eq_0_disj)
qed

lemma first_index_lt: "first_index P xs = Some i \<Longrightarrow> i < length xs"
  and first_index_sat: "first_index P xs = Some i \<Longrightarrow> P (xs ! i)"
  by (simp_all add: first_index_Some)

text \<open>
  Repeatedly move the first element that satisfies \<open>P\<close> from \<open>xs\<close> to the end of
  \<open>acc\<close>, restarting the scan from the beginning after every deletion, until a scan
  finds none: the \<open>do \<dots> while\<close> loops of \<open>filter_dead_messages\<close> and \<open>handle_dead_peers\<close>.
\<close>

definition remove_nth :: "nat \<Rightarrow> 'a list \<Rightarrow> 'a list" where
  "remove_nth i xs = take i xs @ drop (Suc i) xs"

lemma length_remove_nth [simp]: "i < length xs \<Longrightarrow> length (remove_nth i xs) = length xs - 1"
  by (simp add: remove_nth_def)

lemma set_remove_nth_subset: "set (remove_nth i xs) \<subseteq> set xs"
  by (auto simp: remove_nth_def dest: in_set_takeD in_set_dropD)

lemma remove_nth_Cons [simp]:
  "remove_nth 0 (x # xs) = xs"
  "remove_nth (Suc i) (x # xs) = x # remove_nth i xs"
  by (simp_all add: remove_nth_def)

lemma split_at_nth: "i < length xs \<Longrightarrow> xs = take i xs @ xs ! i # drop (Suc i) xs"
  by (rule id_take_nth_drop)

lemma insert_remove_nth: "i < length xs \<Longrightarrow> insert (xs ! i) (set (remove_nth i xs)) = set xs"
  using arg_cong [OF split_at_nth, of i xs set] by (auto simp: remove_nth_def)

lemma distinct_remove_nth:
  assumes "distinct xs" shows "distinct (remove_nth i xs)"
proof (cases "i < length xs")
  case True
  then have "distinct (take i xs @ xs ! i # drop (Suc i) xs)"
    using assms split_at_nth by metis
  then show ?thesis by (auto simp: remove_nth_def)
next
  case False
  with assms show ?thesis by (simp add: remove_nth_def)
qed

lemma filter_split_first:
  "first_index P xs = Some i \<Longrightarrow> filter P xs = xs ! i # filter P (remove_nth i xs)"
  "first_index P xs = Some i \<Longrightarrow> filter (\<lambda>x. \<not> P x) (remove_nth i xs) = filter (\<lambda>x. \<not> P x) xs"
  by (induction xs arbitrary: i) (auto split: if_splits)

function extract_loop :: "('a \<Rightarrow> bool) \<Rightarrow> 'a list \<Rightarrow> 'a list \<Rightarrow> 'a list \<times> 'a list" where
  "extract_loop P xs acc =
     (case first_index P xs of
        None \<Rightarrow> (acc, xs)
      | Some i \<Rightarrow> extract_loop P (remove_nth i xs) (acc @ [xs ! i]))"
  by pat_completeness auto
termination
  by (relation "measure (\<lambda>(P, xs, acc). length xs)") (auto dest: first_index_lt)

declare extract_loop.simps [simp del]

text \<open>The restarting loop computes two order-preserving filters.\<close>

lemma extract_loop_filter:
  "extract_loop P xs acc = (acc @ filter P xs, filter (\<lambda>x. \<not> P x) xs)"
proof (induction P xs acc rule: extract_loop.induct)
  case (1 P xs acc)
  show ?case
  proof (cases "first_index P xs")
    case None
    then have "filter P xs = []" "filter (\<lambda>x. \<not> P x) xs = xs"
      by (auto simp: first_index_None)
    with None show ?thesis by (simp add: extract_loop.simps [of P xs])
  next
    case (Some i)
    with "1.IH" [OF Some] show ?thesis
      by (simp add: extract_loop.simps [of P xs] filter_split_first)
  qed
qed

section \<open>Conversions between widths\<close>

lemma unat_u16_less: "unat (c :: u16) < 65536"
  using unsigned_less [of c] by simp

lemma unat_ucast_u16_u64 [simp]: "unat (ucast (c :: u16) :: u64) = unat c"
  using unat_u16_less [of c] by (simp add: unsigned_ucast_eq take_bit_nat_eq_self)

lemma unat_ucast_small:
  fixes p :: u64
  assumes "unat p < 65536"
  shows "unat (ucast p :: u16) = unat p" and "ucast (ucast p :: u16) = p"
proof -
  show u: "unat (ucast p :: u16) = unat p"
    using assms by (simp add: unsigned_ucast_eq unsigned_take_bit_eq take_bit_nat_eq_self)
  show "ucast (ucast p :: u16) = p"
    using u by (simp add: word_unat_eq_iff)
qed

lemma unat_of_nat_small: "n < 65536 \<Longrightarrow> unat (of_nat n :: u64) = n"
  by (simp add: unsigned_of_nat take_bit_nat_eq_self)

lemma unat_Suc_small:
  fixes c :: u64
  assumes "unat c < 65536"
  shows "unat (c + 1) = Suc (unat c)"
  using assms by (simp add: unat_word_ariths)

end
