(* ===== verification/StbDs.thy ===== *)
theory StbDs
  imports Prelude "HOL-Library.Multiset"
begin

text \<open>
  The dynamic arrays of \<open>include/lib/stb_ds.h\<close> (the \<open>stbds_arr*\<close> macros and
  \<open>stbds_arrgrowf\<close>), which hold every queue and buffer of the broadcast context.

  An array is NULL (\<open>None\<close>) or a block with a header (\<open>length\<close>, \<open>capacity\<close>) and
  \<open>capacity\<close> element slots; the slots at and above \<open>length\<close> hold whatever the
  allocator or earlier elements left there. The rest of the development uses arrays as
  lists, through \<open>arrput\<close>, \<open>arrdel\<close>, \<open>arrdelswap\<close> and \<open>arrpop\<close>. The locale
  \<open>dyn_array\<close> is the interface between the two: it is interpreted on the blocks and on
  the lists, so what holds of the list operations holds of the macros.

  \<open>realloc\<close> is taken to succeed (the macros do not check it) and sizes are \<open>nat\<close>.
\<close>

section \<open>Blocks and macros\<close>

record 'a arr_block =
  hdr_length :: nat
  hdr_capacity :: nat
  slots :: "'a list"

type_synonym 'a arr = "'a arr_block option"

definition stbds_arrlen :: "'a arr \<Rightarrow> nat" where
  "stbds_arrlen a = (case a of None \<Rightarrow> 0 | Some b \<Rightarrow> hdr_length b)"

definition stbds_arrcap :: "'a arr \<Rightarrow> nat" where
  "stbds_arrcap a = (case a of None \<Rightarrow> 0 | Some b \<Rightarrow> hdr_capacity b)"

text \<open>
  \<open>stbds_arrgrowf\<close>; \<open>junk\<close> is the content of the slots \<open>realloc\<close> adds.
\<close>

definition stbds_arrgrowf :: "'a \<Rightarrow> 'a arr \<Rightarrow> nat \<Rightarrow> nat \<Rightarrow> 'a arr" where
  "stbds_arrgrowf junk a addlen min_cap =
     (let min_len = stbds_arrlen a + addlen;
          min_cap = (if min_len > min_cap then min_len else min_cap)
      in if min_cap \<le> stbds_arrcap a then a
         else let min_cap = (if min_cap < 2 * stbds_arrcap a then 2 * stbds_arrcap a
                             else if min_cap < 4 then 4 else min_cap)
              in case a of
                   None \<Rightarrow> Some \<lparr>hdr_length = 0, hdr_capacity = min_cap,
                                 slots = replicate min_cap junk\<rparr>
                 | Some b \<Rightarrow> Some (b\<lparr>hdr_capacity := min_cap,
                     slots := slots b @ replicate (min_cap - hdr_capacity b) junk\<rparr>))"

definition stbds_arrmaybegrow :: "'a \<Rightarrow> 'a arr \<Rightarrow> nat \<Rightarrow> 'a arr" where
  "stbds_arrmaybegrow junk a n =
     (if a = None \<or> stbds_arrlen a + n > stbds_arrcap a
      then stbds_arrgrowf junk a n 0 else a)"

definition stbds_arrput :: "'a \<Rightarrow> 'a arr \<Rightarrow> 'a \<Rightarrow> 'a arr" where
  "stbds_arrput junk a v =
     map_option (\<lambda>b. b\<lparr>slots := (slots b)[hdr_length b := v],
                       hdr_length := Suc (hdr_length b)\<rparr>)
       (stbds_arrmaybegrow junk a 1)"

text \<open>
  Reading, popping and deleting go through the header of a non-NULL array and need the
  index in range; outside it the macros move or read memory past the elements. Only
  \<open>arrdelswap\<close> is defined beyond the elements: it writes the last element to any slot of the
  block and drops the length.
\<close>

definition stbds_get :: "'a arr \<Rightarrow> nat \<Rightarrow> 'a res" where
  "stbds_get a i =
     (case a of None \<Rightarrow> Inl (Undefined_behaviour ''NULL array'')
      | Some b \<Rightarrow> if i < hdr_length b then Inr (slots b ! i)
                 else Inl (Undefined_behaviour ''index out of range''))"

definition stbds_arrpop :: "'a arr \<Rightarrow> ('a \<times> 'a arr) res" where
  "stbds_arrpop a =
     (case a of None \<Rightarrow> Inl (Undefined_behaviour ''NULL array'')
      | Some b \<Rightarrow> if hdr_length b = 0 then Inl (Undefined_behaviour ''pop of an empty array'')
                 else Inr (slots b ! (hdr_length b - 1),
                           Some (b\<lparr>hdr_length := hdr_length b - 1\<rparr>)))"

text \<open>\<open>memmove(&a[i], &a[i+n], length-n-i)\<close>, then the length drops by \<open>n\<close>.\<close>

definition stbds_arrdeln :: "'a arr \<Rightarrow> nat \<Rightarrow> nat \<Rightarrow> 'a arr res" where
  "stbds_arrdeln a i n =
     (case a of None \<Rightarrow> Inl (Undefined_behaviour ''NULL array'')
      | Some b \<Rightarrow>
          if i + n > hdr_length b then Inl (Undefined_behaviour ''index out of range'')
          else let k = hdr_length b - n - i in
               Inr (Some (b\<lparr>slots := take i (slots b) @ take k (drop (i + n) (slots b))
                                      @ drop (i + k) (slots b),
                            hdr_length := hdr_length b - n\<rparr>)))"

definition stbds_arrdel :: "'a arr \<Rightarrow> nat \<Rightarrow> 'a arr res" where
  "stbds_arrdel a i = stbds_arrdeln a i 1"

definition stbds_arrdelswap :: "'a arr \<Rightarrow> nat \<Rightarrow> 'a arr res" where
  "stbds_arrdelswap a i =
     (case a of None \<Rightarrow> Inl (Undefined_behaviour ''NULL array'')
      | Some b \<Rightarrow>
          if 0 < hdr_length b \<and> i < hdr_capacity b
          then Inr (Some (b\<lparr>slots := (slots b)[i := slots b ! (hdr_length b - 1)],
                            hdr_length := hdr_length b - 1\<rparr>))
          else Inl (Undefined_behaviour ''index out of range''))"

definition stbds_arrlast :: "'a arr \<Rightarrow> 'a res" where
  "stbds_arrlast a =
     (case a of None \<Rightarrow> Inl (Undefined_behaviour ''NULL array'')
      | Some b \<Rightarrow> if hdr_length b = 0 then Inl (Undefined_behaviour ''index out of range'')
                 else Inr (slots b ! (hdr_length b - 1)))"

text \<open>Reserving, setting the length, and inserting at an index.\<close>

definition stbds_arrsetcap :: "'a \<Rightarrow> 'a arr \<Rightarrow> nat \<Rightarrow> 'a arr" where
  "stbds_arrsetcap junk a n = stbds_arrgrowf junk a 0 n"

definition stbds_arrsetlen :: "'a \<Rightarrow> 'a arr \<Rightarrow> nat \<Rightarrow> 'a arr" where
  "stbds_arrsetlen junk a n =
     map_option (\<lambda>b. b\<lparr>hdr_length := n\<rparr>) (if stbds_arrcap a < n then stbds_arrsetcap junk a n else a)"

text \<open>The index of the first new element, and the array with \<open>n\<close> elements more.\<close>

definition stbds_arraddnindex :: "'a \<Rightarrow> 'a arr \<Rightarrow> nat \<Rightarrow> nat \<times> 'a arr" where
  "stbds_arraddnindex junk a n =
     (let a = stbds_arrmaybegrow junk a n
      in if n \<noteq> 0 then (stbds_arrlen a, map_option (\<lambda>b. b\<lparr>hdr_length := hdr_length b + n\<rparr>) a)
         else (stbds_arrlen a, a))"

definition stbds_arrinsn :: "'a \<Rightarrow> 'a arr \<Rightarrow> nat \<Rightarrow> nat \<Rightarrow> 'a arr res" where
  "stbds_arrinsn junk a i n =
     (case snd (stbds_arraddnindex junk a n) of
        None \<Rightarrow> Inl (Undefined_behaviour ''NULL array'')
      | Some b \<Rightarrow>
          if n + i > hdr_length b then Inl (Undefined_behaviour ''index out of range'')
          else let k = hdr_length b - n - i in
               Inr (Some (b\<lparr>slots := take (i + n) (slots b) @ take k (drop i (slots b))
                                      @ drop (i + n + k) (slots b)\<rparr>)))"

definition stbds_arrins :: "'a \<Rightarrow> 'a arr \<Rightarrow> nat \<Rightarrow> 'a \<Rightarrow> 'a arr res" where
  "stbds_arrins junk a i v =
     andthen (stbds_arrinsn junk a i 1) (\<lambda>a. Inr (map_option (\<lambda>b. b\<lparr>slots := (slots b)[i := v]\<rparr>) a))"

definition stbds_arrfree :: "'a arr \<Rightarrow> memory \<Rightarrow> 'a arr \<times> memory" where
  "stbds_arrfree a m = (None, if a = None then m else c_free 1 m)"

text \<open>The elements of an array, and what every macro keeps of its header.\<close>

definition arr_items :: "'a arr \<Rightarrow> 'a list" where
  "arr_items a = (case a of None \<Rightarrow> [] | Some b \<Rightarrow> take (hdr_length b) (slots b))"

definition arr_ok :: "'a arr \<Rightarrow> bool" where
  "arr_ok a = (case a of None \<Rightarrow> True
     | Some b \<Rightarrow> hdr_length b \<le> hdr_capacity b \<and> length (slots b) = hdr_capacity b)"

section \<open>Arrays as lists\<close>

definition arrput :: "'a list \<Rightarrow> 'a \<Rightarrow> 'a list" where
  "arrput xs x = xs @ [x]"

definition arrdel :: "'a list \<Rightarrow> nat \<Rightarrow> 'a list" where
  "arrdel xs i = remove_nth i xs"

definition arrdelswap :: "'a list \<Rightarrow> nat \<Rightarrow> 'a list" where
  "arrdelswap xs i = butlast (xs[i := last xs])"

definition arrpop :: "'a list \<Rightarrow> 'a \<times> 'a list" where
  "arrpop xs = (last xs, butlast xs)"

lemma arrput_simps [simp]:
  "set (arrput xs x) = insert x (set xs)"
  "length (arrput xs x) = Suc (length xs)"
  "arrput xs x \<noteq> []"
  by (simp_all add: arrput_def)

lemma arrdel_Cons [simp]: "arrdel (x # xs) 0 = xs"
  by (simp add: arrdel_def)

lemma length_arrdel [simp]: "i < length xs \<Longrightarrow> length (arrdel xs i) = length xs - 1"
  by (simp add: arrdel_def)

lemma length_arrdelswap [simp]: "length (arrdelswap xs i) = length xs - 1"
  by (simp add: arrdelswap_def)

lemma mset_arrdel: "i < length xs \<Longrightarrow> add_mset (xs ! i) (mset (arrdel xs i)) = mset xs"
  using arg_cong [OF split_at_nth, of i xs mset] by (simp add: arrdel_def remove_nth_def)

lemma mset_arrdelswap:
  assumes "i < length xs"
  shows "add_mset (xs ! i) (mset (arrdelswap xs i)) = mset xs"
proof -
  have ne: "xs[i := last xs] \<noteq> []" using assms by auto
  have l: "last (xs[i := last xs]) = last xs"
    using ne last_list_update [of xs i "last xs"] by auto
  have "mset (arrdelswap xs i @ [last xs]) = mset (xs[i := last xs])"
    using append_butlast_last_id [OF ne] l by (simp add: arrdelswap_def)
  then have "add_mset (last xs) (mset (arrdelswap xs i)) = add_mset (last xs) (mset xs - {#xs ! i#})"
    using assms by (simp add: mset_update)
  then show ?thesis using assms by simp
qed

lemma set_arrdelswap:
  "i < length xs \<Longrightarrow> insert (xs ! i) (set (arrdelswap xs i)) = set xs"
  using arg_cong [OF mset_arrdelswap, of i xs set_mset] by simp

lemma distinct_arrdelswap:
  "i < length xs \<Longrightarrow> distinct xs \<Longrightarrow> distinct (arrdelswap xs i)"
  using mset_arrdelswap [of i xs]
  by (metis distinct.simps(2) mset.simps(2) mset_eq_imp_distinct_iff)

section \<open>The interface\<close>

text \<open>
  What the queues and buffers of the program rely on. \<open>items\<close> is the abstraction to
  a list and \<open>ok\<close> the invariant of the representation.
\<close>

locale dyn_array =
  fixes empty :: "'r"
    and len :: "'r \<Rightarrow> nat"
    and get :: "'r \<Rightarrow> nat \<Rightarrow> 'a res"
    and put :: "'r \<Rightarrow> 'a \<Rightarrow> 'r"
    and del :: "'r \<Rightarrow> nat \<Rightarrow> 'r res"
    and delswap :: "'r \<Rightarrow> nat \<Rightarrow> 'r res"
    and pop :: "'r \<Rightarrow> ('a \<times> 'r) res"
    and items :: "'r \<Rightarrow> 'a list"
    and ok :: "'r \<Rightarrow> bool"
  assumes ok_empty: "ok empty" and items_empty: "items empty = []"
    and len_items: "ok r \<Longrightarrow> len r = length (items r)"
    and get_items: "ok r \<Longrightarrow> i < length (items r) \<Longrightarrow> get r i = Inr (items r ! i)"
    and put_items: "ok r \<Longrightarrow> ok (put r x) \<and> items (put r x) = arrput (items r) x"
    and del_items: "ok r \<Longrightarrow> i < length (items r) \<Longrightarrow>
          \<exists>r'. del r i = Inr r' \<and> ok r' \<and> items r' = arrdel (items r) i"
    and delswap_items: "ok r \<Longrightarrow> i < length (items r) \<Longrightarrow>
          \<exists>r'. delswap r i = Inr r' \<and> ok r' \<and> items r' = arrdelswap (items r) i"
    and pop_items: "ok r \<Longrightarrow> items r \<noteq> [] \<Longrightarrow>
          \<exists>r'. pop r = Inr (last (items r), r') \<and> ok r' \<and> items r' = butlast (items r)"
begin

lemma put_all:
  "ok r \<Longrightarrow> ok (fold (\<lambda>x r. put r x) xs r) \<and> items (fold (\<lambda>x r. put r x) xs r) = items r @ xs"
  by (induction xs arbitrary: r) (auto simp: put_items arrput_def)

lemma dequeue:
  assumes "ok r" and "items r = x # xs"
  shows "get r 0 = Inr x \<and> (\<exists>r'. del r 0 = Inr r' \<and> ok r' \<and> items r' = xs)"
  using get_items [OF assms(1), of 0] del_items [OF assms(1), of 0] assms(2) by auto

lemma enqueue_all_dequeue:
  assumes "xs \<noteq> []"
  defines "r \<equiv> fold (\<lambda>x r. put r x) xs empty"
  shows "get r 0 = Inr (hd xs) \<and> (\<exists>r'. del r 0 = Inr r' \<and> ok r' \<and> items r' = tl xs)"
proof -
  have "ok r" and "items r = hd xs # tl xs"
    using put_all [OF ok_empty, of xs] assms by (simp_all add: items_empty)
  then show ?thesis by (rule dequeue)
qed

lemma put_then_pop:
  "ok r \<Longrightarrow> \<exists>r'. pop (put r x) = Inr (x, r') \<and> ok r' \<and> items r' = items r"
  using put_items [of r x] pop_items [of "put r x"] by (auto simp: arrput_def)

end

section \<open>The list operations provide the interface\<close>

definition list_get :: "'a list \<Rightarrow> nat \<Rightarrow> 'a res" where
  "list_get xs i = (if i < length xs then Inr (xs ! i)
     else Inl (Undefined_behaviour ''index out of range''))"

interpretation lst: dyn_array "[]" length list_get arrput
  "\<lambda>xs i. if i < length xs then Inr (arrdel xs i) else Inl (Undefined_behaviour ''index out of range'')"
  "\<lambda>xs i. if i < length xs then Inr (arrdelswap xs i) else Inl (Undefined_behaviour ''index out of range'')"
  "\<lambda>xs. if xs = [] then Inl (Undefined_behaviour ''pop of an empty array'') else Inr (arrpop xs)"
  "\<lambda>xs. xs" "\<lambda>_. True"
  by unfold_locales (auto simp: list_get_def arrpop_def)

section \<open>The macros provide the interface\<close>

lemma arr_ok_None [simp]: "arr_ok None" and arr_items_None [simp]: "arr_items None = []"
  by (simp_all add: arr_ok_def arr_items_def)

lemma arrlen_items: "arr_ok a \<Longrightarrow> stbds_arrlen a = length (arr_items a)"
  by (auto simp: arr_ok_def arr_items_def stbds_arrlen_def split: option.splits)

text \<open>After \<open>arrmaybegrow(a,1)\<close> there is a block with room for one more element.\<close>

lemma maybegrow_1:
  assumes "arr_ok a"
  shows "\<exists>b. stbds_arrmaybegrow junk a 1 = Some b \<and> arr_ok (Some b) \<and>
    hdr_length b < hdr_capacity b \<and> arr_items (Some b) = arr_items a"
proof (cases a)
  case None
  then show ?thesis
    by (simp add: stbds_arrmaybegrow_def stbds_arrgrowf_def stbds_arrlen_def stbds_arrcap_def
      arr_ok_def arr_items_def)
next
  case (Some c)
  with assms show ?thesis
    by (cases "hdr_length c < hdr_capacity c")
      (auto simp: stbds_arrmaybegrow_def stbds_arrgrowf_def stbds_arrlen_def stbds_arrcap_def
        arr_ok_def arr_items_def Let_def)
qed

lemma stbds_arrput_items:
  assumes "arr_ok a"
  shows "arr_ok (stbds_arrput junk a v) \<and> arr_items (stbds_arrput junk a v) = arrput (arr_items a) v"
proof -
  obtain b where b: "stbds_arrmaybegrow junk a 1 = Some b" "arr_ok (Some b)"
      "hdr_length b < hdr_capacity b" "arr_items (Some b) = arr_items a"
    using maybegrow_1 [OF assms] by blast
  then have "take (Suc (hdr_length b)) ((slots b)[hdr_length b := v]) = arr_items a @ [v]"
    by (simp add: arr_ok_def arr_items_def take_Suc_conv_app_nth)
  with b show ?thesis
    by (simp add: stbds_arrput_def arr_ok_def arrput_def) (simp add: arr_items_def)
qed

lemma stbds_arrdel_items:
  assumes "arr_ok a" and "i < length (arr_items a)"
  shows "\<exists>a'. stbds_arrdel a i = Inr a' \<and> arr_ok a' \<and> arr_items a' = arrdel (arr_items a) i"
proof -
  obtain b where a: "a = Some b" and i: "i < hdr_length b" and ok: "hdr_length b \<le> length (slots b)"
      "length (slots b) = hdr_capacity b"
    using assms by (cases a) (auto simp: arr_ok_def arr_items_def)
  have "take (hdr_length b - 1) (take i (slots b) @ take (hdr_length b - 1 - i) (drop (i + 1) (slots b)) @ ys)
      = remove_nth i (take (hdr_length b) (slots b))" for ys
  proof -
    have "min (hdr_length b - 1) i = i" "length (slots b) - Suc i \<ge> hdr_length b - 1 - i"
      using i ok by auto
    with i ok show ?thesis by (simp add: remove_nth_def drop_take)
  qed
  with a i ok show ?thesis
    by (auto simp: stbds_arrdel_def stbds_arrdeln_def arr_ok_def arr_items_def arrdel_def Let_def)
qed

lemma stbds_arrdelswap_items:
  assumes "arr_ok a" and "i < length (arr_items a)"
  shows "\<exists>a'. stbds_arrdelswap a i = Inr a' \<and> arr_ok a' \<and> arr_items a' = arrdelswap (arr_items a) i"
proof -
  obtain b where a: "a = Some b" and i: "i < hdr_length b" and ok: "hdr_length b \<le> length (slots b)"
      "length (slots b) = hdr_capacity b"
    using assms by (cases a) (auto simp: arr_ok_def arr_items_def)
  have "last (take (hdr_length b) (slots b)) = slots b ! (hdr_length b - 1)"
    using i ok by (subst last_conv_nth) auto
  then have "take (hdr_length b - 1) ((slots b)[i := slots b ! (hdr_length b - 1)])
      = arrdelswap (take (hdr_length b) (slots b)) i"
    using ok by (simp add: arrdelswap_def butlast_conv_take take_update_swap min_def)
  with a i ok show ?thesis
    by (auto simp: stbds_arrdelswap_def arr_ok_def arr_items_def)
qed

lemma stbds_arrpop_items:
  assumes "arr_ok a" and "arr_items a \<noteq> []"
  shows "\<exists>a'. stbds_arrpop a = Inr (last (arr_items a), a') \<and> arr_ok a' \<and> arr_items a' = butlast (arr_items a)"
proof -
  obtain b where a: "a = Some b" and i: "0 < hdr_length b" and ok: "hdr_length b \<le> length (slots b)"
      "length (slots b) = hdr_capacity b"
    using assms by (cases a) (auto simp: arr_ok_def arr_items_def)
  have "last (take (hdr_length b) (slots b)) = slots b ! (hdr_length b - 1)"
    using i ok by (subst last_conv_nth) auto
  with a i ok show ?thesis
    by (auto simp: stbds_arrpop_def arr_ok_def arr_items_def butlast_conv_take min_def)
qed

interpretation stb: dyn_array None stbds_arrlen stbds_get "stbds_arrput junk" stbds_arrdel
  stbds_arrdelswap stbds_arrpop arr_items arr_ok
proof unfold_locales
  fix a :: "'a arr" and i
  assume "arr_ok a" and "i < length (arr_items a)"
  then show "stbds_get a i = Inr (arr_items a ! i)"
    by (cases a) (auto simp: stbds_get_def arr_items_def arr_ok_def)
qed (simp_all add: arrlen_items stbds_arrput_items stbds_arrdel_items stbds_arrdelswap_items
    stbds_arrpop_items)

lemma stbds_arrgrowf_items:
  assumes "arr_ok a"
  shows "arr_ok (stbds_arrgrowf junk a n c) \<and> arr_items (stbds_arrgrowf junk a n c) = arr_items a
     \<and> max c (stbds_arrlen a + n) \<le> stbds_arrcap (stbds_arrgrowf junk a n c)"
  using assms
  by (cases a)
    (auto simp: stbds_arrgrowf_def stbds_arrlen_def stbds_arrcap_def arr_ok_def arr_items_def Let_def)

lemma block_items:
  "arr_items (Some b) = xs \<Longrightarrow> arr_ok (Some b) \<Longrightarrow>
     length xs = hdr_length b \<and> xs = take (hdr_length b) (slots b) \<and> length (slots b) = hdr_capacity b"
  by (auto simp: arr_items_def arr_ok_def)

lemma stbds_arrlast_items:
  assumes "arr_ok a" "arr_items a \<noteq> []" shows "stbds_arrlast a = Inr (last (arr_items a))"
  using stbds_arrpop_items [OF assms]
  by (cases a) (auto simp: stbds_arrpop_def stbds_arrlast_def split: if_splits)

lemma stbds_arrsetlen_items:
  assumes "arr_ok a"
  shows "arr_ok (stbds_arrsetlen junk a n)"
    "n \<le> length (arr_items a) \<Longrightarrow> arr_items (stbds_arrsetlen junk a n) = take n (arr_items a)"
proof -
  let ?b = "if stbds_arrcap a < n then stbds_arrsetcap junk a n else a"
  have b: "arr_ok ?b" "arr_items ?b = arr_items a" "n \<le> stbds_arrcap ?b"
    using assms stbds_arrgrowf_items [OF assms, of junk 0 n] by (auto simp: stbds_arrsetcap_def)
  show "arr_ok (stbds_arrsetlen junk a n)"
    using b(1,3) by (cases ?b) (auto simp: stbds_arrsetlen_def arr_ok_def stbds_arrcap_def)
  show "arr_items (stbds_arrsetlen junk a n) = take n (arr_items a)" if "n \<le> length (arr_items a)"
  proof (cases ?b)
    case None
    with b(2) show ?thesis by (simp add: stbds_arrsetlen_def)
  next
    case (Some c)
    have "arr_items (stbds_arrsetlen junk a n) = take n (slots c)"
      unfolding stbds_arrsetlen_def Some by (simp add: arr_items_def)
    with block_items [of c "arr_items a"] b Some that show ?thesis by (simp add: min_def)
  qed
qed

lemma stbds_arrins_items:
  assumes "arr_ok a" and "i \<le> length (arr_items a)"
  shows "\<exists>a'. stbds_arrins junk a i v = Inr a' \<and> arr_ok a'
     \<and> arr_items a' = take i (arr_items a) @ v # drop i (arr_items a)"
proof -
  obtain b where b: "stbds_arrmaybegrow junk a 1 = Some b" "arr_ok (Some b)"
      "hdr_length b < hdr_capacity b" "arr_items (Some b) = arr_items a"
    using maybegrow_1 [OF assms(1)] by blast
  then have i: "i \<le> hdr_length b" "length (slots b) = hdr_capacity b"
    and xs: "arr_items a = take (hdr_length b) (slots b)"
    using assms(2) block_items [OF b(4,2)] by auto
  let ?k = "hdr_length b - i"
  let ?s = "(take (i + 1) (slots b) @ take ?k (drop i (slots b)) @ drop (i + 1 + ?k) (slots b))[i := v]"
  have s: "?s = take i (slots b) @ v # take ?k (drop i (slots b)) @ drop (i + 1 + ?k) (slots b)"
    using i b(3) by (simp add: list_update_append take_Suc_conv_app_nth)
  have "take (Suc (hdr_length b)) ?s = take i (arr_items a) @ v # drop i (arr_items a)"
    unfolding s xs using i b(3) by (simp add: drop_take Suc_diff_le)
  moreover have "length ?s = hdr_capacity b" unfolding s using i b(3) by simp
  ultimately show ?thesis
    using b i by (auto simp: stbds_arrins_def stbds_arrinsn_def stbds_arraddnindex_def Let_def arr_ok_def arr_items_def)
qed

section \<open>Growth\<close>

lemma stbds_arrput_cap:
  assumes "arr_ok a"
  shows "stbds_arrcap (stbds_arrput junk a v) =
     (if stbds_arrlen a < stbds_arrcap a then stbds_arrcap a else max 4 (2 * stbds_arrcap a))"
  using assms
  by (cases a)
    (auto simp: stbds_arrput_def stbds_arrmaybegrow_def stbds_arrgrowf_def stbds_arrlen_def
      stbds_arrcap_def arr_ok_def Let_def max_def)

lemma stbds_arrput_len: "arr_ok a \<Longrightarrow> stbds_arrlen (stbds_arrput junk a v) = Suc (stbds_arrlen a)"
  using stbds_arrput_items [of a junk v] arrlen_items [of a] arrlen_items [of "stbds_arrput junk a v"] by simp

lemma put_all_growth:
  "arr_ok a \<Longrightarrow> stbds_arrcap a \<le> 4 + 2 * stbds_arrlen a \<Longrightarrow>
     stbds_arrlen (fold (\<lambda>x a. stbds_arrput junk a x) xs a) = stbds_arrlen a + length xs
     \<and> stbds_arrcap (fold (\<lambda>x a. stbds_arrput junk a x) xs a)
         \<le> 4 + 2 * stbds_arrlen (fold (\<lambda>x a. stbds_arrput junk a x) xs a)
     \<and> stbds_arrlen (fold (\<lambda>x a. stbds_arrput junk a x) xs a)
         \<le> stbds_arrcap (fold (\<lambda>x a. stbds_arrput junk a x) xs a)"
proof (induction xs arbitrary: a)
  case Nil
  then show ?case by (cases a) (auto simp: arr_ok_def stbds_arrlen_def stbds_arrcap_def)
next
  case (Cons x xs)
  let ?b = "stbds_arrput junk a x"
  have "arr_ok ?b" using stbds_arrput_items [OF Cons.prems(1)] by blast
  moreover have "stbds_arrcap ?b \<le> 4 + 2 * stbds_arrlen ?b"
    using stbds_arrput_cap [OF Cons.prems(1)] stbds_arrput_len [OF Cons.prems(1)] Cons.prems(2) by auto
  ultimately show ?case using Cons.IH [of ?b] stbds_arrput_len [OF Cons.prems(1)] by simp
qed

section \<open>Programs over an array\<close>

datatype 'a arr_op = Put 'a | Del nat | Delswap nat | Pop | Ins nat 'a | Setcap nat | Truncate nat | Free

text \<open>\<open>Truncate\<close> is \<open>arrsetlen\<close> to a length not above the current one.\<close>

definition arr_step :: "'a \<Rightarrow> memory \<Rightarrow> 'a arr_op \<Rightarrow> 'a arr \<Rightarrow> 'a arr res" where
  "arr_step junk m c a = (case c of
       Put x \<Rightarrow> Inr (stbds_arrput junk a x)
     | Del i \<Rightarrow> stbds_arrdel a i
     | Delswap i \<Rightarrow> stbds_arrdelswap a i
     | Pop \<Rightarrow> andthen (stbds_arrpop a) (\<lambda>(x, a). Inr a)
     | Ins i x \<Rightarrow> stbds_arrins junk a i x
     | Setcap n \<Rightarrow> Inr (stbds_arrsetcap junk a n)
     | Truncate n \<Rightarrow> Inr (stbds_arrsetlen junk a (min n (stbds_arrlen a)))
     | Free \<Rightarrow> Inr (fst (stbds_arrfree a m)))"

text \<open>
  What the operations mean: a list and the number of slots that are reserved for it. The
  reserved slots matter in one place: \<open>arrdelswap\<close> at an index at or above the length, but in
  the block, drops the last element. The capacity doubles at least, and is at least 4.
\<close>

definition grown :: "nat \<Rightarrow> nat \<Rightarrow> nat" where
  "grown k need = (if need \<le> k then k else if need < 2 * k then 2 * k else max 4 need)"

definition list_step :: "'a arr_op \<Rightarrow> 'a list \<times> nat \<Rightarrow> ('a list \<times> nat) option" where
  "list_step c r = (case r of (xs, k) \<Rightarrow> (case c of
       Put x \<Rightarrow> Some (xs @ [x], grown k (Suc (length xs)))
     | Del i \<Rightarrow> if i < length xs then Some (take i xs @ drop (Suc i) xs, k) else None
     | Delswap i \<Rightarrow> if i < length xs then Some (butlast (xs[i := last xs]), k)
                   else if xs \<noteq> [] \<and> i < k then Some (butlast xs, k) else None
     | Pop \<Rightarrow> if xs = [] then None else Some (butlast xs, k)
     | Ins i x \<Rightarrow> if i \<le> length xs then Some (take i xs @ x # drop i xs, grown k (Suc (length xs))) else None
     | Setcap n \<Rightarrow> Some (xs, grown k n)
     | Truncate n \<Rightarrow> Some (take n xs, k)
     | Free \<Rightarrow> Some ([], 0)))"

fun arr_run :: "'a \<Rightarrow> memory \<Rightarrow> 'a arr_op list \<Rightarrow> 'a arr \<Rightarrow> 'a arr res" where
  "arr_run junk m [] a = Inr a"
| "arr_run junk m (c # cs) a = andthen (arr_step junk m c a) (arr_run junk m cs)"

fun list_run :: "'a arr_op list \<Rightarrow> 'a list \<times> nat \<Rightarrow> ('a list \<times> nat) option" where
  "list_run [] r = Some r"
| "list_run (c # cs) r = Option.bind (list_step c r) (list_run cs)"

definition arr_content :: "'a arr \<Rightarrow> 'a list \<times> nat" where
  "arr_content a = (arr_items a, stbds_arrcap a)"

definition content_of :: "'a arr res \<Rightarrow> ('a list \<times> nat) option" where
  "content_of r = (case r of Inl _ \<Rightarrow> None | Inr a \<Rightarrow> Some (arr_content a))"

lemma grown_cap:
  assumes "arr_ok a"
  shows "stbds_arrcap (stbds_arrput junk a v) = grown (stbds_arrcap a) (Suc (length (arr_items a)))"
    "stbds_arrins junk a i v = Inr a' \<Longrightarrow> stbds_arrcap a' = grown (stbds_arrcap a) (Suc (length (arr_items a)))"
    "stbds_arrcap (stbds_arrsetcap junk a n) = grown (stbds_arrcap a) n"
proof -
  have m: "stbds_arrcap (stbds_arrmaybegrow junk a 1) = grown (stbds_arrcap a) (Suc (length (arr_items a)))"
    using assms arrlen_items [OF assms]
    by (cases a) (auto simp: stbds_arrmaybegrow_def stbds_arrgrowf_def stbds_arrlen_def stbds_arrcap_def
        arr_ok_def grown_def Let_def max_def)
  then show "stbds_arrcap (stbds_arrput junk a v) = grown (stbds_arrcap a) (Suc (length (arr_items a)))"
    by (simp add: stbds_arrput_def stbds_arrcap_def split: option.splits)
  show "stbds_arrcap a' = grown (stbds_arrcap a) (Suc (length (arr_items a)))" if "stbds_arrins junk a i v = Inr a'"
    using that m
    by (auto simp: stbds_arrins_def stbds_arrinsn_def stbds_arraddnindex_def stbds_arrcap_def Let_def
        split: option.splits if_splits)
  show "stbds_arrcap (stbds_arrsetcap junk a n) = grown (stbds_arrcap a) n"
    using assms by (cases a) (auto simp: stbds_arrsetcap_def stbds_arrgrowf_def stbds_arrlen_def stbds_arrcap_def
        arr_ok_def grown_def Let_def)
qed

lemma kept_cap:
  "stbds_arrdel a i = Inr a' \<Longrightarrow> stbds_arrcap a' = stbds_arrcap a"
  "stbds_arrdelswap a i = Inr a' \<Longrightarrow> stbds_arrcap a' = stbds_arrcap a"
  "stbds_arrpop a = Inr (x, a') \<Longrightarrow> stbds_arrcap a' = stbds_arrcap a"
  "arr_ok a \<Longrightarrow> n \<le> length (arr_items a) \<Longrightarrow> stbds_arrcap (stbds_arrsetlen junk a n) = stbds_arrcap a"
  by (cases a; auto simp: stbds_arrdel_def stbds_arrdeln_def stbds_arrdelswap_def stbds_arrpop_def stbds_arrsetlen_def
      stbds_arrcap_def arr_ok_def arr_items_def Let_def split: if_splits)+

lemma arr_out_of_range:
  assumes "arr_ok a" and "\<not> i < length (arr_items a)"
  shows "\<exists>e. stbds_arrdel a i = Inl e"
    "i \<noteq> length (arr_items a) \<Longrightarrow> \<exists>e. stbds_arrins junk a i x = Inl e"
proof -
  obtain b where b: "stbds_arrmaybegrow junk a 1 = Some b" "arr_items (Some b) = arr_items a" "arr_ok (Some b)"
    using maybegrow_1 [OF assms(1)] by blast
  then have "length (arr_items a) = hdr_length b" using block_items by blast
  with b assms(2) show "\<exists>e. stbds_arrins junk a i x = Inl e" if "i \<noteq> length (arr_items a)"
    using that by (auto simp: stbds_arrins_def stbds_arrinsn_def stbds_arraddnindex_def Let_def)
qed (use assms in \<open>cases a; auto simp: stbds_arrdel_def stbds_arrdeln_def arr_ok_def arr_items_def\<close>)

lemma delswap_beyond:
  assumes "arr_ok a" "\<not> i < length (arr_items a)"
  shows "arr_items a \<noteq> [] \<Longrightarrow> i < stbds_arrcap a \<Longrightarrow>
      \<exists>a'. stbds_arrdelswap a i = Inr a' \<and> arr_ok a' \<and> arr_items a' = butlast (arr_items a)"
    "\<not> (arr_items a \<noteq> [] \<and> i < stbds_arrcap a) \<Longrightarrow> \<exists>e. stbds_arrdelswap a i = Inl e"
  using assms
  by (cases a; auto simp: stbds_arrdelswap_def arr_ok_def arr_items_def stbds_arrcap_def butlast_conv_take min_def)+

lemma arr_step_cases:
  assumes ok: "arr_ok a"
  obtains a' where "arr_step junk m c a = Inr a'" "arr_ok a'" "list_step c (arr_content a) = Some (arr_content a')"
  | e where "arr_step junk m c a = Inl e" "list_step c (arr_content a) = None"
proof (cases c)
  case (Put x)
  with stb.put_items [OF ok, of junk x] grown_cap(1) [OF ok] that(1) show thesis
    by (simp add: arr_step_def list_step_def arr_content_def arrput_def)
next
  case (Del i)
  show thesis
  proof (cases "i < length (arr_items a)")
    case True
    with stb.del_items [OF ok True] Del kept_cap(1) that(1) show thesis
      by (fastforce simp: arr_step_def list_step_def arr_content_def arrdel_def remove_nth_def)
  next
    case False
    with arr_out_of_range(1) [OF ok False] Del that(2) show thesis
      by (auto simp: arr_step_def list_step_def arr_content_def)
  qed
next
  case (Delswap i)
  consider "i < length (arr_items a)"
    | "\<not> i < length (arr_items a)" "arr_items a \<noteq> []" "i < stbds_arrcap a"
    | "\<not> i < length (arr_items a)" "\<not> (arr_items a \<noteq> [] \<and> i < stbds_arrcap a)" by blast
  then show thesis
  proof cases
    case 1
    with stb.delswap_items [OF ok 1] Delswap kept_cap(2) that(1) show thesis
      by (fastforce simp: arr_step_def list_step_def arr_content_def arrdelswap_def)
  next
    case 2
    with delswap_beyond(1) [OF ok 2] Delswap kept_cap(2) that(1) show thesis
      by (fastforce simp: arr_step_def list_step_def arr_content_def)
  next
    case 3
    with delswap_beyond(2) [OF ok 3] Delswap that(2) show thesis
      by (auto simp: arr_step_def list_step_def arr_content_def)
  qed
next
  case Pop
  show thesis
  proof (cases "arr_items a = []")
    case True
    then have "\<exists>e. stbds_arrpop a = Inl e"
      using ok by (cases a) (auto simp: stbds_arrpop_def arr_items_def arr_ok_def)
    with Pop True that(2) show thesis by (auto simp: arr_step_def list_step_def arr_content_def)
  next
    case False
    with stb.pop_items [OF ok] Pop kept_cap(3) that(1) show thesis
      by (fastforce simp: arr_step_def list_step_def arr_content_def)
  qed
next
  case (Ins i x)
  show thesis
  proof (cases "i \<le> length (arr_items a)")
    case True
    with stbds_arrins_items [OF ok, where i = i and junk = junk and v = x] Ins grown_cap(2) [OF ok] that(1) show thesis
      by (fastforce simp: arr_step_def list_step_def arr_content_def)
  next
    case False
    with arr_out_of_range(2) [OF ok, where i = i and junk = junk and x = x] Ins that(2) show thesis
      by (auto simp: arr_step_def list_step_def arr_content_def)
  qed
next
  case (Setcap n)
  with stbds_arrgrowf_items [OF ok, of junk 0 n] grown_cap(3) [OF ok] that(1) show thesis
    by (simp add: arr_step_def list_step_def arr_content_def stbds_arrsetcap_def)
next
  case (Truncate n)
  have "take n (arr_items a) = take (min n (length (arr_items a))) (arr_items a)" by (simp add: min_def)
  with Truncate stbds_arrsetlen_items [OF ok, where junk = junk and n = "min n (stbds_arrlen a)"] arrlen_items [OF ok]
    kept_cap(4) [OF ok, of "min n (stbds_arrlen a)" junk] that(1) show thesis
    by (simp add: arr_step_def list_step_def arr_content_def)
next
  case Free
  with that(1) show thesis
    by (simp add: arr_step_def list_step_def arr_content_def stbds_arrfree_def stbds_arrcap_def)
qed

lemma arr_run_items: "arr_ok a \<Longrightarrow> content_of (arr_run junk m cs a) = list_run cs (arr_content a)"
proof (induction cs arbitrary: a)
  case (Cons c cs)
  show ?case
  proof (cases rule: arr_step_cases [OF Cons.prems, of junk m c])
    case (1 a')
    with Cons.IH show ?thesis by simp
  qed (simp add: content_of_def)
qed (simp add: content_of_def)

section \<open>Properties\<close>

text \<open>
  C24: The stb_ds macros over header and slots implement lists: any sequence of put,
  insert, delete, delete-swap, pop, reservation, truncation and free from the NULL array gives
  the elements the list operations give and the capacity the doubling rule gives, and leaves
  the defined behaviour of C exactly when a list operation is out of range: a delete at or
  above the length, an insert above it, a pop of the empty array, and a delete-swap of the
  empty array or at or above the capacity. A delete-swap at an index from the length up to the
  capacity is defined and drops the last element.
\<close>

theorem stbds_refines_lists: "content_of (arr_run junk m cs None) = list_run cs ([], 0)"
  using arr_run_items [of None junk m cs] by (simp add: arr_content_def stbds_arrcap_def)

text \<open>
  Growth of an stb_ds array: after n puts into the NULL array the length is n and the
  capacity, doubled on every reallocation, lies between n and 2n + 4.
\<close>

theorem stbds_growth_bound:
  "stbds_arrlen (fold (\<lambda>x a. stbds_arrput junk a x) xs None) = length xs
   \<and> stbds_arrcap (fold (\<lambda>x a. stbds_arrput junk a x) xs None) \<in> {length xs..2 * length xs + 4}"
  using put_all_growth [of None junk xs] by (simp add: stbds_arrlen_def [of None] stbds_arrcap_def [of None])

end
