(* ===== verification/CResult.thy ===== *)
theory CResult
  imports Prelude
begin

text \<open>
  \<open>src/result.c\<close>, \<open>include/result.h\<close>: the \<open>Result\<close> object. The tag \<open>_is_ok\<close> and the
  two fields are a sum: \<open>Inr v\<close> is a result whose \<open>ok\<close> field holds \<open>v\<close>, \<open>Inl e\<close> one
  whose \<open>err\<close> field holds the message \<open>e\<close> (a result made with \<open>result_new_ok(NULL)\<close>
  carries \<open>()\<close>). Unwrapping an error ends the process.

  The \<open>Result\<close> box itself is a value here: its own \<open>calloc\<close>, which \<open>result.c\<close> does
  not check, is taken to succeed, and the box is not counted among the live blocks.
\<close>

type_synonym 'a Result = "string + 'a"

definition result_new_ok :: "'a \<Rightarrow> 'a Result" where
  "result_new_ok v = Inr v"

definition result_new_err :: "string \<Rightarrow> 'a Result" where
  "result_new_err e = Inl e"

definition result_is_ok :: "'a Result \<Rightarrow> bool" where
  "result_is_ok r = (case r of Inr _ \<Rightarrow> True | Inl _ \<Rightarrow> False)"

definition result_is_err :: "'a Result \<Rightarrow> bool" where
  "result_is_err r = (\<not> result_is_ok r)"

text \<open>The message printed by \<open>_result_unwrap\<close> ends with \<open>err\<close>; file and line are left out.\<close>

definition result_unwrap :: "'a Result \<Rightarrow> 'a res" where
  "result_unwrap r = (case r of Inl e \<Rightarrow> Inl (Exit_failure e) | Inr v \<Rightarrow> Inr v)"

definition result_expect :: "'a Result \<Rightarrow> string \<Rightarrow> 'a res" where
  "result_expect r msg = (case r of Inl e \<Rightarrow> Inl (Exit_failure (e @ '': '' @ msg)) | Inr v \<Rightarrow> Inr v)"

definition RESULT_UNREACHABLE :: "'a res" where
  "RESULT_UNREACHABLE = result_unwrap (result_new_err ''Unreachable'')"

lemma result_simps [simp]:
  "result_is_ok (result_new_ok v)" "\<not> result_is_ok (result_new_err e)"
  "\<not> result_is_err (result_new_ok v)" "result_is_err (result_new_err e)"
  "result_unwrap (result_new_ok v) = Inr v"
  "result_expect (result_new_ok v) msg = Inr v"
  "result_new_ok v \<noteq> result_new_err e" "result_new_err e \<noteq> result_new_ok v"
  "result_new_ok v = result_new_ok w \<longleftrightarrow> v = w"
  "result_new_err d = result_new_err e \<longleftrightarrow> d = e"
  by (auto simp: result_is_ok_def result_is_err_def result_new_ok_def result_new_err_def
      result_unwrap_def result_expect_def)

lemma result_unwrap_Inr [simp]: "result_unwrap r = Inr v \<longleftrightarrow> r = result_new_ok v"
  and result_expect_Inr [simp]: "result_expect r msg = Inr v \<longleftrightarrow> r = result_new_ok v"
  by (cases r; auto simp: result_unwrap_def result_expect_def result_new_ok_def)+

lemma RESULT_UNREACHABLE_exit: "RESULT_UNREACHABLE = Inl (Exit_failure ''Unreachable'')"
  by (simp add: RESULT_UNREACHABLE_def result_unwrap_def result_new_err_def)

lemma RESULT_UNREACHABLE_not_Inr [simp]: "RESULT_UNREACHABLE \<noteq> Inr x" "Inr x \<noteq> RESULT_UNREACHABLE"
  by (simp_all add: RESULT_UNREACHABLE_exit)

lemma result_cases [case_names Ok Err]:
  obtains v where "r = result_new_ok v" | e where "r = result_new_err e"
  by (cases r) (auto simp: result_new_ok_def result_new_err_def)

end
