(* ===== verification/VectorClock.thy ===== *)
theory VectorClock
  imports CResult
begin

text \<open>
  \<open>src/vector_clock.c\<close>: a vector of 64-bit counters, one per process. The mutex is not
  data; whether \<open>pthread_mutex_init\<close> succeeds is a parameter of \<open>vc_init\<close>. Indexing
  past the allocation is undefined behaviour.
\<close>

record vector_clock =
  vc_clock :: "u64 list"
  vc_len :: u64

definition vc_init :: "bool \<Rightarrow> u64 \<Rightarrow> memory \<Rightarrow> vector_clock Result \<times> memory" where
  "vc_init mutex_ok sz m =
     (if sz = 0 then (result_new_err ''[vc_init] invalid size'', m)
      else
        let (vc, m) = calloc m in
        if \<not> vc then (result_new_err ''[vc_init] failed to allocate vector_clock_t'', m)
        else
          let (clk, m) = calloc m in
          if \<not> clk
          then (result_new_err ''[vc_init] failed to allocate vc->clock'', c_free 1 m)
          else if \<not> mutex_ok
          then (result_new_err ''[vc_init] Failed to initialize vector clock mutex'', c_free 1 m)
          else (result_new_ok \<lparr>vc_clock = replicate (unat sz) 0, vc_len = sz\<rparr>, m))"

definition vc_free :: "vector_clock option \<Rightarrow> memory \<Rightarrow> memory" where
  "vc_free vc m = (if vc = None then m else c_free 2 m)"

definition vc_snapshot :: "vector_clock option \<Rightarrow> memory \<Rightarrow> u64 list option \<times> memory" where
  "vc_snapshot vc m =
     (case vc of
        None \<Rightarrow> (None, m)
      | Some vc \<Rightarrow>
          let (snapshot, m) = calloc m in
          if \<not> snapshot then (None, m)
          else (Some (take (unat (vc_len vc)) (vc_clock vc)), m))"

text \<open>\<open>vc->clock[p]\<close> and \<open>++vc->clock[p]\<close>.\<close>

definition vc_read :: "vector_clock \<Rightarrow> nat \<Rightarrow> u64 res" where
  "vc_read vc p =
     (if p < length (vc_clock vc) then Inr (vc_clock vc ! p)
      else Inl (Undefined_behaviour ''vector clock index''))"

definition vc_inc :: "vector_clock \<Rightarrow> nat \<Rightarrow> vector_clock res" where
  "vc_inc vc p =
     (if p < length (vc_clock vc)
      then Inr (vc\<lparr>vc_clock := (vc_clock vc)[p := vc_clock vc ! p + 1]\<rparr>)
      else Inl (Undefined_behaviour ''vector clock index''))"

definition vc_wf :: "vector_clock \<Rightarrow> bool" where
  "vc_wf vc \<longleftrightarrow> length (vc_clock vc) = unat (vc_len vc)"

lemma vc_read_Inr [simp]: "vc_read vc p = Inr c \<longleftrightarrow> p < length (vc_clock vc) \<and> c = vc_clock vc ! p"
  by (auto simp: vc_read_def)

lemma vc_inc_Inr [simp]:
  "vc_inc vc p = Inr vc' \<longleftrightarrow>
     p < length (vc_clock vc) \<and> vc' = vc\<lparr>vc_clock := (vc_clock vc)[p := vc_clock vc ! p + 1]\<rparr>"
  by (auto simp: vc_inc_def)

lemma vc_inc_in_range:
  "p < length (vc_clock vc) \<Longrightarrow>
     vc_inc vc p = Inr (vc\<lparr>vc_clock := (vc_clock vc)[p := vc_clock vc ! p + 1]\<rparr>)"
  by simp

lemma vc_inc_wf: "vc_wf vc \<Longrightarrow> vc_inc vc p = Inr vc' \<Longrightarrow> vc_wf vc'"
  by (auto simp: vc_wf_def)

lemma vc_inc_len: "vc_inc vc p = Inr vc' \<Longrightarrow> vc_len vc' = vc_len vc"
  by auto

lemma vc_init_ok:
  assumes "vc_init mutex_ok sz m = (result_new_ok vc, m')"
  shows "sz \<noteq> 0" "vc_clock vc = replicate (unat sz) 0" "vc_len vc = sz" "vc_wf vc"
    "live m' = live m + 2"
  using assms
  by (auto simp: vc_init_def calloc_def vc_wf_def Let_def split: if_splits prod.splits)

section \<open>Properties\<close>

text \<open>
  C29: vc_init, for every size, every pattern of allocation failures and every outcome of
  pthread_mutex_init: it succeeds iff the size is not 0 and nothing fails, with a zero clock
  of that size that owns two blocks; when it fails nothing stays allocated, except that a
  failing mutex initialisation leaks the clock array.
\<close>

theorem vc_init_outcomes:
  "(case vc_init mutex_ok sz m of (r, m') \<Rightarrow>
      result_is_ok r = (sz \<noteq> 0 \<and> alloc_ok m (allocs m) \<and> alloc_ok m (Suc (allocs m)) \<and> mutex_ok)
      \<and> (case r of Inr vc \<Rightarrow> vc = \<lparr>vc_clock = replicate (unat sz) 0, vc_len = sz\<rparr> \<and> vc_wf vc
                     \<and> live (vc_free (Some vc) m') = live m
         | Inl e \<Rightarrow> live m' = live m + (if sz \<noteq> 0 \<and> alloc_ok m (allocs m) \<and> alloc_ok m (Suc (allocs m))
                                      then 1 else 0)))"
  by (auto simp: vc_init_def calloc_def vc_free_def vc_wf_def Let_def result_is_ok_def result_new_ok_def
      result_new_err_def)

end
