(* ===== verification/Message.thy ===== *)
theory Message
  imports CResult
begin

text \<open>
  \<open>src/cbcast/message.c\<close> and the message types of \<open>include/cbcast.h\<close>: construction,
  wire format and destruction of messages.

  \<^item> A message owns a packed 8-byte header (\<open>kind\<close>, \<open>clock\<close>, \<open>len\<close>) and, for the data
    kinds, a payload buffer of \<open>len + 1\<close> bytes whose last byte is 0.
  \<^item> The wire format is the header as it lies in memory (little-endian host) and then the
    payload buffer, its terminating 0 included.
  \<^item> \<open>CBC_OTHER w\<close> stands for a \<open>kind\<close> word outside the enumeration, which
    \<open>cbc_msg_deserialize\<close> can produce from foreign bytes.

  The locale \<open>codec\<close> is the contract of a fixed-width encoding; it is interpreted for the
  two integer widths and for the header.
\<close>

section \<open>Types\<close>

datatype cbcast_msg_kind =
  CBC_DATA | CBC_ACK | CBC_RETRANSMIT_REQ | CBC_RETRANSMIT | CBC_OTHER u32

definition word_of_kind :: "cbcast_msg_kind \<Rightarrow> u32" where
  "word_of_kind k = (case k of CBC_DATA \<Rightarrow> 1 | CBC_ACK \<Rightarrow> 2 | CBC_RETRANSMIT_REQ \<Rightarrow> 3
     | CBC_RETRANSMIT \<Rightarrow> 4 | CBC_OTHER w \<Rightarrow> w)"

definition kind_of_word :: "u32 \<Rightarrow> cbcast_msg_kind" where
  "kind_of_word w = (if w = 1 then CBC_DATA else if w = 2 then CBC_ACK
     else if w = 3 then CBC_RETRANSMIT_REQ else if w = 4 then CBC_RETRANSMIT else CBC_OTHER w)"

definition kind_ok :: "cbcast_msg_kind \<Rightarrow> bool" where
  "kind_ok k = (case k of CBC_OTHER w \<Rightarrow> w \<notin> {1, 2, 3, 4} | _ \<Rightarrow> True)"

record cbcast_msg_hdr =
  kind :: cbcast_msg_kind
  clock :: u16
  len :: u16

record cbcast_msg =
  header :: cbcast_msg_hdr
  payload :: "u8 list option"

record sockaddr_in =
  sin_family :: u16
  sin_port :: u16
  s_addr :: u32
  sin_zero :: u64

record cbcast_outgoing_msg =
  out_message :: cbcast_msg
  out_addr :: "sockaddr_in option"
  socket_flags :: int

record cbcast_sent_msg =
  sent_message :: cbcast_msg
  ack_target :: u64
  ack_bitmap :: u64

record cbcast_received_msg =
  rcvd_message :: cbcast_msg
  sender_pid :: u16

section \<open>Construction and destruction\<close>

definition create_msg_with_header :: "cbcast_msg_kind \<Rightarrow> memory \<Rightarrow> cbcast_msg Result \<times> memory" where
  "create_msg_with_header k m =
     (let (hdr, m) = calloc m in
      if \<not> hdr then (result_new_err ''[cbc_create_msg_header] Alloc failed'', m)
      else
        let (message, m) = calloc m in
        if \<not> message then (result_new_err ''[cbc_create_message] Alloc failed'', c_free 1 m)
        else (result_new_ok \<lparr>header = \<lparr>kind = k, clock = 0, len = 0\<rparr>, payload = None\<rparr>, m))"

definition cbc_msg_blocks :: "cbcast_msg \<Rightarrow> int" where
  "cbc_msg_blocks msg = 2 + (if payload msg = None then 0 else 1)"

definition cbc_msg_free :: "cbcast_msg option \<Rightarrow> memory \<Rightarrow> memory" where
  "cbc_msg_free msg m = (case msg of None \<Rightarrow> m | Some msg \<Rightarrow> c_free (cbc_msg_blocks msg) m)"

definition create_msg_with_payload ::
  "cbcast_msg_kind \<Rightarrow> u8 list option \<Rightarrow> u16 \<Rightarrow> memory \<Rightarrow> (cbcast_msg Result \<times> memory) res" where
  "create_msg_with_payload k pl payload_len m =
     (case pl of
        None \<Rightarrow> Inr (result_new_err ''[cbc_create_message] Invalid header or payload'', m)
      | Some bytes \<Rightarrow>
          if payload_len = 0
          then Inr (result_new_err ''[cbc_create_message] Invalid header or payload'', m)
          else
            let (with_header_res, m) = create_msg_with_header k m in
            if result_is_err with_header_res then Inr (with_header_res, m)
            else
              andthen (result_expect with_header_res ''unfallible expect'') (\<lambda>message.
              let message = message\<lparr>header := (header message)\<lparr>len := payload_len\<rparr>\<rparr>;
                  (buf, m) = calloc m
              in if \<not> buf
                 then Inr (result_new_err ''[cbc_create_message] strdup failed'',
                           cbc_msg_free (Some message) m)
                 else if length bytes < unat payload_len
                 then Inl (Undefined_behaviour ''memcpy past the payload'')
                 else Inr (result_new_ok
                        (message\<lparr>payload := Some (take (unat payload_len) bytes @ [0])\<rparr>), m)))"

definition cbc_msg_create ::
  "cbcast_msg_kind \<Rightarrow> u8 list option \<Rightarrow> u16 \<Rightarrow> memory \<Rightarrow> (cbcast_msg Result \<times> memory) res" where
  "cbc_msg_create k pl payload_len m =
     (case k of
        CBC_ACK \<Rightarrow> Inr (create_msg_with_header k m)
      | CBC_RETRANSMIT_REQ \<Rightarrow> Inr (create_msg_with_header k m)
      | CBC_DATA \<Rightarrow> create_msg_with_payload k pl payload_len m
      | CBC_RETRANSMIT \<Rightarrow> create_msg_with_payload k pl payload_len m
      | CBC_OTHER _ \<Rightarrow> RESULT_UNREACHABLE)"

definition cbc_outgoing_msg_create ::
  "cbcast_msg \<Rightarrow> sockaddr_in option \<Rightarrow> memory \<Rightarrow> cbcast_outgoing_msg Result \<times> memory" where
  "cbc_outgoing_msg_create msg addr m =
     (if addr = None \<and> kind (header msg) \<noteq> CBC_DATA
      then (result_new_err ''[cbc_outgoing_msg_create] Null address for non-data message'', m)
      else
        let (out, m) = calloc m in
        if \<not> out
        then (result_new_err ''[cbc_outgoing_msg_create] Memory allocation failed'', m)
        else (result_new_ok \<lparr>out_message = msg, out_addr = addr, socket_flags = 0\<rparr>, m))"

text \<open>
  \<open>message\<close> is NULL when the send thread has handed the message to the sent buffer.
\<close>

definition cbc_outgoing_msg_free ::
  "cbcast_msg option \<Rightarrow> sockaddr_in option \<Rightarrow> memory \<Rightarrow> memory" where
  "cbc_outgoing_msg_free msg addr m =
     (let m = (if msg \<noteq> None then cbc_msg_free msg m else m);
          m = (if addr \<noteq> None then c_free 1 m else m)
      in c_free 1 m)"

text \<open>The parameter is 16 bits wide: the caller's 64-bit target is cut to 16 bits.\<close>

definition cbc_sent_msg_create ::
  "cbcast_msg \<Rightarrow> u16 \<Rightarrow> memory \<Rightarrow> cbcast_sent_msg Result \<times> memory" where
  "cbc_sent_msg_create msg target m =
     (let (out, m) = calloc m in
      if \<not> out then (result_new_err ''[cbc_sent_msg_create] Memory allocation failed'', m)
      else (result_new_ok \<lparr>sent_message = msg, ack_target = ucast target, ack_bitmap = 0\<rparr>, m))"

definition cbc_sent_msg_free :: "cbcast_sent_msg \<Rightarrow> memory \<Rightarrow> memory" where
  "cbc_sent_msg_free msg m = c_free 1 (cbc_msg_free (Some (sent_message msg)) m)"

definition cbc_received_msg_create ::
  "cbcast_msg \<Rightarrow> u16 \<Rightarrow> memory \<Rightarrow> cbcast_received_msg Result \<times> memory" where
  "cbc_received_msg_create msg sender m =
     (let (out, m) = calloc m in
      if \<not> out then (result_new_err ''[cbc_received_msg_create] Memory allocation failed'', m)
      else (result_new_ok \<lparr>rcvd_message = msg, sender_pid = sender\<rparr>, m))"

definition cbc_received_msg_free :: "cbcast_received_msg \<Rightarrow> memory \<Rightarrow> memory" where
  "cbc_received_msg_free msg m = c_free 1 (cbc_msg_free (Some (rcvd_message msg)) m)"

section \<open>Wire format\<close>

definition bytes_of_u16 :: "u16 \<Rightarrow> u8 list" where
  "bytes_of_u16 w = [ucast w, ucast (drop_bit 8 w)]"

definition u16_of_bytes :: "u8 list \<Rightarrow> u16" where
  "u16_of_bytes bs = ucast (bs ! 0) OR push_bit 8 (ucast (bs ! 1))"

definition bytes_of_u32 :: "u32 \<Rightarrow> u8 list" where
  "bytes_of_u32 w =
     [ucast w, ucast (drop_bit 8 w), ucast (drop_bit 16 w), ucast (drop_bit 24 w)]"

definition u32_of_bytes :: "u8 list \<Rightarrow> u32" where
  "u32_of_bytes bs = ucast (bs ! 0) OR push_bit 8 (ucast (bs ! 1))
     OR push_bit 16 (ucast (bs ! 2)) OR push_bit 24 (ucast (bs ! 3))"

text \<open>\<open>sizeof(cbcast_msg_hdr_t)\<close>: the structure is packed.\<close>

definition hdr_size :: nat where
  "hdr_size = 8"

definition bytes_of_hdr :: "cbcast_msg_hdr \<Rightarrow> u8 list" where
  "bytes_of_hdr h = bytes_of_u32 (word_of_kind (kind h)) @ bytes_of_u16 (clock h) @ bytes_of_u16 (len h)"

definition hdr_of_bytes :: "u8 list \<Rightarrow> cbcast_msg_hdr" where
  "hdr_of_bytes bs = \<lparr>kind = kind_of_word (u32_of_bytes bs), clock = u16_of_bytes (drop 4 bs),
     len = u16_of_bytes (drop 6 bs)\<rparr>"

text \<open>
  The serializers return the buffer (or NULL) and the value they leave in \<open>*out_size\<close>,
  which is 0 on entry.
\<close>

definition serialize_header_only :: "cbcast_msg \<Rightarrow> memory \<Rightarrow> u8 list option \<times> nat \<times> memory" where
  "serialize_header_only msg m =
     (let (serialized, m) = calloc m in
      if \<not> serialized then (None, hdr_size, m)
      else (Some (bytes_of_hdr (header msg)), hdr_size, m))"

definition serialize_full :: "cbcast_msg \<Rightarrow> memory \<Rightarrow> (u8 list option \<times> nat \<times> memory) res" where
  "serialize_full msg m =
     (case payload msg of
        None \<Rightarrow> Inr (None, 0, m)
      | Some buf \<Rightarrow>
          if len (header msg) = 0 then Inr (None, 0, m)
          else
            let payload_size = unat (len (header msg)) + 1;
                total_size = hdr_size + payload_size;
                (serialized, m) = calloc m
            in if \<not> serialized then Inr (None, 0, m)
               else if length buf < payload_size
               then Inl (Undefined_behaviour ''memcpy past the payload'')
               else Inr (Some (bytes_of_hdr (header msg) @ take payload_size buf), total_size, m))"

definition cbc_msg_serialize :: "cbcast_msg \<Rightarrow> memory \<Rightarrow> (u8 list option \<times> nat \<times> memory) res" where
  "cbc_msg_serialize msg m =
     (case kind (header msg) of
        CBC_ACK \<Rightarrow> Inr (serialize_header_only msg m)
      | CBC_RETRANSMIT_REQ \<Rightarrow> Inr (serialize_header_only msg m)
      | CBC_DATA \<Rightarrow> serialize_full msg m
      | CBC_RETRANSMIT \<Rightarrow> serialize_full msg m
      | CBC_OTHER _ \<Rightarrow> RESULT_UNREACHABLE)"

definition cbc_msg_deserialize :: "u8 list \<Rightarrow> memory \<Rightarrow> (cbcast_msg Result \<times> memory) res" where
  "cbc_msg_deserialize bytes m =
     (let (msg, m) = calloc m in
      if \<not> msg then Inr (result_new_err ''[cbc_msg_deserialize] Memory allocation failed for message'', m)
      else
        let (hdr, m) = calloc m in
        if \<not> hdr
        then Inr (result_new_err ''[cbc_msg_deserialize] Memory allocation failed for header'', c_free 1 m)
        else if length bytes < hdr_size
        then Inl (Undefined_behaviour ''memcpy past the datagram'')
        else
          let hdr = hdr_of_bytes bytes in
          if kind hdr = CBC_ACK \<or> kind hdr = CBC_RETRANSMIT_REQ
          then Inr (result_new_ok \<lparr>header = hdr, payload = None\<rparr>, m)
          else if len hdr = 0
          then Inr (result_new_err ''[cbc_msg_deserialize] Invalid header length'', c_free 2 m)
          else
            let (buf, m) = calloc m in
            if \<not> buf
            then Inr (result_new_err ''[cbc_msg_deserialize] Memory allocation failed for payload'', c_free 2 m)
            else if length bytes < hdr_size + unat (len hdr)
            then Inl (Undefined_behaviour ''memcpy past the datagram'')
            else Inr (result_new_ok \<lparr>header = hdr,
                   payload = Some (take (unat (len hdr)) (drop hdr_size bytes) @ [0])\<rparr>, m))"

section \<open>Fixed-width encodings\<close>

locale codec =
  fixes enc :: "'a \<Rightarrow> u8 list"
    and dec :: "u8 list \<Rightarrow> 'a"
    and wf :: "'a \<Rightarrow> bool"
    and width :: nat
  assumes enc_length: "wf x \<Longrightarrow> length (enc x) = width"
    and dec_enc: "wf x \<Longrightarrow> dec (enc x @ ys) = x"
begin

lemma enc_inj:
  assumes "wf x" and "wf y" and eq: "enc x @ xs = enc y @ ys"
  shows "x = y \<and> xs = ys"
proof -
  have "x = y" using dec_enc [OF assms(1), of xs] dec_enc [OF assms(2), of ys] eq by simp
  with eq show ?thesis by simp
qed

lemma dec_enc_exact: "wf x \<Longrightarrow> dec (enc x) = x"
  using dec_enc [of x "[]"] by simp

lemma drop_enc: "wf x \<Longrightarrow> drop width (enc x @ ys) = ys"
  by (simp add: enc_length)

lemma take_enc: "wf x \<Longrightarrow> take (width + n) (enc x @ ys) = enc x @ take n ys"
  by (simp add: enc_length)

end

text \<open>An encoding that uses every byte string of its width, so that decoding loses nothing.\<close>

locale total_codec = codec +
  assumes wf_dec: "length bs = width \<Longrightarrow> wf (dec bs)"
    and enc_dec: "length bs = width \<Longrightarrow> enc (dec bs) = bs"
begin

lemma enc_bij: "bij_betw enc {x. wf x} {bs. length bs = width}"
  by (rule bij_betw_byWitness [where f' = dec])
    (auto simp: enc_length dec_enc_exact wf_dec enc_dec)

end

interpretation u16c: total_codec bytes_of_u16 u16_of_bytes "\<lambda>_. True" 2
proof unfold_locales
  fix x :: u16 and ys
  show "u16_of_bytes (bytes_of_u16 x @ ys) = x"
  proof (rule bit_word_eqI)
    fix n assume n: "n < LENGTH(16)"
    show "bit (u16_of_bytes (bytes_of_u16 x @ ys)) n = bit x n"
    proof (cases "n < 8")
      case True
      then show ?thesis by (simp add: u16_of_bytes_def bytes_of_u16_def bit_simps)
    next
      case False
      then obtain k where "n = 8 + k" by (metis le_Suc_ex not_less)
      with n show ?thesis by (simp add: u16_of_bytes_def bytes_of_u16_def bit_simps)
    qed
  qed
next
  fix bs :: "u8 list" assume "length bs = 2"
  then obtain a b where bs: "bs = [a, b]"
    by (metis (no_types) One_nat_def Suc_1 Suc_length_conv length_0_conv)
  have "ucast (u16_of_bytes bs) = a" and "ucast (drop_bit 8 (u16_of_bytes bs)) = b"
    by (rule bit_word_eqI; auto simp: bs u16_of_bytes_def bit_simps dest: bit_imp_le_length)+
  then show "bytes_of_u16 (u16_of_bytes bs) = bs" by (simp add: bytes_of_u16_def bs)
qed (simp_all add: bytes_of_u16_def)

interpretation u32c: total_codec bytes_of_u32 u32_of_bytes "\<lambda>_. True" 4
proof unfold_locales
  fix x :: u32 and ys
  show "u32_of_bytes (bytes_of_u32 x @ ys) = x"
  proof (rule bit_word_eqI)
    fix n assume n: "n < LENGTH(32)"
    consider "n < 8" | k where "n = 8 + k" "k < 8" | k where "n = 16 + k" "k < 8"
      | k where "n = 24 + k" "k < 8"
    proof -
      have "n < 8 \<or> n = 8 + (n - 8) \<and> n - 8 < 8 \<or> n = 16 + (n - 16) \<and> n - 16 < 8
          \<or> n = 24 + (n - 24) \<and> n - 24 < 8"
        using n by auto
      then show ?thesis using that by blast
    qed
    then show "bit (u32_of_bytes (bytes_of_u32 x @ ys)) n = bit x n"
      by cases (use n in \<open>simp_all add: u32_of_bytes_def bytes_of_u32_def bit_simps\<close>)
  qed
next
  fix bs :: "u8 list" assume "length bs = 4"
  then obtain a b c d where bs: "bs = [a, b, c, d]"
    by (auto simp: numeral_eq_Suc length_Suc_conv)
  have "ucast (u32_of_bytes bs) = a" "ucast (drop_bit 8 (u32_of_bytes bs)) = b"
    "ucast (drop_bit 16 (u32_of_bytes bs)) = c" "ucast (drop_bit 24 (u32_of_bytes bs)) = d"
    by (rule bit_word_eqI; auto simp: bs u32_of_bytes_def bit_simps dest: bit_imp_le_length)+
  then show "bytes_of_u32 (u32_of_bytes bs) = bs" by (simp add: bytes_of_u32_def bs)
qed (simp_all add: bytes_of_u32_def)

lemma kind_codes [simp]:
  "kind_ok k \<Longrightarrow> kind_of_word (word_of_kind k) = k"
  "word_of_kind (kind_of_word w) = w"
  "kind_ok (kind_of_word w)"
  by (auto simp: kind_of_word_def word_of_kind_def kind_ok_def split: cbcast_msg_kind.splits)

interpretation hdrc: total_codec bytes_of_hdr hdr_of_bytes "\<lambda>h. kind_ok (kind h)" hdr_size
proof unfold_locales
  fix h :: cbcast_msg_hdr and ys assume "kind_ok (kind h)"
  then show "hdr_of_bytes (bytes_of_hdr h @ ys) = h"
    by (simp add: hdr_of_bytes_def bytes_of_hdr_def u16c.dec_enc u32c.dec_enc u16c.enc_length
        u32c.enc_length del: append_assoc) (simp add: u16c.dec_enc u32c.dec_enc)
next
  fix bs :: "u8 list" assume l: "length bs = hdr_size"
  let ?a = "take 4 bs" and ?b = "take 2 (drop 4 bs)" and ?c = "drop 6 bs"
  have lens: "length ?a = 4" "length ?b = 2" "length ?c = 2"
    using l by (simp_all add: hdr_size_def)
  have d: "drop 6 bs = drop 2 (drop 4 bs)" by simp
  have bs: "bs = ?a @ ?b @ ?c" by (simp only: d append_take_drop_id)
  have "bytes_of_u32 (u32_of_bytes bs) = ?a"
    using u32c.enc_dec [OF lens(1)] lens by (simp add: u32_of_bytes_def)
  moreover have "bytes_of_u16 (u16_of_bytes (drop 4 bs)) = ?b"
    using u16c.enc_dec [OF lens(2)] lens l by (simp add: u16_of_bytes_def)
  moreover have "bytes_of_u16 (u16_of_bytes (drop 6 bs)) = ?c"
    by (rule u16c.enc_dec [OF lens(3)])
  ultimately show "bytes_of_hdr (hdr_of_bytes bs) = bs"
    using bs by (simp add: bytes_of_hdr_def hdr_of_bytes_def)
qed (simp_all add: bytes_of_hdr_def hdr_of_bytes_def u16c.enc_length u32c.enc_length hdr_size_def)

section \<open>Messages the constructors make\<close>

text \<open>
  A header-only kind has no payload and length 0; every other kind has a buffer of
  \<open>len + 1\<close> bytes that ends in 0.
\<close>

definition header_only :: "cbcast_msg_kind \<Rightarrow> bool" where
  "header_only k \<longleftrightarrow> k = CBC_ACK \<or> k = CBC_RETRANSMIT_REQ"

definition payload_wf :: "cbcast_msg \<Rightarrow> bool" where
  "payload_wf msg \<longleftrightarrow> len (header msg) \<noteq> 0 \<and>
     (\<exists>bytes. payload msg = Some (bytes @ [0]) \<and> length bytes = unat (len (header msg)))"

definition msg_wf :: "cbcast_msg \<Rightarrow> bool" where
  "msg_wf msg \<longleftrightarrow>
     (if header_only (kind (header msg))
      then payload msg = None \<and> len (header msg) = 0
      else kind (header msg) \<in> {CBC_DATA, CBC_RETRANSMIT} \<and> payload_wf msg)"

lemma kind_cases_simps [simp]:
  "header_only CBC_ACK" "header_only CBC_RETRANSMIT_REQ"
  "\<not> header_only CBC_DATA" "\<not> header_only CBC_RETRANSMIT" "\<not> header_only (CBC_OTHER w)"
  by (simp_all add: header_only_def)

lemma create_msg_with_header_cases:
  obtains m' where "create_msg_with_header k m =
      (result_new_ok \<lparr>header = \<lparr>kind = k, clock = 0, len = 0\<rparr>, payload = None\<rparr>, m')"
    "live m' = live m + 2" "alloc_ok m' = alloc_ok m"
  | e m' where "create_msg_with_header k m = (result_new_err e, m')" "live m' = live m"
    "alloc_ok m' = alloc_ok m"
proof (cases "create_msg_with_header k m")
  case (Pair r m')
  then show thesis
    using that
    by (auto simp: create_msg_with_header_def calloc_def Let_def split: if_splits)
qed

text \<open>What \<open>cbc_msg_create\<close> returns for a payload buffer that holds \<open>n\<close> bytes.\<close>

definition payload_readable :: "u8 list option \<Rightarrow> u16 \<Rightarrow> bool" where
  "payload_readable pl n \<longleftrightarrow> (case pl of None \<Rightarrow> True | Some bytes \<Rightarrow> unat n \<le> length bytes)"

definition created_msg :: "cbcast_msg_kind \<Rightarrow> u8 list option \<Rightarrow> u16 \<Rightarrow> cbcast_msg" where
  "created_msg k pl n =
     (if header_only k then \<lparr>header = \<lparr>kind = k, clock = 0, len = 0\<rparr>, payload = None\<rparr>
      else \<lparr>header = \<lparr>kind = k, clock = 0, len = n\<rparr>, payload = Some (take (unat n) (the pl) @ [0])\<rparr>)"

lemma create_msg_with_payload_Inr:
  assumes "create_msg_with_payload k pl n m = Inr (r, m')"
  shows "(\<exists>e. r = result_new_err e \<and> live m' = live m) \<or>
    (r = result_new_ok \<lparr>header = \<lparr>kind = k, clock = 0, len = n\<rparr>,
        payload = Some (take (unat n) (the pl) @ [0])\<rparr>
      \<and> live m' = live m + 3 \<and> pl \<noteq> None \<and> n \<noteq> 0 \<and> unat n \<le> length (the pl))"
  using assms
  by (cases rule: create_msg_with_header_cases [of k m])
    (auto simp: create_msg_with_payload_def calloc_def Let_def cbc_msg_free_def cbc_msg_blocks_def
      split: option.splits if_splits)

lemma create_msg_with_payload_safe:
  "payload_readable pl n \<Longrightarrow> \<exists>r m'. create_msg_with_payload k pl n m = Inr (r, m')"
  by (cases rule: create_msg_with_header_cases [of k m])
    (auto simp: create_msg_with_payload_def payload_readable_def Let_def split: option.splits prod.splits)

lemma cbc_msg_create_Inr:
  assumes "cbc_msg_create k pl n m = Inr (r, m')"
  shows "(\<exists>e. r = result_new_err e \<and> live m' = live m) \<or>
    (r = result_new_ok (created_msg k pl n) \<and> live m' = live m + cbc_msg_blocks (created_msg k pl n)
      \<and> (header_only k \<or> k \<in> {CBC_DATA, CBC_RETRANSMIT} \<and> pl \<noteq> None \<and> n \<noteq> 0 \<and> unat n \<le> length (the pl)))"
proof (cases "header_only k")
  case True
  then have "create_msg_with_header k m = (r, m')"
    using assms by (auto simp: cbc_msg_create_def header_only_def)
  with True show ?thesis
    by (cases rule: create_msg_with_header_cases [of k m])
      (auto simp: created_msg_def cbc_msg_blocks_def)
next
  case False
  then have "create_msg_with_payload k pl n m = Inr (r, m')" and "k \<in> {CBC_DATA, CBC_RETRANSMIT}"
    using assms by (auto simp: cbc_msg_create_def split: cbcast_msg_kind.splits)
  with False show ?thesis
    using create_msg_with_payload_Inr
    by (fastforce simp: created_msg_def cbc_msg_blocks_def)
qed

lemma created_msg_wf:
  "header_only k \<or> k \<in> {CBC_DATA, CBC_RETRANSMIT} \<and> pl \<noteq> None \<and> n \<noteq> 0 \<and> unat n \<le> length (the pl)
     \<Longrightarrow> msg_wf (created_msg k pl n)"
  by (auto simp: msg_wf_def created_msg_def payload_wf_def)

lemma cbc_msg_create_wf:
  "cbc_msg_create k pl n m = Inr (result_new_ok msg, m') \<Longrightarrow> msg_wf msg \<and> msg = created_msg k pl n"
  using cbc_msg_create_Inr [of k pl n m "result_new_ok msg" m'] created_msg_wf by auto

text \<open>The clock is written into the header after construction.\<close>

definition set_clock :: "u16 \<Rightarrow> cbcast_msg \<Rightarrow> cbcast_msg" where
  "set_clock c msg = msg\<lparr>header := (header msg)\<lparr>clock := c\<rparr>\<rparr>"

lemma set_clock_simps [simp]:
  "clock (header (set_clock c msg)) = c" "kind (header (set_clock c msg)) = kind (header msg)"
  "len (header (set_clock c msg)) = len (header msg)" "payload (set_clock c msg) = payload msg"
  "msg_wf (set_clock c msg) = msg_wf msg" "cbc_msg_blocks (set_clock c msg) = cbc_msg_blocks msg"
  by (simp_all add: set_clock_def msg_wf_def payload_wf_def cbc_msg_blocks_def)

section \<open>Serializing and deserializing\<close>

text \<open>The bytes a well-formed message puts on the wire.\<close>

definition wire_bytes :: "cbcast_msg \<Rightarrow> u8 list" where
  "wire_bytes msg = bytes_of_hdr (header msg) @ (case payload msg of None \<Rightarrow> [] | Some buf \<Rightarrow> buf)"

lemma msg_wf_kind_ok [simp]: "msg_wf msg \<Longrightarrow> kind_ok (kind (header msg))"
  by (auto simp: msg_wf_def kind_ok_def header_only_def split: if_splits)

lemma length_wire_bytes:
  "msg_wf msg \<Longrightarrow> length (wire_bytes msg) =
     hdr_size + (if header_only (kind (header msg)) then 0 else unat (len (header msg)) + 1)"
  using hdrc.enc_length [of "header msg"]
  by (auto simp: wire_bytes_def msg_wf_def payload_wf_def split: if_splits)

lemma hdr_of_wire_bytes: "msg_wf msg \<Longrightarrow> hdr_of_bytes (wire_bytes msg) = header msg"
  using hdrc.dec_enc [of "header msg"] by (simp add: wire_bytes_def)

lemma cbc_msg_serialize_cases:
  assumes "msg_wf msg"
  obtains m' where "cbc_msg_serialize msg m = Inr (Some (wire_bytes msg), length (wire_bytes msg), m')"
      "live m' = live m + 1" "alloc_ok m' = alloc_ok m"
  | n m' where "cbc_msg_serialize msg m = Inr (None, n, m')" "live m' = live m"
      "alloc_ok m' = alloc_ok m" "\<not> plenty m"
proof (cases "alloc_ok m (allocs m)")
  case True
  have "hdr_size = length (bytes_of_hdr (header msg))"
    using hdrc.enc_length [of "header msg"] assms by simp
  then have "cbc_msg_serialize msg m = Inr (Some (wire_bytes msg), length (wire_bytes msg), snd (calloc m))"
    using assms True
    by (cases "kind (header msg)")
      (auto simp: cbc_msg_serialize_def serialize_full_def serialize_header_only_def Let_def calloc_def
        msg_wf_def payload_wf_def wire_bytes_def)
  with that(1) True show thesis by (simp add: calloc_def)
next
  case False
  then obtain n where "cbc_msg_serialize msg m = Inr (None, n, snd (calloc m))"
    using assms
    by (cases "kind (header msg)")
      (auto simp: cbc_msg_serialize_def serialize_full_def serialize_header_only_def Let_def calloc_def
        msg_wf_def payload_wf_def)
  with that(2) False show thesis by (auto simp: calloc_def plenty_def)
qed

lemma cbc_msg_serialize_plenty:
  assumes "msg_wf msg" and "plenty m"
  shows "\<exists>m'. cbc_msg_serialize msg m = Inr (Some (wire_bytes msg), length (wire_bytes msg), m')"
  by (rule cbc_msg_serialize_cases [OF assms(1), of m]) (use assms(2) in auto)

text \<open>What the receive thread passes on: the header and \<open>len\<close> bytes, without the final 0.\<close>

definition received_bytes :: "u8 list \<Rightarrow> u8 list" where
  "received_bytes bs = take (hdr_size + unat (len (hdr_of_bytes bs))) bs"

text \<open>The message \<open>cbc_msg_deserialize\<close> builds when every allocation succeeds.\<close>

definition parsed_msg :: "u8 list \<Rightarrow> cbcast_msg" where
  "parsed_msg bs =
     \<lparr>header = hdr_of_bytes bs,
      payload = (if header_only (kind (hdr_of_bytes bs)) then None
        else Some (take (unat (len (hdr_of_bytes bs))) (drop hdr_size bs) @ [0]))\<rparr>"

definition parseable :: "u8 list \<Rightarrow> bool" where
  "parseable bs \<longleftrightarrow> hdr_size + unat (len (hdr_of_bytes bs)) \<le> length bs"

lemma cbc_msg_deserialize_cases:
  assumes "parseable bs"
  obtains m' where "cbc_msg_deserialize bs m = Inr (result_new_ok (parsed_msg bs), m')"
      "live m' = live m + cbc_msg_blocks (parsed_msg bs)" "alloc_ok m' = alloc_ok m"
      "header_only (kind (hdr_of_bytes bs)) \<or> len (hdr_of_bytes bs) \<noteq> 0"
  | e m' where "cbc_msg_deserialize bs m = Inr (result_new_err e, m')" "live m' = live m"
      "alloc_ok m' = alloc_ok m"
      "plenty m \<Longrightarrow> \<not> header_only (kind (hdr_of_bytes bs)) \<and> len (hdr_of_bytes bs) = 0"
proof (cases "cbc_msg_deserialize bs m")
  case (Inl e)
  with assms have False
    by (auto simp: cbc_msg_deserialize_def parseable_def Let_def split: if_splits prod.splits)
  then show thesis ..
next
  case (Inr p)
  then show thesis
    using that assms
    by (cases p)
      (auto simp: cbc_msg_deserialize_def parseable_def Let_def calloc_def parsed_msg_def
        cbc_msg_blocks_def header_only_def plenty_def split: if_splits)
qed

lemma parsed_wire_bytes:
  assumes "msg_wf msg"
  shows "parsed_msg (received_bytes (wire_bytes msg)) = msg"
    and "parseable (received_bytes (wire_bytes msg))"
proof -
  let ?h = "bytes_of_hdr (header msg)" and ?n = "unat (len (header msg))"
  have l: "length ?h = hdr_size" using hdrc.enc_length [of "header msg"] assms by simp
  have r: "received_bytes (wire_bytes msg) = ?h @ take ?n (case payload msg of None \<Rightarrow> [] | Some buf \<Rightarrow> buf)"
    using hdr_of_wire_bytes [OF assms] l by (simp add: received_bytes_def) (simp add: wire_bytes_def)
  then have h: "hdr_of_bytes (received_bytes (wire_bytes msg)) = header msg"
    using hdrc.dec_enc [of "header msg"] assms by simp
  show "parsed_msg (received_bytes (wire_bytes msg)) = msg"
    unfolding parsed_msg_def h using r l assms
    by (auto simp: msg_wf_def payload_wf_def split: if_splits)
  show "parseable (received_bytes (wire_bytes msg))"
    unfolding parseable_def h using r l assms
    by (auto simp: msg_wf_def payload_wf_def split: if_splits)
qed

lemma parsed_wire:
  assumes "msg_wf msg"
  shows "parsed_msg (wire_bytes msg) = msg"
proof -
  have "length (bytes_of_hdr (header msg)) = hdr_size" using hdrc.enc_length [of "header msg"] assms by simp
  then show ?thesis
    unfolding parsed_msg_def hdr_of_wire_bytes [OF assms] using assms
    by (auto simp: wire_bytes_def msg_wf_def payload_wf_def split: if_splits)
qed

section \<open>Properties\<close>

lemma cbc_msg_create_safe: "payload_readable pl n \<Longrightarrow> header_only k \<or> k \<in> {CBC_DATA, CBC_RETRANSMIT} \<Longrightarrow>
    \<exists>r m'. cbc_msg_create k pl n m = Inr (r, m')"
  using create_msg_with_payload_safe [of pl n k m] by (cases k) (auto simp: cbc_msg_create_def header_only_def)

text \<open>
  C7: Wire round trip: with enough memory, every well-formed message serializes, and parsing the bytes that the
  receive thread takes off the datagram (the header and len bytes of payload, without the
  trailing 0) gives the same message back, terminating 0 included.
\<close>

theorem message_roundtrip:
  assumes "msg_wf msg" and "plenty m"
  shows "\<exists>bs n m1 m2. cbc_msg_serialize msg m = Inr (Some bs, n, m1) \<and> n = length bs
     \<and> cbc_msg_deserialize (received_bytes bs) m1 = Inr (result_new_ok msg, m2)"
proof -
  obtain m1 where s: "cbc_msg_serialize msg m = Inr (Some (wire_bytes msg), length (wire_bytes msg), m1)"
    and a: "alloc_ok m1 = alloc_ok m"
    by (rule cbc_msg_serialize_cases [OF assms(1), of m]) (use assms(2) in auto)
  have p1: "plenty m1" using a assms(2) plenty_cong by blast
  note p = parsed_wire_bytes [OF assms(1)]
  have "\<exists>m2. cbc_msg_deserialize (received_bytes (wire_bytes msg)) m1 = Inr (result_new_ok msg, m2)"
  proof (cases rule: cbc_msg_deserialize_cases [OF p(2), of m1])
    case (1 m')
    with p(1) show ?thesis by simp
  next
    case (2 e m')
    have "hdr_of_bytes (received_bytes (wire_bytes msg)) = header msg"
      using p(1) by (metis cbcast_msg.select_convs(1) parsed_msg_def)
    with 2(4) [OF p1] assms(1) show ?thesis by (auto simp: msg_wf_def payload_wf_def split: if_splits)
  qed
  with s show ?thesis by blast
qed

theorem message_roundtrip_witness:
  "\<exists>bs n m1 m2. cbc_msg_serialize (created_msg CBC_DATA (Some [104, 105]) 2) fresh_memory = Inr (Some bs, n, m1)
     \<and> n = length bs
     \<and> cbc_msg_deserialize (received_bytes bs) m1 = Inr (result_new_ok (created_msg CBC_DATA (Some [104, 105]) 2), m2)"
  by (rule message_roundtrip) (simp_all add: created_msg_wf)

text \<open>
  cbc_msg_create, for every kind of the protocol, every payload that holds the announced
  bytes and every pattern of allocation failures: no undefined behaviour, and either an error
  after which nothing stays allocated, or a well-formed message that owns exactly the blocks
  cbc_msg_free releases.
\<close>

theorem cbc_msg_create_leak_free:
  assumes "payload_readable pl n" and "header_only k \<or> k \<in> {CBC_DATA, CBC_RETRANSMIT}"
  shows "\<exists>r m'. cbc_msg_create k pl n m = Inr (r, m') \<and>
     (case r of Inl e \<Rightarrow> live m' = live m
      | Inr msg \<Rightarrow> msg = created_msg k pl n \<and> msg_wf msg \<and> live (cbc_msg_free (Some msg) m') = live m)"
proof -
  obtain r m' where c: "cbc_msg_create k pl n m = Inr (r, m')" using cbc_msg_create_safe [OF assms] by blast
  show ?thesis
  proof (cases r rule: result_cases)
    case (Ok msg)
    with c cbc_msg_create_Inr [OF c] cbc_msg_create_wf show ?thesis
      by (auto simp: result_new_ok_def result_new_err_def cbc_msg_free_def)
  next
    case (Err e)
    with c cbc_msg_create_Inr [OF c] show ?thesis by (auto simp: result_new_ok_def result_new_err_def)
  qed
qed

theorem cbc_msg_create_leak_free_witness:
  "\<exists>r m'. cbc_msg_create CBC_DATA (Some [104, 105]) 2 fresh_memory = Inr (r, m') \<and>
     (case r of Inl e \<Rightarrow> live m' = live fresh_memory
      | Inr msg \<Rightarrow> msg = created_msg CBC_DATA (Some [104, 105]) 2 \<and> msg_wf msg
          \<and> live (cbc_msg_free (Some msg) m') = live fresh_memory)"
  by (rule cbc_msg_create_leak_free) (simp_all add: payload_readable_def)

text \<open>
  cbc_msg_deserialize, on every byte string that holds the payload its header announces
  and for every pattern of allocation failures: no read past the buffer, and either an error
  after which nothing stays allocated, or the parsed message, which owns exactly the blocks
  cbc_msg_free releases. With enough memory the only error is a data kind with length 0.
\<close>

theorem cbc_msg_deserialize_leak_free:
  assumes "parseable bs"
  shows "\<exists>r m'. cbc_msg_deserialize bs m = Inr (r, m') \<and>
     (case r of Inl e \<Rightarrow> live m' = live m
         \<and> (\<not> plenty m \<or> \<not> header_only (kind (hdr_of_bytes bs)) \<and> len (hdr_of_bytes bs) = 0)
      | Inr msg \<Rightarrow> msg = parsed_msg bs \<and> live (cbc_msg_free (Some msg) m') = live m)"
  by (rule cbc_msg_deserialize_cases [OF assms, of m])
    (auto simp: result_new_ok_def result_new_err_def cbc_msg_free_def)

theorem cbc_msg_deserialize_leak_free_witness:
  "\<exists>r m'. cbc_msg_deserialize (bytes_of_hdr \<lparr>kind = CBC_ACK, clock = 7, len = 0\<rparr>) fresh_memory = Inr (r, m') \<and>
     (case r of Inl e \<Rightarrow> live m' = live fresh_memory \<and> (\<not> plenty fresh_memory
           \<or> \<not> header_only (kind (hdr_of_bytes (bytes_of_hdr \<lparr>kind = CBC_ACK, clock = 7, len = 0\<rparr>)))
             \<and> len (hdr_of_bytes (bytes_of_hdr \<lparr>kind = CBC_ACK, clock = 7, len = 0\<rparr>)) = 0)
      | Inr msg \<Rightarrow> msg = parsed_msg (bytes_of_hdr \<lparr>kind = CBC_ACK, clock = 7, len = 0\<rparr>)
          \<and> live (cbc_msg_free (Some msg) m') = live fresh_memory)"
  by (rule cbc_msg_deserialize_leak_free)
    (simp add: parseable_def hdrc.dec_enc_exact hdrc.enc_length kind_ok_def)

end
