(* ===== verification/Node.thy ===== *)
theory Node
  imports StbDs VectorClock Message
begin

text \<open>
  The broadcast context \<open>struct CBcast\<close> of \<open>include/cbcast.h\<close>, and the world one process
  of the program runs in.

  \<^item> \<open>cbcast\<close> has the fields of the C structure; the mutexes, the condition variable and
    the thread handles are not data.
  \<^item> \<open>node\<close> extends it with what the code reads and writes outside the structure: the
    allocator, the heap of \<open>cbcast_sent_msg_t\<close> objects (they are shared by pointer between
    \<open>sent_msg_buffer\<close> and the local arrays of \<open>handle_old_messages\<close>, so they live at
    addresses), the values \<open>rand\<close> returns, the datagrams waiting at the socket and those
    passed to \<open>sendto\<close>, the sequence of mutex operations, and the history of the messages
    \<open>cbc_receive\<close> has handed to the application.
\<close>

section \<open>The context\<close>

datatype peer_state = CBC_PEER_ALIVE | CBC_PEER_DEAD

datatype cbcast_state = CBC_STATE_NORMAL | CBC_DISCONNECTED

record cbcast_peer =
  peer_pid :: u64
  peer_pos :: u64
  peer_addr :: sockaddr_in
  peer_status :: peer_state

record cbcast_stats =
  recv_msg_count :: u64
  delivered_msg_count :: u64
  sent_msg_count :: u64
  dropped_msg_count :: u64
  sent_ack_count :: u64
  dropped_ack_count :: u64
  sent_retransmit_req_count :: u64
  dropped_retransmit_req_count :: u64
  sent_retransmit_count :: u64
  dropped_retransmit_count :: u64
  delivery_queue_size :: u64
  sent_msg_buffer_size :: u64
  held_msg_buffer_size :: u64
  vector_clock_snapshot :: "u64 list option"
  num_peers :: u64

type_synonym ptr = nat
type_synonym datagram = "sockaddr_in \<times> u8 list"

record cbcast =
  socket_fd :: int
  pid :: u64
  state :: cbcast_state
  vclock :: vector_clock
  peers :: "cbcast_peer list"
  send_queue :: "cbcast_outgoing_msg list"
  sent_msg_buffer :: "ptr list"
  held_msg_buffer :: "cbcast_received_msg list"
  delivery_queue :: "cbcast_received_msg list"
  stats :: cbcast_stats

section \<open>The world of a process\<close>

datatype lock = SEND_LOCK | RECV_LOCK | PEER_LOCK | VCLOCK_MTX | STATS_LOCK

datatype lock_event = Lock lock | Unlock lock

record node = cbcast +
  mem :: memory
  sent_heap :: "ptr \<rightharpoonup> cbcast_sent_msg"
  next_ptr :: ptr
  rands :: "nat \<Rightarrow> nat"
  rand_pos :: nat
  socket_rx :: "datagram list"
  socket_tx :: "datagram list"
  lock_trace :: "lock_event list"
  delivered :: "cbcast_received_msg list"

definition mutex_lock :: "lock \<Rightarrow> node \<Rightarrow> node" where
  "mutex_lock l s = s\<lparr>lock_trace := lock_trace s @ [Lock l]\<rparr>"

definition mutex_unlock :: "lock \<Rightarrow> node \<Rightarrow> node" where
  "mutex_unlock l s = s\<lparr>lock_trace := lock_trace s @ [Unlock l]\<rparr>"

text \<open>A short critical section.\<close>

definition with_lock :: "lock \<Rightarrow> (node \<Rightarrow> node) \<Rightarrow> node \<Rightarrow> node" where
  "with_lock l f s = mutex_unlock l (f (mutex_lock l s))"

text \<open>\<open>rand()\<close>\<close>

definition c_rand :: "node \<Rightarrow> nat \<times> node" where
  "c_rand s = (rands s (rand_pos s), s\<lparr>rand_pos := Suc (rand_pos s)\<rparr>)"

text \<open>
  \<open>sendto\<close> with a buffer (or NULL), a size and a destination (or NULL). A NULL buffer of
  size 0 is an empty datagram; a NULL buffer of another size and a missing destination are
  errors the code does not look at.
\<close>

definition c_sendto :: "u8 list option \<Rightarrow> nat \<Rightarrow> sockaddr_in option \<Rightarrow> node \<Rightarrow> node" where
  "c_sendto buf n addr s =
     (case addr of
        None \<Rightarrow> s
      | Some a \<Rightarrow>
          (case buf of
             None \<Rightarrow> if n = 0 then s\<lparr>socket_tx := socket_tx s @ [(a, [])]\<rparr> else s
           | Some bs \<Rightarrow> s\<lparr>socket_tx := socket_tx s @ [(a, take n bs)]\<rparr>))"

definition read_sent :: "ptr \<Rightarrow> node \<Rightarrow> cbcast_sent_msg res" where
  "read_sent p s = (case sent_heap s p of None \<Rightarrow> Inl (Undefined_behaviour ''use after free'')
     | Some m \<Rightarrow> Inr m)"

text \<open>
  \<open>1 << n\<close> on an \<open>int\<close>, converted to \<open>uint64_t\<close>: the shift has no meaning when the
  result does not fit an \<open>int\<close>.
\<close>

definition shl1 :: "nat \<Rightarrow> u64 res" where
  "shl1 n = (if n < 31 then Inr (push_bit n 1) else Inl (Undefined_behaviour ''1 << n''))"

definition UINT16_MAX :: u16 where
  "UINT16_MAX = 0xFFFF"

lemma shl1_Inr [simp]: "shl1 n = Inr b \<longleftrightarrow> n < 31 \<and> b = push_bit n 1"
  by (auto simp: shl1_def)

lemma read_sent_Inr [simp]: "read_sent p s = Inr m \<longleftrightarrow> sent_heap s p = Some m"
  by (auto simp: read_sent_def split: option.splits)

text \<open>
  The search loops over arrays of sent messages: the index, counted from \<open>i\<close>, of the first
  message with a property. Every message up to it is dereferenced.
\<close>

fun find_sent :: "(cbcast_sent_msg \<Rightarrow> bool) \<Rightarrow> nat \<Rightarrow> ptr list \<Rightarrow> node \<Rightarrow> (nat option) res" where
  "find_sent P i [] s = Inr None"
| "find_sent P i (p # ps) s =
     andthen (read_sent p s) (\<lambda>m. if P m then Inr (Some i) else find_sent P (Suc i) ps s)"

lemma find_sent_lt: "find_sent P i ps s = Inr (Some j) \<Longrightarrow> i \<le> j \<and> j < i + length ps"
  by (induction P i ps s rule: find_sent.induct) (fastforce split: if_splits)+

definition sent_at :: "node \<Rightarrow> ptr \<Rightarrow> cbcast_sent_msg" where
  "sent_at s p = the (sent_heap s p)"

text \<open>On an array of live messages the loop is \<open>first_index\<close>.\<close>

lemma find_sent_total:
  "\<forall>p \<in> set ps. sent_heap s p \<noteq> None \<Longrightarrow>
     find_sent P i ps s = Inr (map_option (\<lambda>k. i + k) (first_index (P \<circ> sent_at s) ps))"
proof (induction ps arbitrary: i)
  case (Cons p ps)
  then obtain m where "sent_heap s p = Some m" by auto
  moreover have "((+) (Suc i)) = (\<lambda>k. Suc (i + k))" by (simp add: fun_eq_iff)
  ultimately show ?case
    using Cons
    by (auto simp: sent_at_def read_sent_def option.map_comp comp_def)
qed simp

section \<open>Frames\<close>

lemmas node_step_defs = mutex_lock_def mutex_unlock_def with_lock_def c_rand_def c_sendto_def

text \<open>
  The parts of a node that the receive path and the send path own. An operation that keeps
  a view keeps every invariant about it.
\<close>

definition delivery_view :: "node \<Rightarrow> u64 \<times> vector_clock \<times> cbcast_received_msg list
    \<times> cbcast_received_msg list \<times> cbcast_received_msg list" where
  "delivery_view s = (pid s, vclock s, held_msg_buffer s, delivery_queue s, delivered s)"

definition sent_view :: "node \<Rightarrow> ptr list \<times> (ptr \<rightharpoonup> cbcast_sent_msg) \<times> ptr" where
  "sent_view s = (sent_msg_buffer s, sent_heap s, next_ptr s)"

lemma lock_frames [simp, frame_simps]:
  "delivery_view (mutex_lock l s) = delivery_view s" "sent_view (mutex_lock l s) = sent_view s"
  "delivery_view (mutex_unlock l s) = delivery_view s" "sent_view (mutex_unlock l s) = sent_view s"
  "peers (mutex_lock l s) = peers s" "peers (mutex_unlock l s) = peers s"
  "send_queue (mutex_lock l s) = send_queue s" "send_queue (mutex_unlock l s) = send_queue s"
  "mem (mutex_lock l s) = mem s" "mem (mutex_unlock l s) = mem s"
  "vclock (mutex_lock l s) = vclock s" "vclock (mutex_unlock l s) = vclock s"
  "pid (mutex_lock l s) = pid s" "pid (mutex_unlock l s) = pid s"
  "sent_heap (mutex_lock l s) = sent_heap s" "sent_heap (mutex_unlock l s) = sent_heap s"
  "sent_msg_buffer (mutex_lock l s) = sent_msg_buffer s"
  "sent_msg_buffer (mutex_unlock l s) = sent_msg_buffer s"
  "held_msg_buffer (mutex_lock l s) = held_msg_buffer s"
  "held_msg_buffer (mutex_unlock l s) = held_msg_buffer s"
  "delivery_queue (mutex_lock l s) = delivery_queue s"
  "delivery_queue (mutex_unlock l s) = delivery_queue s"
  "delivered (mutex_lock l s) = delivered s" "delivered (mutex_unlock l s) = delivered s"
  "stats (mutex_lock l s) = stats s" "stats (mutex_unlock l s) = stats s"
  "socket_tx (mutex_lock l s) = socket_tx s" "socket_tx (mutex_unlock l s) = socket_tx s"
  "socket_rx (mutex_lock l s) = socket_rx s" "socket_rx (mutex_unlock l s) = socket_rx s"
  "state (mutex_lock l s) = state s" "state (mutex_unlock l s) = state s"
  "next_ptr (mutex_lock l s) = next_ptr s" "next_ptr (mutex_unlock l s) = next_ptr s"
  "rands (mutex_lock l s) = rands s" "rands (mutex_unlock l s) = rands s"
  "rand_pos (mutex_lock l s) = rand_pos s" "rand_pos (mutex_unlock l s) = rand_pos s"
  by (simp_all add: mutex_lock_def mutex_unlock_def delivery_view_def sent_view_def)

lemma view_updates [simp, frame_simps]:
  "delivery_view (s\<lparr>mem := m\<rparr>) = delivery_view s" "sent_view (s\<lparr>mem := m\<rparr>) = sent_view s"
  "delivery_view (s\<lparr>send_queue := q\<rparr>) = delivery_view s"
  "sent_view (s\<lparr>send_queue := q\<rparr>) = sent_view s"
  "delivery_view (s\<lparr>peers := ps\<rparr>) = delivery_view s" "sent_view (s\<lparr>peers := ps\<rparr>) = sent_view s"
  "delivery_view (s\<lparr>stats := st\<rparr>) = delivery_view s" "sent_view (s\<lparr>stats := st\<rparr>) = sent_view s"
  "delivery_view (s\<lparr>state := c\<rparr>) = delivery_view s" "sent_view (s\<lparr>state := c\<rparr>) = sent_view s"
  "delivery_view (s\<lparr>rand_pos := n\<rparr>) = delivery_view s" "sent_view (s\<lparr>rand_pos := n\<rparr>) = sent_view s"
  "delivery_view (s\<lparr>socket_tx := t\<rparr>) = delivery_view s" "sent_view (s\<lparr>socket_tx := t\<rparr>) = sent_view s"
  "delivery_view (s\<lparr>socket_rx := t\<rparr>) = delivery_view s" "sent_view (s\<lparr>socket_rx := t\<rparr>) = sent_view s"
  "delivery_view (s\<lparr>sent_heap := h\<rparr>) = delivery_view s"
  "delivery_view (s\<lparr>sent_msg_buffer := b\<rparr>) = delivery_view s"
  "delivery_view (s\<lparr>next_ptr := p\<rparr>) = delivery_view s"
  by (simp_all add: delivery_view_def sent_view_def)

lemma c_sendto_frames [simp, frame_simps]:
  "delivery_view (c_sendto b n a s) = delivery_view s" "sent_view (c_sendto b n a s) = sent_view s"
  "peers (c_sendto b n a s) = peers s" "stats (c_sendto b n a s) = stats s"
  "send_queue (c_sendto b n a s) = send_queue s" "mem (c_sendto b n a s) = mem s"
  by (simp_all add: c_sendto_def split: option.splits)

section \<open>A context that has just been initialised\<close>

definition zero_stats :: cbcast_stats where
  "zero_stats = \<lparr>recv_msg_count = 0, delivered_msg_count = 0, sent_msg_count = 0, dropped_msg_count = 0,
     sent_ack_count = 0, dropped_ack_count = 0, sent_retransmit_req_count = 0,
     dropped_retransmit_req_count = 0, sent_retransmit_count = 0, dropped_retransmit_count = 0,
     delivery_queue_size = 0, sent_msg_buffer_size = 0, held_msg_buffer_size = 0,
     vector_clock_snapshot = None, num_peers = 0\<rparr>"

text \<open>
  Process \<open>p\<close> of \<open>n\<close> with its peers added, nothing sent or received, in an arbitrary
  world: \<open>m\<close> is the state of the allocator, any of whose later allocations may fail, and
  \<open>rs\<close> holds the values \<open>rand\<close> will return, which decide what the network simulation drops.
  \<open>initial_node\<close> is the same process in a world in which every allocation succeeds and the
  simulation drops nothing; the examples use it.
\<close>

definition new_node :: "memory \<Rightarrow> (nat \<Rightarrow> nat) \<Rightarrow> u64 \<Rightarrow> nat \<Rightarrow> cbcast_peer list \<Rightarrow> node" where
  "new_node m rs p n ps = \<lparr>socket_fd = 3, pid = p, state = CBC_STATE_NORMAL,
     vclock = \<lparr>vc_clock = replicate n 0, vc_len = of_nat n\<rparr>, peers = ps, send_queue = [],
     sent_msg_buffer = [], held_msg_buffer = [], delivery_queue = [], stats = zero_stats,
     mem = m, sent_heap = (\<lambda>_. None), next_ptr = 0, rands = rs, rand_pos = 0,
     socket_rx = [], socket_tx = [], lock_trace = [], delivered = []\<rparr>"

abbreviation initial_node :: "u64 \<Rightarrow> nat \<Rightarrow> cbcast_peer list \<Rightarrow> node" where
  "initial_node \<equiv> new_node fresh_memory (\<lambda>_. 50)"

lemma new_node_simps [simp]:
  "pid (new_node m rs p n ps) = p" "peers (new_node m rs p n ps) = ps"
  "vclock (new_node m rs p n ps) = \<lparr>vc_clock = replicate n 0, vc_len = of_nat n\<rparr>"
  "send_queue (new_node m rs p n ps) = []" "sent_msg_buffer (new_node m rs p n ps) = []"
  "held_msg_buffer (new_node m rs p n ps) = []" "delivery_queue (new_node m rs p n ps) = []"
  "delivered (new_node m rs p n ps) = []" "sent_heap (new_node m rs p n ps) = (\<lambda>_. None)"
  "mem (new_node m rs p n ps) = m" "socket_rx (new_node m rs p n ps) = []"
  "socket_tx (new_node m rs p n ps) = []" "state (new_node m rs p n ps) = CBC_STATE_NORMAL"
  "stats (new_node m rs p n ps) = zero_stats" "lock_trace (new_node m rs p n ps) = []"
  "rands (new_node m rs p n ps) = rs"
  by (simp_all add: new_node_def)

end
