(* ===== verification/Peer.thy ===== *)
theory Peer
  imports Node
begin

text \<open>
  \<open>src/cbcast/peer.c\<close>: the list of peers, each with a process id, a socket address and a
  status. \<open>inet_addr\<close> (libc) is a parameter. The two searches have different rules: by
  address the last match wins and its id is cut to 16 bits, by id the first match wins.

  The locale \<open>peer_table\<close> is what the message handlers rely on: the address found for the
  id found for an address is that address. It is interpreted on the two searches for the
  tables that \<open>cbc_add_peer\<close> builds from distinct ids and distinct addresses.
\<close>

definition AF_INET :: u16 where
  "AF_INET = 2"

definition INADDR_NONE :: u32 where
  "INADDR_NONE = 0xFFFFFFFF"

definition htons :: "u16 \<Rightarrow> u16" where
  "htons w = push_bit 8 w OR drop_bit 8 w"

section \<open>Operations\<close>

text \<open>The parameter \<open>pid\<close> is a 32-bit \<open>uint\<close>.\<close>

definition create_peer ::
  "(string \<Rightarrow> u32) \<Rightarrow> u32 \<Rightarrow> string \<Rightarrow> u16 \<Rightarrow> memory \<Rightarrow> cbcast_peer Result \<times> memory" where
  "create_peer inet_addr p ipv4 port m =
     (let (peer, m) = calloc m in
      if \<not> peer then (result_new_err ''[cbc_add_peer] failed to allocate peer'', m)
      else
        let (addr, m) = calloc m in
        if \<not> addr
        then (result_new_err ''[cbc_add_peer] failed to allocate peer addr'', c_free 1 m)
        else
          let a = \<lparr>sin_family = AF_INET, sin_port = htons port, s_addr = inet_addr ipv4,
                   sin_zero = 0\<rparr>
          in if s_addr a = INADDR_NONE
             then (result_new_err ''[cbc_add_peer] invalid ipv4 address'', c_free 2 m)
             else (result_new_ok \<lparr>peer_pid = ucast p, peer_pos = 0, peer_addr = a,
                                 peer_status = CBC_PEER_ALIVE\<rparr>, m))"

definition cbc_add_peer ::
  "(string \<Rightarrow> u32) \<Rightarrow> u64 \<Rightarrow> string option \<Rightarrow> u16 \<Rightarrow> node \<Rightarrow> (unit Result \<times> node) res" where
  "cbc_add_peer inet_addr p ipv4 port s =
     (case ipv4 of
        None \<Rightarrow> Inr (result_new_err ''[cbc_add_peer] invalid arguments'', s)
      | Some ipv4 \<Rightarrow>
          if port = 0 then Inr (result_new_err ''[cbc_add_peer] invalid arguments'', s)
          else
            let (peer_res, m) = create_peer inet_addr (ucast p) ipv4 port (mem s);
                s = s\<lparr>mem := m\<rparr>
            in (case peer_res of
                  Inl e \<Rightarrow> Inr (result_new_err e, s)
                | Inr _ \<Rightarrow>
                    andthen (result_expect peer_res ''unreachable'') (\<lambda>peer.
                    let s = with_lock PEER_LOCK (\<lambda>s. s\<lparr>peers := arrput (peers s) peer\<rparr>) s
                    in Inr (result_new_ok (), s))))"

definition cbc_remove_peer :: "u64 \<Rightarrow> node \<Rightarrow> node" where
  "cbc_remove_peer p s =
     with_lock PEER_LOCK (\<lambda>s.
       case first_index (\<lambda>q. peer_pid q = p) (peers s) of
         None \<Rightarrow> s
       | Some i \<Rightarrow> s\<lparr>mem := c_free 2 (mem s), peers := arrdel (peers s) i\<rparr>) s"

definition cbc_peer_find_by_addr :: "sockaddr_in \<Rightarrow> node \<Rightarrow> u16 \<times> node" where
  "cbc_peer_find_by_addr addr s =
     (let s = mutex_lock PEER_LOCK s;
          p = foldl (\<lambda>p q. if peer_addr q = addr then ucast (peer_pid q) else p) UINT16_MAX (peers s)
      in (p, mutex_unlock PEER_LOCK s))"

text \<open>
  The buffer for the copy is allocated first and its allocation is not checked, so a match
  after a failed allocation copies to NULL.
\<close>

definition cbc_peer_get_addr_copy :: "u64 \<Rightarrow> node \<Rightarrow> (sockaddr_in option \<times> node) res" where
  "cbc_peer_get_addr_copy p s =
     (let (ok, m) = calloc (mem s);
          s = mutex_lock PEER_LOCK (s\<lparr>mem := m\<rparr>)
      in case first_index (\<lambda>q. peer_pid q = p) (peers s) of
           Some i \<Rightarrow>
             if \<not> ok then Inl (Undefined_behaviour ''memcpy to NULL'')
             else Inr (Some (peer_addr (peers s ! i)), mutex_unlock PEER_LOCK s)
         | None \<Rightarrow>
             let s = mutex_unlock PEER_LOCK s
             in Inr (None, s\<lparr>mem := (if ok then c_free 1 (mem s) else mem s)\<rparr>))"

section \<open>The two searches\<close>

definition pid_of_addr :: "sockaddr_in \<Rightarrow> cbcast_peer list \<Rightarrow> u16" where
  "pid_of_addr addr ps =
     foldl (\<lambda>p q. if peer_addr q = addr then ucast (peer_pid q) else p) UINT16_MAX ps"

definition addr_of_pid :: "u64 \<Rightarrow> cbcast_peer list \<Rightarrow> sockaddr_in option" where
  "addr_of_pid p ps = map_option (\<lambda>i. peer_addr (ps ! i)) (first_index (\<lambda>q. peer_pid q = p) ps)"

lemma addr_of_pid_Cons [simp]:
  "addr_of_pid p [] = None"
  "addr_of_pid p (q # ps) = (if peer_pid q = p then Some (peer_addr q) else addr_of_pid p ps)"
  by (auto simp: addr_of_pid_def option.map_comp comp_def)

lemma pid_of_addr_snoc [simp]:
  "pid_of_addr a [] = UINT16_MAX"
  "pid_of_addr a (ps @ [q]) = (if peer_addr q = a then ucast (peer_pid q) else pid_of_addr a ps)"
  by (simp_all add: pid_of_addr_def)

lemma cbc_peer_find_by_addr_eq:
  "cbc_peer_find_by_addr a s =
     (pid_of_addr a (peers s), mutex_unlock PEER_LOCK (mutex_lock PEER_LOCK s))"
  by (simp add: cbc_peer_find_by_addr_def pid_of_addr_def Let_def mutex_lock_def)

lemma cbc_peer_get_addr_copy_Inr:
  assumes "cbc_peer_get_addr_copy p s = Inr (a, s')"
  shows "a = addr_of_pid p (peers s)"
    "s' = (mutex_unlock PEER_LOCK (mutex_lock PEER_LOCK s))\<lparr>mem := mem s'\<rparr>"
    "alloc_ok (mem s') = alloc_ok (mem s)"
    "live (mem s') = live (mem s) + (if a = None then 0 else 1)"
  using assms
  by (auto simp: cbc_peer_get_addr_copy_def addr_of_pid_def calloc_def Let_def mutex_lock_def
      mutex_unlock_def split: option.splits if_splits)

lemma cbc_peer_get_addr_copy_safe:
  "plenty (mem s) \<or> addr_of_pid p (peers s) = None \<Longrightarrow> \<exists>r. cbc_peer_get_addr_copy p s = Inr r"
  by (auto simp: cbc_peer_get_addr_copy_def addr_of_pid_def calloc_def Let_def split: option.splits)

text \<open>
  Tables with distinct ids, distinct addresses and ids that fit below \<open>UINT16_MAX\<close>, the
  value that stands for an unknown address.
\<close>

definition peers_wf :: "cbcast_peer list \<Rightarrow> bool" where
  "peers_wf ps \<longleftrightarrow> distinct (map peer_pid ps) \<and> distinct (map peer_addr ps)
     \<and> (\<forall>q \<in> set ps. unat (peer_pid q) < 65535)"

lemma addr_of_pid_member:
  "distinct (map peer_pid ps) \<Longrightarrow> q \<in> set ps \<Longrightarrow> addr_of_pid (peer_pid q) ps = Some (peer_addr q)"
  by (induction ps) auto

lemma addr_of_pid_Some: "addr_of_pid p ps = Some a \<Longrightarrow> \<exists>q \<in> set ps. peer_pid q = p \<and> peer_addr q = a"
  by (induction ps) (auto split: if_splits)

lemma pid_of_addr_notin: "a \<notin> peer_addr ` set ps \<Longrightarrow> pid_of_addr a ps = UINT16_MAX"
  by (induction ps rule: rev_induct) auto

lemma pid_of_addr_member:
  "distinct (map peer_addr ps) \<Longrightarrow> q \<in> set ps \<Longrightarrow> pid_of_addr (peer_addr q) ps = ucast (peer_pid q)"
proof (induction ps rule: rev_induct)
  case Nil
  then show ?case by simp
next
  case (snoc r ps)
  have "peer_addr r = peer_addr q \<Longrightarrow> r = q"
    using snoc.prems by (auto simp: image_iff)
  with snoc show ?case by auto
qed

lemma small_pid_ucast:
  fixes p :: u64
  assumes "unat p < 65535"
  shows "ucast (ucast p :: u16) = p" and "(ucast p :: u16) \<noteq> UINT16_MAX"
proof -
  show "ucast (ucast p :: u16) = p" using assms by (simp add: unat_ucast_small)
  have "unat (ucast p :: u16) \<noteq> 65535" using assms by (simp add: unat_ucast_small)
  then show "(ucast p :: u16) \<noteq> UINT16_MAX" by (auto simp: UINT16_MAX_def)
qed

section \<open>The interface the handlers rely on\<close>

locale peer_table =
  fixes pid_of :: "'a \<Rightarrow> 't \<Rightarrow> 'p"
    and addr_of :: "'p \<Rightarrow> 't \<Rightarrow> 'a option"
    and unknown :: 'p
    and add :: "'p \<Rightarrow> 'a \<Rightarrow> 't \<Rightarrow> 't"
    and remove :: "'p \<Rightarrow> 't \<Rightarrow> 't"
    and valid :: "'p \<Rightarrow> bool"
    and wf :: "'t \<Rightarrow> bool"
  assumes unknown_invalid: "\<not> valid unknown"
    and find_get: "wf t \<Longrightarrow> pid_of a t \<noteq> unknown \<Longrightarrow> addr_of (pid_of a t) t = Some a"
    and get_find: "wf t \<Longrightarrow> addr_of p t = Some a \<Longrightarrow> pid_of a t = p \<and> valid p"
    and add_wf: "wf t \<Longrightarrow> valid p \<Longrightarrow> addr_of p t = None \<Longrightarrow> pid_of a t = unknown \<Longrightarrow>
          wf (add p a t) \<and> addr_of p (add p a t) = Some a"
    and remove_wf: "wf t \<Longrightarrow> wf (remove p t) \<and> addr_of p (remove p t) = None"
begin

lemma find_valid: "wf t \<Longrightarrow> pid_of a t \<noteq> unknown \<Longrightarrow> valid (pid_of a t)"
  using find_get get_find by blast

lemma addresses_differ: "wf t \<Longrightarrow> addr_of p t = Some a \<Longrightarrow> addr_of q t = Some a \<Longrightarrow> p = q"
  using get_find by metis

lemma find_iff: "wf t \<Longrightarrow> p \<noteq> unknown \<Longrightarrow> pid_of a t = p \<longleftrightarrow> addr_of p t = Some a"
  using find_get get_find by blast

lemma add_find:
  "wf t \<Longrightarrow> valid p \<Longrightarrow> addr_of p t = None \<Longrightarrow> pid_of a t = unknown \<Longrightarrow> pid_of a (add p a t) = p"
  using add_wf get_find by blast

lemma removed_not_found: "wf t \<Longrightarrow> p \<noteq> unknown \<Longrightarrow> pid_of a (remove p t) \<noteq> p"
  using remove_wf find_iff by (metis option.distinct(1))

end

definition added_peer :: "u64 \<Rightarrow> sockaddr_in \<Rightarrow> cbcast_peer" where
  "added_peer p a = \<lparr>peer_pid = p, peer_pos = 0, peer_addr = a, peer_status = CBC_PEER_ALIVE\<rparr>"

definition removed_peer :: "u64 \<Rightarrow> cbcast_peer list \<Rightarrow> cbcast_peer list" where
  "removed_peer p ps = (case first_index (\<lambda>q. peer_pid q = p) ps of None \<Rightarrow> ps | Some i \<Rightarrow> arrdel ps i)"

lemma removed_peer_filter:
  "distinct (map peer_pid ps) \<Longrightarrow> removed_peer p ps = filter (\<lambda>q. peer_pid q \<noteq> p) ps"
proof (induction ps)
  case Nil
  then show ?case by (simp add: removed_peer_def)
next
  case (Cons q ps)
  have "filter (\<lambda>q. peer_pid q \<noteq> p) ps = ps" if "peer_pid q = p"
    using Cons.prems that by (auto simp: filter_id_conv image_iff)
  with Cons show ?case
    by (auto simp: removed_peer_def arrdel_def split: option.splits)
qed

interpretation ptab: peer_table "\<lambda>a ps. ucast (pid_of_addr a ps)" addr_of_pid "ucast UINT16_MAX"
  "\<lambda>p a ps. arrput ps (added_peer p a)" removed_peer "\<lambda>p. unat p < 65535" peers_wf
proof unfold_locales
  fix ps a
  assume wf: "peers_wf ps" and "ucast (pid_of_addr a ps) \<noteq> (ucast UINT16_MAX :: u64)"
  then have "a \<in> peer_addr ` set ps" using pid_of_addr_notin by metis
  then obtain q where q: "q \<in> set ps" "peer_addr q = a" by blast
  with wf show "addr_of_pid (ucast (pid_of_addr a ps)) ps = Some a"
    using addr_of_pid_member [of ps q] pid_of_addr_member [of ps q]
    by (auto simp: peers_wf_def small_pid_ucast)
next
  fix ps p a
  assume wf: "peers_wf ps" and "addr_of_pid p ps = Some a"
  then obtain q where "q \<in> set ps" "peer_pid q = p" "peer_addr q = a"
    using addr_of_pid_Some by blast
  with wf show "ucast (pid_of_addr a ps) = p \<and> unat p < 65535"
    using pid_of_addr_member [of ps q] by (auto simp: peers_wf_def small_pid_ucast)
next
  fix ps p a
  assume wf: "peers_wf ps" and p: "unat (p :: u64) < 65535" "addr_of_pid p ps = None"
    and a: "ucast (pid_of_addr a ps) = (ucast UINT16_MAX :: u64)"
  have "p \<notin> peer_pid ` set ps" using p(2) by (induction ps) (auto split: if_splits)
  moreover have "a \<notin> peer_addr ` set ps"
  proof
    assume "a \<in> peer_addr ` set ps"
    then obtain q where "q \<in> set ps" "a = peer_addr q" by auto
    with wf a have "ucast (ucast (peer_pid q) :: u16) = (ucast UINT16_MAX :: u64)" "unat (peer_pid q) < 65535"
      using pid_of_addr_member [of ps q] by (auto simp: peers_wf_def)
    then show False by (simp add: small_pid_ucast UINT16_MAX_def)
  qed
  ultimately have "peers_wf (arrput ps (added_peer p a))"
    using wf p by (auto simp: peers_wf_def arrput_def added_peer_def)
  then show "peers_wf (arrput ps (added_peer p a)) \<and> addr_of_pid p (arrput ps (added_peer p a)) = Some a"
    using addr_of_pid_member [of "arrput ps (added_peer p a)" "added_peer p a"]
    by (simp add: peers_wf_def added_peer_def)
next
  fix ps p
  assume wf: "peers_wf ps"
  then have f: "removed_peer p ps = filter (\<lambda>q. peer_pid q \<noteq> p) ps"
    by (simp add: peers_wf_def removed_peer_filter)
  have "addr_of_pid p (filter (\<lambda>q. peer_pid q \<noteq> p) ps) = None"
    by (induction ps) auto
  with wf f show "peers_wf (removed_peer p ps) \<and> addr_of_pid p (removed_peer p ps) = None"
    by (auto simp: peers_wf_def distinct_map_filter)
qed (simp add: UINT16_MAX_def)

section \<open>The peers of the program\<close>

text \<open>
  The addresses \<open>main.c\<close> gives its workers: port \<open>BASE_PORT + i\<close> of 127.0.0.1.
\<close>

definition BASE_PORT :: u16 where
  "BASE_PORT = 12345"

definition worker_addr :: "u64 \<Rightarrow> sockaddr_in" where
  "worker_addr i = \<lparr>sin_family = AF_INET, sin_port = htons (BASE_PORT + ucast i), s_addr = 0x0100007F,
     sin_zero = 0\<rparr>"

definition worker_peer :: "u64 \<Rightarrow> cbcast_peer" where
  "worker_peer i = added_peer i (worker_addr i)"

lemma worker_peer_simps [simp]:
  "peer_pid (worker_peer i) = i" "peer_addr (worker_peer i) = worker_addr i"
  "peer_status (worker_peer i) = CBC_PEER_ALIVE"
  by (simp_all add: worker_peer_def added_peer_def)

lemma htons_htons: "htons (htons w) = w"
  by (rule bit_word_eqI) (auto simp: htons_def bit_simps not_less dest: bit_imp_le_length)

section \<open>Properties\<close>

lemma cbc_add_peer_Ok:
  assumes "plenty (mem s)" "port \<noteq> 0" "inet_addr ip \<noteq> INADDR_NONE"
  defines "a \<equiv> \<lparr>sin_family = AF_INET, sin_port = htons port, s_addr = inet_addr ip, sin_zero = 0\<rparr>"
  shows "\<exists>s'. cbc_add_peer inet_addr p (Some ip) port s = Inr (result_new_ok (), s')
     \<and> peers s' = arrput (peers s) (added_peer (ucast (ucast p :: u32)) a) \<and> mem s' = (mem s)\<lparr>allocs := allocs (mem s) + 2, live := live (mem s) + 2\<rparr>"
  using assms
  by (simp add: cbc_add_peer_def create_peer_def calloc_def Let_def result_expect_def
      with_lock_def added_peer_def result_new_ok_def mutex_lock_def mutex_unlock_def)

text \<open>
  C23: The peer table: adding a peer with a new id below 65535 and a new address succeeds,
  with enough memory, a port other than 0 and an address that inet_addr accepts,
  keeps ids and addresses unique, and from then on the address of a datagram from that peer
  finds the id and the id finds the address.
\<close>

theorem add_peer_lookup:
  assumes "peers_wf (peers s)" "plenty (mem s)" "unat p < 65535" "port \<noteq> 0" "inet_addr ip \<noteq> INADDR_NONE"
    and "a = \<lparr>sin_family = AF_INET, sin_port = htons port, s_addr = inet_addr ip, sin_zero = 0\<rparr>"
    and "p \<notin> peer_pid ` set (peers s)" "a \<notin> peer_addr ` set (peers s)"
  shows "\<exists>s'. cbc_add_peer inet_addr p (Some ip) port s = Inr (result_new_ok (), s')
     \<and> peers_wf (peers s') \<and> fst (cbc_peer_find_by_addr a s') = ucast p
     \<and> (\<exists>s''. cbc_peer_get_addr_copy p s' = Inr (Some a, s''))"
proof -
  have p32: "(ucast (ucast p :: u32) :: u64) = p"
    using assms(3) by (simp add: word_unat_eq_iff unsigned_ucast_eq unsigned_take_bit_eq take_bit_nat_eq_self)
  obtain s' where s': "cbc_add_peer inet_addr p (Some ip) port s = Inr (result_new_ok (), s')"
    "peers s' = arrput (peers s) (added_peer p a)" "mem s' = (mem s)\<lparr>allocs := allocs (mem s) + 2, live := live (mem s) + 2\<rparr>"
    using cbc_add_peer_Ok [of s port inet_addr ip p] assms(2,4,5,6) p32 by auto
  have none: "addr_of_pid p (peers s) = None" "ucast (pid_of_addr a (peers s)) = (ucast UINT16_MAX :: u64)"
    using assms(7,8) addr_of_pid_Some [of p "peers s"] pid_of_addr_notin by (force, simp)
  have w: "peers_wf (peers s')" and g: "addr_of_pid p (peers s') = Some a"
    using ptab.add_wf [OF assms(1,3) none] s'(2) by simp_all
  have "ucast (pid_of_addr a (peers s')) = p"
    using ptab.add_find [OF assms(1,3) none] s'(2) by simp
  then have "pid_of_addr a (peers s') = ucast p"
    by (metis ucast_id unat_ucast_u16_u64 word_unat_eq_iff small_pid_ucast(1) [OF assms(3)])
  moreover obtain r where r: "cbc_peer_get_addr_copy p s' = Inr r"
    using cbc_peer_get_addr_copy_safe [of s' p] s'(3) assms(2) by (auto simp: plenty_def)
  moreover have "fst r = Some a" using cbc_peer_get_addr_copy_Inr(1) [of p s' "fst r" "snd r"] r g by simp
  ultimately show ?thesis using s'(1) w by (cases r) (auto simp: cbc_peer_find_by_addr_eq)
qed

theorem add_peer_lookup_witness:
  "\<exists>s'. cbc_add_peer (\<lambda>_. 0x0100007F) 2 (Some ''127.0.0.1'') 12347 (initial_node 0 5 [worker_peer 1])
         = Inr (result_new_ok (), s')
     \<and> peers_wf (peers s') \<and> fst (cbc_peer_find_by_addr (worker_addr 2) s') = ucast (2 :: u64)
     \<and> (\<exists>s''. cbc_peer_get_addr_copy 2 s' = Inr (Some (worker_addr 2), s''))"
  by (rule add_peer_lookup)
    (simp_all add: peers_wf_def worker_addr_def BASE_PORT_def INADDR_NONE_def htons_def)

text \<open>
  After cbc_remove_peer of an id below 65535, no address finds that id any more and the
  id has no address; the other peers stay, and the two blocks of the removed peer are freed.
\<close>

theorem remove_peer_lookup:
  assumes "peers_wf (peers s)" "unat p < 65535"
  shows "fst (cbc_peer_find_by_addr a (cbc_remove_peer p s)) \<noteq> ucast p
     \<and> addr_of_pid p (peers (cbc_remove_peer p s)) = None
     \<and> peers (cbc_remove_peer p s) = filter (\<lambda>q. peer_pid q \<noteq> p) (peers s)
     \<and> live (mem (cbc_remove_peer p s)) = live (mem s) - 2 * int (length (peers s) - length (peers (cbc_remove_peer p s)))"
proof -
  have ps: "peers (cbc_remove_peer p s) = removed_peer p (peers s)"
    by (simp add: cbc_remove_peer_def removed_peer_def with_lock_def split: option.split)
  have wf: "peers_wf (removed_peer p (peers s))" "addr_of_pid p (removed_peer p (peers s)) = None"
    using ptab.remove_wf [OF assms(1)] by blast+
  have "p \<noteq> ucast UINT16_MAX" using assms(2) by (auto simp: UINT16_MAX_def)
  then have "(ucast (pid_of_addr a (removed_peer p (peers s))) :: u64) \<noteq> p"
    using ptab.removed_not_found [OF assms(1)] by blast
  then have "pid_of_addr a (removed_peer p (peers s)) \<noteq> ucast p"
    using small_pid_ucast(1) [OF assms(2)] by metis
  moreover have "live (mem (cbc_remove_peer p s)) = live (mem s) - 2 * int (length (peers s) - length (peers (cbc_remove_peer p s)))"
    by (cases "first_index (\<lambda>q. peer_pid q = p) (peers s)")
      (auto simp: cbc_remove_peer_def with_lock_def dest: first_index_lt)
  moreover have "removed_peer p (peers s) = filter (\<lambda>q. peer_pid q \<noteq> p) (peers s)"
    using assms(1) removed_peer_filter by (simp add: peers_wf_def)
  ultimately show ?thesis using wf ps by (simp add: cbc_peer_find_by_addr_eq)
qed

theorem remove_peer_lookup_witness:
  "fst (cbc_peer_find_by_addr (worker_addr 2) (cbc_remove_peer 2 (initial_node 0 5 [worker_peer 1, worker_peer 2]))) \<noteq> ucast (2 :: u64)
     \<and> addr_of_pid 2 (peers (cbc_remove_peer 2 (initial_node 0 5 [worker_peer 1, worker_peer 2]))) = None
     \<and> peers (cbc_remove_peer 2 (initial_node 0 5 [worker_peer 1, worker_peer 2]))
        = filter (\<lambda>q. peer_pid q \<noteq> 2) (peers (initial_node 0 5 [worker_peer 1, worker_peer 2]))
     \<and> live (mem (cbc_remove_peer 2 (initial_node 0 5 [worker_peer 1, worker_peer 2])))
        = live (mem (initial_node 0 5 [worker_peer 1, worker_peer 2])) - 2 * int (length (peers (initial_node 0 5 [worker_peer 1, worker_peer 2]))
            - length (peers (cbc_remove_peer 2 (initial_node 0 5 [worker_peer 1, worker_peer 2]))))"
  by (rule remove_peer_lookup)
    (simp_all add: peers_wf_def worker_addr_def BASE_PORT_def htons_def)

end
