(* ===== verification/Receive.thy ===== *)
theory Receive
  imports Peer
begin

text \<open>
  \<open>src/cbcast/receive.c\<close>: what a process does with the messages that reach it.

  A data message from process \<open>p\<close> is delivered when its clock is the successor of entry
  \<open>p\<close> of the vector clock, held when it is later, and only acknowledged when it is an old
  retransmission. Every function below is one function of the file, in its order of
  effects; \<open>held_pass\<close> is the body of the \<open>do \<dots> while\<close> loop of
  \<open>try_deliver_held_msgs\<close>, and \<open>cbc_recv_iteration\<close> one round of the endless loop
  of \<open>cbc_recv_thread\<close>.
\<close>

section \<open>Acknowledgements and retransmission requests\<close>

definition enqueue_outgoing :: "cbcast_outgoing_msg \<Rightarrow> node \<Rightarrow> node" where
  "enqueue_outgoing out =
     with_lock SEND_LOCK (\<lambda>s. s\<lparr>send_queue := arrput (send_queue s) out\<rparr>)"

definition ack_received_message :: "u16 \<Rightarrow> u16 \<Rightarrow> node \<Rightarrow> node res" where
  "ack_received_message ack_clock sender s =
     (if ack_clock = UINT16_MAX then RESULT_UNREACHABLE
      else
        andthen (cbc_msg_create CBC_ACK None 0 (mem s)) (\<lambda>(r, m).
        andthen (result_unwrap r) (\<lambda>ack_msg.
        andthen (cbc_peer_get_addr_copy (ucast sender) (s\<lparr>mem := m\<rparr>)) (\<lambda>(sender_addr, s).
        if sender_addr = None then Inr s
        else
          let (r, m) = cbc_outgoing_msg_create (set_clock ack_clock ack_msg) sender_addr (mem s)
          in andthen (result_unwrap r) (\<lambda>outgoing.
             Inr (enqueue_outgoing outgoing (s\<lparr>mem := m\<rparr>)))))))"

definition request_retransmission :: "u16 \<Rightarrow> node \<Rightarrow> node res" where
  "request_retransmission sender s =
     (if sender = UINT16_MAX then RESULT_UNREACHABLE
      else
        andthen (vc_read (vclock s) (unat sender)) (\<lambda>c.
        let expected_clock = c + 1;
            s = mutex_unlock VCLOCK_MTX (mutex_lock VCLOCK_MTX s)
        in
        andthen (cbc_msg_create CBC_RETRANSMIT_REQ None 0 (mem s)) (\<lambda>(r, m).
        andthen (result_unwrap r) (\<lambda>retransmit_req.
        andthen (cbc_peer_get_addr_copy (ucast sender) (s\<lparr>mem := m\<rparr>)) (\<lambda>(sender_addr, s).
        if sender_addr = None then Inr s
        else
          let (r, m) = cbc_outgoing_msg_create (set_clock (ucast expected_clock) retransmit_req)
                         sender_addr (mem s)
          in andthen (result_unwrap r) (\<lambda>outgoing.
             Inr (enqueue_outgoing outgoing (s\<lparr>mem := m\<rparr>))))))))"

section \<open>Causality\<close>

datatype causality_t = CAUSALITY_ERROR | CAUSALITY_DELIVER | CAUSALITY_HOLD

definition check_msg_causality :: "vector_clock \<Rightarrow> u64 \<Rightarrow> u64 \<Rightarrow> causality_t res" where
  "check_msg_causality vc peer clk =
     (if peer \<ge> vc_len vc then Inr CAUSALITY_ERROR
      else
        andthen (vc_read vc (unat peer)) (\<lambda>c.
        if c + 1 = clk then Inr CAUSALITY_DELIVER
        else if c + 1 < clk then Inr CAUSALITY_HOLD
        else Inr CAUSALITY_ERROR))"

section \<open>Held messages\<close>

definition rcvd_clock :: "cbcast_received_msg \<Rightarrow> u16" where
  "rcvd_clock h = clock (header (rcvd_message h))"

text \<open>
  One pass of the \<open>for\<close> loop over the held buffer, from index \<open>i\<close> on; the pass ends
  with \<open>True\<close> at the first message it can deliver.
\<close>

fun held_pass :: "u16 \<Rightarrow> nat \<Rightarrow> cbcast_received_msg list \<Rightarrow> node \<Rightarrow> (bool \<times> node) res" where
  "held_pass sender i [] s = Inr (False, s)"
| "held_pass sender i (held_msg # rest) s =
     (if sender_pid held_msg = sender
      then
        andthen (check_msg_causality (vclock s) (ucast sender) (ucast (rcvd_clock held_msg))) (\<lambda>c.
        if c = CAUSALITY_DELIVER
        then
          andthen (vc_inc (vclock s) (unat sender)) (\<lambda>vc.
          let s = mutex_lock VCLOCK_MTX s;
              s = s\<lparr>delivery_queue := arrput (delivery_queue s) held_msg\<rparr>;
              s = s\<lparr>held_msg_buffer := arrdelswap (held_msg_buffer s) i\<rparr>;
              s = s\<lparr>vclock := vc\<rparr>
          in Inr (True, mutex_unlock VCLOCK_MTX s))
        else held_pass sender (Suc i) rest (mutex_unlock VCLOCK_MTX (mutex_lock VCLOCK_MTX s)))
      else held_pass sender (Suc i) rest s)"

lemma held_pass_shrinks:
  "held_pass sender i hs s = Inr (True, s') \<Longrightarrow> held_msg_buffer s \<noteq> [] \<Longrightarrow>
     length (held_msg_buffer s') < length (held_msg_buffer s)"
  by (induction sender i hs s rule: held_pass.induct) (auto simp: Let_def split: if_splits)

lemma held_pass_Nil: "held_pass sender i hs s = Inr (True, s') \<Longrightarrow> hs \<noteq> []"
  by auto

function try_deliver_held_msgs :: "u16 \<Rightarrow> node \<Rightarrow> node res" where
  "try_deliver_held_msgs sender s =
     andthen (held_pass sender 0 (held_msg_buffer s) s) (\<lambda>(found, s').
     if found then try_deliver_held_msgs sender s' else Inr s')"
  by pat_completeness auto
termination
  by (relation "measure (\<lambda>(sender, s). length (held_msg_buffer s))")
    (auto dest: held_pass_shrinks held_pass_Nil)

declare try_deliver_held_msgs.simps [simp del]

section \<open>Data messages\<close>

definition handle_data_msg :: "cbcast_msg \<Rightarrow> u16 \<Rightarrow> node \<Rightarrow> node res" where
  "handle_data_msg msg sender s =
     (let clk = clock (header msg);
          s = mutex_lock VCLOCK_MTX s
      in
      andthen (check_msg_causality (vclock s) (ucast sender) (ucast clk)) (\<lambda>causality.
      let s = mutex_unlock VCLOCK_MTX s;
          (r, m) = cbc_received_msg_create msg sender (mem s)
      in
      andthen (result_expect r
        ''cbcast_msg_t should be convertible to cbcast_received_msg_t'') (\<lambda>rcvd.
      let s = s\<lparr>mem := m\<rparr> in
      case causality of
        CAUSALITY_ERROR \<Rightarrow>
          if kind (header msg) = CBC_RETRANSMIT
          then
            andthen (ack_received_message clk sender s) (\<lambda>s.
            Inr (s\<lparr>mem := cbc_received_msg_free rcvd (mem s)\<rparr>))
          else RESULT_UNREACHABLE
      | CAUSALITY_DELIVER \<Rightarrow>
          andthen (ack_received_message clk sender s) (\<lambda>s.
          let s = mutex_lock RECV_LOCK s in
          andthen (vc_inc (vclock s) (unat sender)) (\<lambda>vc.
          let s = with_lock VCLOCK_MTX (\<lambda>s. s\<lparr>vclock := vc\<rparr>) s;
              s = s\<lparr>delivery_queue := arrput (delivery_queue s) rcvd\<rparr>
          in
          andthen (if kind (header msg) = CBC_RETRANSMIT
                   then try_deliver_held_msgs sender s else Inr s) (\<lambda>s.
          Inr (mutex_unlock RECV_LOCK s))))
      | CAUSALITY_HOLD \<Rightarrow>
          andthen (ack_received_message clk sender s) (\<lambda>s.
          let s = mutex_lock RECV_LOCK s;
              already_held = (\<exists>h \<in> set (held_msg_buffer s).
                 rcvd_clock h = clk \<and> sender_pid h = sender);
              s = (if already_held then s\<lparr>mem := cbc_received_msg_free rcvd (mem s)\<rparr>
                   else s\<lparr>held_msg_buffer := arrput (held_msg_buffer s) rcvd\<rparr>)
          in request_retransmission sender (mutex_unlock RECV_LOCK s)))))"

section \<open>Acknowledgements received\<close>

definition register_ack :: "cbcast_msg \<Rightarrow> u16 \<Rightarrow> node \<Rightarrow> node res" where
  "register_ack ack sender s =
     (if kind (header ack) \<noteq> CBC_ACK then RESULT_UNREACHABLE
      else
        andthen (find_sent (\<lambda>m. clock (header (sent_message m)) = clock (header ack)) 0 (sent_msg_buffer s) s) (\<lambda>idx.
        case idx of
          None \<Rightarrow> Inr s
        | Some i \<Rightarrow>
            let p = sent_msg_buffer s ! i in
            andthen (read_sent p s) (\<lambda>m.
            andthen (shl1 (unat sender)) (\<lambda>bit.
            let m = m\<lparr>ack_bitmap := ack_bitmap m OR bit\<rparr>;
                s = s\<lparr>sent_heap := (sent_heap s)(p \<mapsto> m)\<rparr>
            in Inr (if ack_bitmap m = ack_target m
                    then s\<lparr>mem := cbc_sent_msg_free m (mem s),
                           sent_heap := (sent_heap s)(p := None),
                           sent_msg_buffer := arrdel (sent_msg_buffer s) i\<rparr>
                    else s)))))"

definition queue_retransmission :: "cbcast_msg \<Rightarrow> u16 \<Rightarrow> node \<Rightarrow> node res" where
  "queue_retransmission msg sender s =
     (if sender = UINT16_MAX then RESULT_UNREACHABLE
      else
        let s = mutex_lock SEND_LOCK s in
        andthen (find_sent (\<lambda>m. clock (header (sent_message m)) = clock (header msg)) 0 (sent_msg_buffer s) s) (\<lambda>idx.
        case idx of
          None \<Rightarrow> Inr (mutex_unlock SEND_LOCK s)
        | Some i \<Rightarrow>
            andthen (read_sent (sent_msg_buffer s ! i) s) (\<lambda>sent.
            andthen (cbc_msg_create CBC_RETRANSMIT (payload (sent_message sent))
                       (len (header (sent_message sent))) (mem s)) (\<lambda>(r, m).
            andthen (result_unwrap r) (\<lambda>retransmit_msg.
            let s = mutex_unlock SEND_LOCK (s\<lparr>mem := m\<rparr>) in
            andthen (cbc_peer_get_addr_copy (ucast sender) s) (\<lambda>(sender_addr, s).
            let (r, m) = cbc_outgoing_msg_create (set_clock (clock (header msg)) retransmit_msg)
                           sender_addr (mem s)
            in
            andthen (result_unwrap r) (\<lambda>outgoing.
            Inr (enqueue_outgoing outgoing (s\<lparr>mem := m\<rparr>)))))))))"

section \<open>The application's side\<close>

definition cbc_receive :: "node \<Rightarrow> cbcast_received_msg option \<times> node" where
  "cbc_receive s =
     (let s = mutex_lock RECV_LOCK s;
          msg = (case delivery_queue s of [] \<Rightarrow> None | m # _ \<Rightarrow> Some m);
          s = (case msg of None \<Rightarrow> s
               | Some m \<Rightarrow> s\<lparr>delivery_queue := arrdel (delivery_queue s) 0,
                            delivered := delivered s @ [m]\<rparr>);
          s = mutex_unlock RECV_LOCK s;
          s = (case msg of None \<Rightarrow> s
               | Some _ \<Rightarrow> with_lock STATS_LOCK (\<lambda>s. s\<lparr>stats :=
                   (stats s)\<lparr>delivered_msg_count := delivered_msg_count (stats s) + 1\<rparr>\<rparr>) s)
      in (msg, s))"

section \<open>The receive thread\<close>

text \<open>
  \<open>recvfrom\<close> on the datagram socket: an error (\<open>fails\<close>, value -1), or the first waiting
  datagram, cut to \<open>n\<close> bytes, which stays in place under \<open>MSG_PEEK\<close>. With nothing
  waiting the call blocks (\<open>None\<close>).
\<close>

definition c_recvfrom ::
  "bool \<Rightarrow> nat \<Rightarrow> bool \<Rightarrow> node \<Rightarrow> (u64 \<times> u8 list \<times> sockaddr_in option \<times> node) option" where
  "c_recvfrom fails n peek s =
     (if fails then Some (- 1, [], None, s)
      else case socket_rx s of
             [] \<Rightarrow> None
           | (a, d) # rest \<Rightarrow>
               Some (of_nat (min n (length d)), take n d, Some a,
                     if peek then s else s\<lparr>socket_rx := rest\<rparr>))"

definition dispatch_msg :: "cbcast_msg \<Rightarrow> u16 \<Rightarrow> node \<Rightarrow> node res" where
  "dispatch_msg msg sender s =
     (case kind (header msg) of
        CBC_DATA \<Rightarrow> handle_data_msg msg sender s
      | CBC_RETRANSMIT \<Rightarrow> handle_data_msg msg sender s
      | CBC_ACK \<Rightarrow>
          andthen (register_ack msg sender (mutex_lock SEND_LOCK s)) (\<lambda>s.
          let s = mutex_unlock SEND_LOCK s
          in Inr (s\<lparr>mem := cbc_msg_free (Some msg) (mem s)\<rparr>))
      | CBC_RETRANSMIT_REQ \<Rightarrow>
          andthen (queue_retransmission msg sender s) (\<lambda>s.
          Inr (s\<lparr>mem := cbc_msg_free (Some msg) (mem s)\<rparr>))
      | CBC_OTHER _ \<Rightarrow> Inr s)"

text \<open>
  The second half of a round: a datagram from a known sender, complete, is parsed, its buffer
  freed, and the message dispatched; a parse error is ignored.
\<close>

definition parse_and_dispatch :: "u8 list \<Rightarrow> u16 \<Rightarrow> node \<Rightarrow> node res" where
  "parse_and_dispatch full_msg_buffer sender s =
     andthen (cbc_msg_deserialize full_msg_buffer (mem s)) (\<lambda>(r, m).
     let s = s\<lparr>mem := c_free 1 m\<rparr> in
     if result_is_err r then Inr s
     else andthen (result_expect r ''unreachable'') (\<lambda>msg. dispatch_msg msg sender s))"

text \<open>The second \<open>recvfrom\<close>, which takes the datagram; its sender must be a peer.\<close>

definition recv_full :: "bool \<Rightarrow> nat \<Rightarrow> node \<Rightarrow> node res option" where
  "recv_full recv_fails full_msg_size s =
     (case c_recvfrom recv_fails full_msg_size False s of
        None \<Rightarrow> None
      | Some (recv_len, full_msg_buffer, addr, s) \<Rightarrow>
          if recv_len \<noteq> of_nat full_msg_size then Some (Inr (s\<lparr>mem := c_free 1 (mem s)\<rparr>))
          else
            let (sender, s) = cbc_peer_find_by_addr (the addr) s in
            if sender = UINT16_MAX then Some (Inr (s\<lparr>mem := c_free 1 (mem s)\<rparr>))
            else Some (parse_and_dispatch full_msg_buffer sender s))"

text \<open>
  One round of the loop. \<open>hdr_buf\<close> is \<open>header_buffer\<close>, which a round that fails to peek
  finds as the last one left it. The result is \<open>None\<close> when the round blocks.
\<close>

definition cbc_recv_iteration ::
  "bool \<Rightarrow> bool \<Rightarrow> u8 list \<Rightarrow> node \<Rightarrow> (u8 list \<times> node) res option" where
  "cbc_recv_iteration peek_fails recv_fails hdr_buf s =
     (case c_recvfrom peek_fails hdr_size True s of
        None \<Rightarrow> None
      | Some (recv_len, bs, _, s) \<Rightarrow>
          let hdr_buf = bs @ drop (length bs) hdr_buf in
          if recv_len < of_nat hdr_size then Some (Inr (hdr_buf, s))
          else
            let full_msg_size = hdr_size + unat (len (hdr_of_bytes hdr_buf));
                (ok, m) = calloc (mem s);
                s = s\<lparr>mem := m\<rparr>
            in if \<not> ok then Some (Inr (hdr_buf, s))
               else map_option (\<lambda>r. andthen r (\<lambda>s. Inr (hdr_buf, s))) (recv_full recv_fails full_msg_size s))"

section \<open>What the queueing operations change\<close>

text \<open>
  \<open>quiet s s'\<close>: only the send queue, the allocator and the mutex history differ. The
  functions that queue an answer are quiet, so every invariant about delivery, held
  messages, sent messages and peers passes over them.
\<close>

definition quiet :: "node \<Rightarrow> node \<Rightarrow> bool" where
  "quiet s s' \<longleftrightarrow> (\<exists>q m t. s' = s\<lparr>send_queue := q, mem := m, lock_trace := t\<rparr>)"

lemma quietI: "s' = s\<lparr>send_queue := q, mem := m, lock_trace := t\<rparr> \<Longrightarrow> quiet s s'"
  unfolding quiet_def by blast

lemma quiet_refl [simp, intro]: "quiet s s"
  by (rule quietI [where q = "send_queue s" and m = "mem s" and t = "lock_trace s"]) simp

lemma quiet_trans [trans]: "quiet s t \<Longrightarrow> quiet t u \<Longrightarrow> quiet s u"
  by (clarsimp simp: quiet_def) blast

lemma quiet_views:
  assumes "quiet s s'"
  shows "delivery_view s' = delivery_view s" "sent_view s' = sent_view s"
    "peers s' = peers s" "vclock s' = vclock s" "pid s' = pid s" "state s' = state s"
    "held_msg_buffer s' = held_msg_buffer s" "delivery_queue s' = delivery_queue s"
    "delivered s' = delivered s" "sent_msg_buffer s' = sent_msg_buffer s"
    "sent_heap s' = sent_heap s" "next_ptr s' = next_ptr s" "stats s' = stats s"
    "socket_tx s' = socket_tx s" "socket_rx s' = socket_rx s" "rands s' = rands s"
  using assms by (auto simp: quiet_def delivery_view_def sent_view_def)

lemma quiet_steps [simp]:
  "quiet s (mutex_lock l s)" "quiet s (mutex_unlock l s)" "quiet s (s\<lparr>mem := m\<rparr>)"
  "quiet s (enqueue_outgoing out s)"
  by (rule quietI [where q = "send_queue s" and m = "mem s" and t = "lock_trace s @ [Lock l]"],
      simp add: mutex_lock_def,
    rule quietI [where q = "send_queue s" and m = "mem s" and t = "lock_trace s @ [Unlock l]"],
      simp add: mutex_unlock_def,
    rule quietI [where q = "send_queue s" and m = m and t = "lock_trace s"], simp,
    rule quietI [where q = "send_queue s @ [out]" and m = "mem s"
      and t = "lock_trace s @ [Lock SEND_LOCK, Unlock SEND_LOCK]"],
      simp add: enqueue_outgoing_def with_lock_def mutex_lock_def mutex_unlock_def arrput_def)

lemma get_addr_copy_quiet:
  assumes "cbc_peer_get_addr_copy p s = Inr (a, s')"
  shows "quiet s s'"
  using cbc_peer_get_addr_copy_Inr(2) [OF assms] quiet_steps quiet_trans by metis

lemma enqueue_outgoing_simps [simp]:
  "send_queue (enqueue_outgoing out s) = send_queue s @ [out]"
  "mem (enqueue_outgoing out s) = mem s"
  by (simp_all add: enqueue_outgoing_def with_lock_def mutex_lock_def mutex_unlock_def arrput_def)

text \<open>A header-only answer to the address of \<open>p\<close>; nothing when \<open>p\<close> is unknown.\<close>

definition answer :: "cbcast_msg_kind \<Rightarrow> u16 \<Rightarrow> u16 \<Rightarrow> cbcast_peer list \<Rightarrow> cbcast_outgoing_msg list" where
  "answer k clk p ps =
     (case addr_of_pid (ucast p) ps of
        None \<Rightarrow> []
      | Some a \<Rightarrow> [\<lparr>out_message = \<lparr>header = \<lparr>kind = k, clock = clk, len = 0\<rparr>, payload = None\<rparr>,
                    out_addr = Some a, socket_flags = 0\<rparr>])"

lemma cbc_outgoing_msg_create_Inr:
  "cbc_outgoing_msg_create msg addr m = (result_new_ok out, m') \<Longrightarrow>
     out = \<lparr>out_message = msg, out_addr = addr, socket_flags = 0\<rparr> \<and> alloc_ok m' = alloc_ok m"
  by (auto simp: cbc_outgoing_msg_create_def calloc_def Let_def split: if_splits)

lemma cbc_outgoing_msg_create_plenty:
  "plenty m \<Longrightarrow> addr \<noteq> None \<or> kind (header msg) = CBC_DATA \<Longrightarrow>
     \<exists>out m'. cbc_outgoing_msg_create msg addr m = (result_new_ok out, m')"
  by (auto simp: cbc_outgoing_msg_create_def calloc_def Let_def)

lemma set_clock_header_only [simp]:
  "set_clock c \<lparr>header = \<lparr>kind = k, clock = 0, len = 0\<rparr>, payload = None\<rparr> =
     \<lparr>header = \<lparr>kind = k, clock = c, len = 0\<rparr>, payload = None\<rparr>"
  by (simp add: set_clock_def)

lemma create_header_only:
  assumes "header_only k" and "cbc_msg_create k None 0 m = Inr (result_new_ok msg, m')"
  shows "msg = \<lparr>header = \<lparr>kind = k, clock = 0, len = 0\<rparr>, payload = None\<rparr> \<and> alloc_ok m' = alloc_ok m"
  using assms
  by (cases rule: create_msg_with_header_cases [of k m])
    (auto simp: cbc_msg_create_def header_only_def)

lemma create_header_only_plenty:
  assumes "header_only k" and "plenty m"
  shows "\<exists>msg m'. cbc_msg_create k None 0 m = Inr (result_new_ok msg, m')"
  using assms
  by (auto simp: cbc_msg_create_def header_only_def create_msg_with_header_def calloc_def Let_def)

text \<open>The common tail of the two answers: build the message, look the peer up, enqueue.\<close>

definition send_answer :: "cbcast_msg_kind \<Rightarrow> u16 \<Rightarrow> u16 \<Rightarrow> node \<Rightarrow> node res" where
  "send_answer k clk p s =
     andthen (cbc_msg_create k None 0 (mem s)) (\<lambda>(r, m).
     andthen (result_unwrap r) (\<lambda>msg.
     andthen (cbc_peer_get_addr_copy (ucast p) (s\<lparr>mem := m\<rparr>)) (\<lambda>(addr, s).
     if addr = None then Inr s
     else
       let (r, m) = cbc_outgoing_msg_create (set_clock clk msg) addr (mem s)
       in andthen (result_unwrap r) (\<lambda>out. Inr (enqueue_outgoing out (s\<lparr>mem := m\<rparr>))))))"

lemma send_answer_Inr:
  assumes "header_only k" and "send_answer k c p s = Inr s'"
  shows "quiet s s'" "send_queue s' = send_queue s @ answer k c p (peers s)"
    "alloc_ok (mem s') = alloc_ok (mem s)"
proof -
  obtain msg m a s1 where
        msg: "cbc_msg_create k None 0 (mem s) = Inr (result_new_ok msg, m)"
    and a: "cbc_peer_get_addr_copy (ucast p) (s\<lparr>mem := m\<rparr>) = Inr (a, s1)"
    and rest: "(if a = None then Inr s1 else
       let (r, m) = cbc_outgoing_msg_create (set_clock c msg) a (mem s1)
       in andthen (result_unwrap r) (\<lambda>out. Inr (enqueue_outgoing out (s1\<lparr>mem := m\<rparr>)))) = Inr s'"
    using assms(2) by (auto simp: send_answer_def)
  note m = create_header_only [OF assms(1) msg]
  note ac = cbc_peer_get_addr_copy_Inr [OF a, simplified]
  have q1: "quiet s s1" using get_addr_copy_quiet [OF a] quiet_steps(3) quiet_trans by blast
  have sq: "send_queue s1 = send_queue s"
    by (subst ac(2)) (simp add: mutex_lock_def mutex_unlock_def)
  consider "a = None" "s' = s1" | out m2 addr where "a = Some addr"
      "cbc_outgoing_msg_create (set_clock c msg) a (mem s1) = (result_new_ok out, m2)"
      "s' = enqueue_outgoing out (s1\<lparr>mem := m2\<rparr>)"
    using rest by (auto simp: Let_def split: if_splits prod.splits)
  then have "quiet s s' \<and> send_queue s' = send_queue s @ answer k c p (peers s)
      \<and> alloc_ok (mem s') = alloc_ok (mem s)"
  proof cases
    case 1
    with q1 sq ac m show ?thesis by (simp add: answer_def)
  next
    case 2
    have "quiet s s'" unfolding 2(3) using q1 quiet_steps(3,4) quiet_trans by metis
    with 2 sq ac m cbc_outgoing_msg_create_Inr [OF 2(2)] show ?thesis by (simp add: answer_def)
  qed
  then show "quiet s s'" "send_queue s' = send_queue s @ answer k c p (peers s)"
    "alloc_ok (mem s') = alloc_ok (mem s)" by blast+
qed

lemma send_answer_safe:
  assumes "header_only k" and "plenty (mem s)"
  shows "\<exists>s'. send_answer k c p s = Inr s'"
proof -
  obtain msg m where msg: "cbc_msg_create k None 0 (mem s) = Inr (result_new_ok msg, m)"
    using create_header_only_plenty [OF assms] by blast
  then have m: "plenty m" using create_header_only [OF assms(1) msg] assms(2) by (simp add: plenty_def)
  then obtain a s1 where a: "cbc_peer_get_addr_copy (ucast p) (s\<lparr>mem := m\<rparr>) = Inr (a, s1)"
    using cbc_peer_get_addr_copy_safe [of "s\<lparr>mem := m\<rparr>" "ucast p"] by auto
  then have "plenty (mem s1)"
    using cbc_peer_get_addr_copy_Inr(3) [OF a] m by (simp add: plenty_def)
  then show ?thesis
    using msg a cbc_outgoing_msg_create_plenty [of "mem s1" a "set_clock c msg"]
    by (cases a) (auto simp: send_answer_def)
qed

lemma ack_received_message_eq:
  "ack_received_message c p s =
     (if c = UINT16_MAX then RESULT_UNREACHABLE else send_answer CBC_ACK c p s)"
  by (simp add: ack_received_message_def send_answer_def)

lemma request_retransmission_eq:
  "request_retransmission p s =
     (if p = UINT16_MAX then RESULT_UNREACHABLE
      else andthen (vc_read (vclock s) (unat p)) (\<lambda>c.
        send_answer CBC_RETRANSMIT_REQ (ucast (c + 1)) p
          (mutex_unlock VCLOCK_MTX (mutex_lock VCLOCK_MTX s))))"
  by (simp add: request_retransmission_def send_answer_def Let_def)

lemma ack_received_message_Inr:
  assumes "ack_received_message c p s = Inr s'"
  shows "quiet s s'" "send_queue s' = send_queue s @ answer CBC_ACK c p (peers s)"
    "alloc_ok (mem s') = alloc_ok (mem s)" "c \<noteq> UINT16_MAX"
  using assms send_answer_Inr [of CBC_ACK c p s s']
  by (auto simp: ack_received_message_eq split: if_splits)

lemma request_retransmission_Inr:
  assumes "request_retransmission p s = Inr s'"
  shows "quiet s s'" "alloc_ok (mem s') = alloc_ok (mem s)"
    "send_queue s' = send_queue s @ answer CBC_RETRANSMIT_REQ (ucast (vc_clock (vclock s) ! unat p + 1)) p (peers s)"
proof -
  let ?t = "mutex_unlock VCLOCK_MTX (mutex_lock VCLOCK_MTX s)"
  have a: "send_answer CBC_RETRANSMIT_REQ (ucast (vc_clock (vclock s) ! unat p + 1)) p ?t = Inr s'"
    using assms by (auto simp: request_retransmission_eq split: if_splits)
  note f = send_answer_Inr [OF _ a, simplified]
  show "quiet s s'" using f(1) quiet_steps quiet_trans by metis
  show "alloc_ok (mem s') = alloc_ok (mem s)" using f(3) by simp
  show "send_queue s' = send_queue s @ answer CBC_RETRANSMIT_REQ (ucast (vc_clock (vclock s) ! unat p + 1)) p (peers s)"
    using f(2) by simp
qed

end
