(* ===== verification/Delivery.thy ===== *)
theory Delivery
  imports Receive
begin

text \<open>
  In what order a process delivers. The history of a sender \<open>p\<close> is what \<open>cbc_receive\<close>
  has returned from \<open>p\<close> followed by what waits in the delivery queue from \<open>p\<close>.
  \<open>fifo_ok\<close> says that the clocks of this history are 1, 2, 3, \<dots> up to entry \<open>p\<close> of the
  vector clock: nothing from \<open>p\<close> is skipped, repeated or reordered. \<open>held_ok\<close> says
  that the held buffer has no duplicates. Both are kept by every operation of the receive
  path, whatever arrives and whichever allocations fail.
\<close>

section \<open>Histories\<close>

definition clk_of :: "cbcast_received_msg \<Rightarrow> nat" where
  "clk_of m = unat (rcvd_clock m)"

definition history_from :: "u16 \<Rightarrow> node \<Rightarrow> cbcast_received_msg list" where
  "history_from p s = filter (\<lambda>m. sender_pid m = p) (delivered s @ delivery_queue s)"

definition vclk :: "u16 \<Rightarrow> node \<Rightarrow> nat" where
  "vclk p s = unat (vc_clock (vclock s) ! unat p)"

definition tracked :: "u16 \<Rightarrow> node \<Rightarrow> bool" where
  "tracked p s \<longleftrightarrow> unat p < length (vc_clock (vclock s))"

definition fifo_ok :: "node \<Rightarrow> bool" where
  "fifo_ok s \<longleftrightarrow> vc_wf (vclock s) \<and>
     (\<forall>p. ucast p \<noteq> pid s \<longrightarrow>
        (if tracked p s then map clk_of (history_from p s) = [1..<Suc (vclk p s)]
         else history_from p s = []))"

definition held_ok :: "node \<Rightarrow> bool" where
  "held_ok s \<longleftrightarrow> distinct (map (\<lambda>h. (sender_pid h, rcvd_clock h)) (held_msg_buffer s))"

lemma delivery_view_cong:
  assumes "delivery_view s' = delivery_view s"
  shows "fifo_ok s' = fifo_ok s" "held_ok s' = held_ok s" "history_from p s' = history_from p s"
    "vclk p s' = vclk p s" "tracked p s' = tracked p s"
  using assms
  by (simp_all add: delivery_view_def fifo_ok_def held_ok_def history_from_def vclk_def tracked_def)

lemma last_history_bound:
  assumes "map clk_of ms = [1..<Suc n]"
  shows "n < 65536"
proof (cases "n = 0")
  case False
  then have "n \<in> set (map clk_of ms)" using assms by simp
  then show ?thesis using unat_u16_less by (auto simp: clk_of_def)
qed simp

lemma fifo_vclk_bound: "fifo_ok s \<Longrightarrow> ucast p \<noteq> pid s \<Longrightarrow> tracked p s \<Longrightarrow> vclk p s < 65536"
  by (rule last_history_bound [of "history_from p s"]) (auto simp: fifo_ok_def)

section \<open>The causality test\<close>

lemma check_msg_causality_total: "vc_wf vc \<Longrightarrow> \<exists>c. check_msg_causality vc q k = Inr c"
  by (auto simp: check_msg_causality_def vc_wf_def vc_read_def word_le_nat_alt not_le)

lemma check_msg_causality_cases:
  assumes wf: "vc_wf vc" and b: "unat (vc_clock vc ! unat p) < 65536"
  shows "check_msg_causality vc (ucast (p :: u16)) (ucast (c :: u16)) = Inr
    (if length (vc_clock vc) \<le> unat p then CAUSALITY_ERROR
     else if unat c = Suc (unat (vc_clock vc ! unat p)) then CAUSALITY_DELIVER
     else if Suc (unat (vc_clock vc ! unat p)) < unat c then CAUSALITY_HOLD
     else CAUSALITY_ERROR)"
proof -
  have "unat (vc_clock vc ! unat p + 1) = Suc (unat (vc_clock vc ! unat p))"
    using b by (rule unat_Suc_small)
  then have "vc_clock vc ! unat p + 1 = ucast c \<longleftrightarrow> unat c = Suc (unat (vc_clock vc ! unat p))"
    "vc_clock vc ! unat p + 1 < ucast c \<longleftrightarrow> Suc (unat (vc_clock vc ! unat p)) < unat c"
    by (auto simp: word_unat_eq_iff word_less_nat_alt)
  with wf show ?thesis
    by (auto simp: check_msg_causality_def vc_wf_def vc_read_def word_le_nat_alt)
qed

section \<open>Draining the held buffer\<close>

text \<open>Only the fields the drain loop writes differ.\<close>

definition recv_only :: "node \<Rightarrow> node \<Rightarrow> bool" where
  "recv_only s s' \<longleftrightarrow> (\<exists>v h d t. s' = s\<lparr>vclock := v, held_msg_buffer := h, delivery_queue := d,
     lock_trace := t\<rparr>)"

lemma recv_onlyI:
  "s' = s\<lparr>vclock := v, held_msg_buffer := h, delivery_queue := d, lock_trace := t\<rparr> \<Longrightarrow> recv_only s s'"
  unfolding recv_only_def by blast

lemma recv_only_refl [simp]: "recv_only s s"
  by (rule recv_onlyI [where v = "vclock s" and h = "held_msg_buffer s" and d = "delivery_queue s"
        and t = "lock_trace s"]) simp

lemma recv_only_trans: "recv_only s t \<Longrightarrow> recv_only t u \<Longrightarrow> recv_only s u"
  by (clarsimp simp: recv_only_def) blast

lemma recv_only_views:
  assumes "recv_only s s'"
  shows "sent_view s' = sent_view s" "peers s' = peers s" "pid s' = pid s" "send_queue s' = send_queue s"
    "mem s' = mem s" "delivered s' = delivered s" "stats s' = stats s" "socket_tx s' = socket_tx s"
    "socket_rx s' = socket_rx s" "state s' = state s" "rands s' = rands s"
  using assms by (auto simp: recv_only_def sent_view_def)

text \<open>
  \<open>drained p s ms s'\<close>: the messages \<open>ms\<close> of \<open>p\<close> moved from the held buffer to the end of
  the delivery queue, their clocks continue entry \<open>p\<close> of the vector clock without a gap,
  and the entry advanced past them.
\<close>

definition drained :: "u16 \<Rightarrow> node \<Rightarrow> cbcast_received_msg list \<Rightarrow> node \<Rightarrow> bool" where
  "drained p s ms s' \<longleftrightarrow>
     recv_only s s'
     \<and> delivery_queue s' = delivery_queue s @ ms
     \<and> mset (held_msg_buffer s) = mset (held_msg_buffer s') + mset ms
     \<and> (\<forall>m \<in> set ms. sender_pid m = p)
     \<and> map clk_of ms = [Suc (vclk p s)..<Suc (vclk p s + length ms)]
     \<and> vc_len (vclock s') = vc_len (vclock s)
     \<and> vc_clock (vclock s') = (vc_clock (vclock s))[unat p := of_nat (vclk p s + length ms)]"

lemma drained_Nil:
  "recv_only s s' \<Longrightarrow> delivery_view s' = delivery_view s \<Longrightarrow> drained p s [] s'"
  by (simp add: drained_def delivery_view_def vclk_def)

lemma vclk_drained:
  assumes "drained p s ms s'" "tracked p s" "vclk p s + length ms < 65536"
  shows "vclk p s' = vclk p s + length ms" "tracked p s'"
    "q \<noteq> p \<Longrightarrow> vclk q s' = vclk q s" "tracked q s' = tracked q s" "vc_wf (vclock s') = vc_wf (vclock s)"
proof -
  have "unat (of_nat (vclk p s + length ms) :: u64) = vclk p s + length ms"
    using assms(3) by (rule unat_of_nat_small)
  with assms show "vclk p s' = vclk p s + length ms" by (simp add: drained_def vclk_def tracked_def)
  show "tracked p s'" "tracked q s' = tracked q s" "vc_wf (vclock s') = vc_wf (vclock s)"
    using assms by (simp_all add: drained_def tracked_def vc_wf_def)
  show "vclk q s' = vclk q s" if "q \<noteq> p"
    using assms that by (simp add: drained_def vclk_def word_unat_eq_iff)
qed

lemma drained_trans:
  assumes "drained p s ms t" "drained p t ns u" "tracked p s" "vclk p s + length ms < 65536"
  shows "drained p s (ms @ ns) u"
proof -
  note v = vclk_drained(1) [OF assms(1,3,4)]
  have "recv_only s u" using assms recv_only_trans by (auto simp: drained_def)
  moreover have "map clk_of (ms @ ns) = [Suc (vclk p s)..<Suc (vclk p s + length (ms @ ns))]"
  proof -
    have "[Suc (vclk p s)..<Suc (vclk p s + length ms + length ns)]
        = [Suc (vclk p s)..<Suc (vclk p s + length ms)]
          @ [Suc (vclk p s + length ms)..<Suc (vclk p s + length ms + length ns)]"
      using upt_add_eq_append [of "Suc (vclk p s)" "Suc (vclk p s + length ms)" "length ns"] by simp
    then show ?thesis using assms(1,2) v by (simp add: drained_def add.assoc)
  qed
  ultimately show ?thesis
    using assms(1,2) v by (simp add: drained_def ball_Un add.assoc add.commute add.left_commute del: upt_Suc)
qed

lemma recv_only_locks [simp]: "recv_only s (mutex_lock l s)" "recv_only s (mutex_unlock l s)"
  by (rule recv_onlyI [where v = "vclock s" and h = "held_msg_buffer s" and d = "delivery_queue s"
        and t = "lock_trace s @ [Lock l]"], simp add: mutex_lock_def,
      rule recv_onlyI [where v = "vclock s" and h = "held_msg_buffer s" and d = "delivery_queue s"
        and t = "lock_trace s @ [Unlock l]"], simp add: mutex_unlock_def)

lemma recv_only_lock_unlock: "recv_only (mutex_unlock l (mutex_lock k s)) s' \<Longrightarrow> recv_only s s'"
  using recv_only_locks recv_only_trans by blast

lemma held_pass_False:
  "held_pass p i hs s = Inr (False, s') \<Longrightarrow>
     recv_only s s' \<and> delivery_view s' = delivery_view s \<and>
     (\<forall>h \<in> set hs. sender_pid h = p \<longrightarrow>
        check_msg_causality (vclock s) (ucast p) (ucast (rcvd_clock h)) \<noteq> Inr CAUSALITY_DELIVER)"
proof (induction p i hs s rule: held_pass.induct)
  case (2 sender i held_msg rest s)
  then show ?case
    by (auto simp: Let_def dest: recv_only_lock_unlock split: if_splits)
qed simp

lemma held_pass_True:
  "held_pass p i hs s = Inr (True, s') \<Longrightarrow> hs = drop i (held_msg_buffer s) \<Longrightarrow>
     \<exists>j < length (held_msg_buffer s). let h = held_msg_buffer s ! j in
       sender_pid h = p
       \<and> check_msg_causality (vclock s) (ucast p) (ucast (rcvd_clock h)) = Inr CAUSALITY_DELIVER
       \<and> recv_only s s' \<and> delivery_queue s' = delivery_queue s @ [h]
       \<and> held_msg_buffer s' = arrdelswap (held_msg_buffer s) j
       \<and> vc_inc (vclock s) (unat p) = Inr (vclock s')"
proof (induction p i hs s rule: held_pass.induct)
  case (2 p i h rest s)
  have i: "i < length (held_msg_buffer s)" "held_msg_buffer s ! i = h"
    and rest: "rest = drop (Suc i) (held_msg_buffer s)"
    using "2.prems"(2) by (metis drop_eq_Nil list.distinct(1) not_le)
      (metis "2.prems"(2) nth_via_drop, metis "2.prems"(2) drop_Suc list.sel(3) tl_drop)
  obtain c where c: "check_msg_causality (vclock s) (ucast p) (ucast (rcvd_clock h)) = Inr c \<or> sender_pid h \<noteq> p"
    using "2.prems"(1) by (auto split: if_splits)
  consider "sender_pid h \<noteq> p" | "sender_pid h = p" "c = CAUSALITY_DELIVER"
    | "sender_pid h = p" "c \<noteq> CAUSALITY_DELIVER" by blast
  then show ?case
  proof cases
    case 1
    with "2.IH"(2) "2.prems"(1) rest show ?thesis by simp
  next
    case 2
    with c "2.prems"(1) obtain vc where "vc_inc (vclock s) (unat p) = Inr vc"
      and s': "s' = mutex_unlock VCLOCK_MTX ((mutex_lock VCLOCK_MTX s)\<lparr>delivery_queue := arrput (delivery_queue s) h,
          held_msg_buffer := arrdelswap (held_msg_buffer s) i, vclock := vc\<rparr>)"
      by (auto simp: Let_def)
    moreover have "recv_only s s'"
      unfolding s'
      by (rule recv_onlyI [where v = vc and h = "arrdelswap (held_msg_buffer s) i"
            and d = "arrput (delivery_queue s) h"
            and t = "lock_trace s @ [Lock VCLOCK_MTX, Unlock VCLOCK_MTX]"])
        (simp add: mutex_lock_def mutex_unlock_def)
    ultimately show ?thesis
      using 2 c i by (intro exI [of _ i]) (auto simp: Let_def arrput_def)
  next
    case 3
    with c "2.prems"(1) have "held_pass p (Suc i) rest (mutex_unlock VCLOCK_MTX (mutex_lock VCLOCK_MTX s)) = Inr (True, s')"
      by (auto simp: Let_def)
    with "2.IH"(1) 3 c rest show ?thesis
      by (auto simp: Let_def dest: recv_only_lock_unlock)
  qed
qed simp

lemma held_pass_total: "vc_wf (vclock s) \<Longrightarrow> tracked p s \<Longrightarrow> \<exists>b s'. held_pass p i hs s = Inr (b, s')"
proof (induction p i hs s rule: held_pass.induct)
  case (1 p i s)
  show ?case by (rule exI [of _ False]) simp
next
  case (2 p i h rest s)
  obtain c where "check_msg_causality (vclock s) (ucast p) (ucast (rcvd_clock h)) = Inr c"
    using check_msg_causality_total [OF "2.prems"(1)] by blast
  with 2 show ?case by (auto simp: Let_def tracked_def)
qed

lemma held_pass_drains:
  assumes pass: "held_pass p 0 (held_msg_buffer s) s = Inr (True, s')"
    and wf: "vc_wf (vclock s)" and p: "tracked p s" and b: "vclk p s < 65536"
  shows "\<exists>h. drained p s [h] s' \<and> Suc (vclk p s) < 65536"
proof -
  obtain j where j: "j < length (held_msg_buffer s)" and
      h: "sender_pid (held_msg_buffer s ! j) = p"
        "check_msg_causality (vclock s) (ucast p) (ucast (rcvd_clock (held_msg_buffer s ! j))) = Inr CAUSALITY_DELIVER"
    and s': "recv_only s s'" "delivery_queue s' = delivery_queue s @ [held_msg_buffer s ! j]"
        "held_msg_buffer s' = arrdelswap (held_msg_buffer s) j" "vc_inc (vclock s) (unat p) = Inr (vclock s')"
    using held_pass_True [OF pass] by (auto simp: Let_def)
  have c: "clk_of (held_msg_buffer s ! j) = Suc (vclk p s)"
    using h(2) check_msg_causality_cases [OF wf, of p] b
    by (auto simp: vclk_def clk_of_def split: if_splits)
  have o: "(of_nat (vclk p s + 1) :: u64) = vc_clock (vclock s) ! unat p + 1"
    by (simp add: vclk_def)
  have vc: "vclock s' = (vclock s)\<lparr>vc_clock := (vc_clock (vclock s))[unat p := of_nat (vclk p s + 1)]\<rparr>"
    using s'(4) by (simp only: o vc_inc_Inr)
  have m: "mset (held_msg_buffer s) = mset (held_msg_buffer s') + {#held_msg_buffer s ! j#}"
    using mset_arrdelswap [OF j] s'(3) by simp
  have "drained p s [held_msg_buffer s ! j] s'"
    using s'(1,2) h(1) c m vc by (simp add: drained_def del: of_nat_add)
  moreover have "Suc (vclk p s) < 65536" using c unat_u16_less by (metis clk_of_def)
  ultimately show ?thesis by blast
qed

text \<open>What remains from \<open>p\<close> after the loop does not continue the history.\<close>

definition nothing_deliverable :: "u16 \<Rightarrow> node \<Rightarrow> bool" where
  "nothing_deliverable p s \<longleftrightarrow>
     (\<forall>h \<in> set (held_msg_buffer s). sender_pid h = p \<longrightarrow> clk_of h \<noteq> Suc (vclk p s))"

lemma try_deliver_drains:
  "vc_wf (vclock s) \<Longrightarrow> tracked p s \<Longrightarrow> vclk p s < 65536 \<Longrightarrow>
     \<exists>s' ms. try_deliver_held_msgs p s = Inr s' \<and> drained p s ms s' \<and> nothing_deliverable p s'
       \<and> vclk p s + length ms < 65536"
proof (induction p s rule: try_deliver_held_msgs.induct)
  case (1 p s)
  obtain b t where pass: "held_pass p 0 (held_msg_buffer s) s = Inr (b, t)"
    using held_pass_total [OF "1.prems"(1,2)] by blast
  show ?case
  proof (cases b)
    case False
    have q: "recv_only s t" "delivery_view t = delivery_view s"
      and n: "\<forall>h \<in> set (held_msg_buffer s). sender_pid h = p \<longrightarrow>
        check_msg_causality (vclock s) (ucast p) (ucast (rcvd_clock h)) \<noteq> Inr CAUSALITY_DELIVER"
      using held_pass_False [of p 0 "held_msg_buffer s" s t] pass False by auto
    have "nothing_deliverable p s"
      using n check_msg_causality_cases [OF "1.prems"(1), of p] "1.prems"(2,3)
      by (auto simp: nothing_deliverable_def vclk_def clk_of_def tracked_def)
    then have "nothing_deliverable p t"
      using q(2) by (simp add: nothing_deliverable_def delivery_view_def vclk_def)
    with pass False q drained_Nil "1.prems"(3) show ?thesis
      by (subst try_deliver_held_msgs.simps) force
  next
    case True
    then obtain h where h: "drained p s [h] t" "Suc (vclk p s) < 65536"
      using held_pass_drains [of p s t] pass "1.prems" by auto
    note v = vclk_drained [OF h(1) "1.prems"(2)]
    obtain u ms where u: "try_deliver_held_msgs p t = Inr u" "drained p t ms u"
        "nothing_deliverable p u" "vclk p t + length ms < 65536"
      using "1.IH" [OF pass refl True] v h(2) "1.prems"(1) by auto
    with drained_trans [OF h(1) u(2) "1.prems"(2)] h(2) v(1) have "drained p s (h # ms) u"
        "vclk p s + length (h # ms) < 65536" by auto
    with pass True u show ?thesis
      by (subst try_deliver_held_msgs.simps) auto
  qed
qed

section \<open>Advancing a sender's history\<close>

text \<open>
  \<open>advanced p s ms s'\<close>: the effect on the history of \<open>p\<close> that every delivery has,
  whatever else happened to queues, memory and the held buffer.
\<close>

definition advanced :: "u16 \<Rightarrow> node \<Rightarrow> cbcast_received_msg list \<Rightarrow> node \<Rightarrow> bool" where
  "advanced p s ms s' \<longleftrightarrow>
     pid s' = pid s \<and> peers s' = peers s \<and> sent_view s' = sent_view s \<and> delivered s' = delivered s
     \<and> socket_rx s' = socket_rx s \<and> socket_tx s' = socket_tx s \<and> rands s' = rands s
     \<and> delivery_queue s' = delivery_queue s @ ms
     \<and> (\<forall>m \<in> set ms. sender_pid m = p)
     \<and> map clk_of ms = [Suc (vclk p s)..<Suc (vclk p s + length ms)]
     \<and> vc_len (vclock s') = vc_len (vclock s)
     \<and> vc_clock (vclock s') = (vc_clock (vclock s))[unat p := of_nat (vclk p s + length ms)]"

lemma drained_advanced: "drained p s ms s' \<Longrightarrow> advanced p s ms s'"
  by (auto simp: drained_def advanced_def dest: recv_only_views)

lemma quiet_advanced: "quiet s s' \<Longrightarrow> advanced p s [] s'"
  by (simp add: advanced_def quiet_views vclk_def)

lemma vclk_advanced:
  assumes "advanced p s ms s'" "tracked p s" "vclk p s + length ms < 65536"
  shows "vclk p s' = vclk p s + length ms" "tracked p s'"
    "q \<noteq> p \<Longrightarrow> vclk q s' = vclk q s" "tracked q s' = tracked q s" "vc_wf (vclock s') = vc_wf (vclock s)"
proof -
  have "unat (of_nat (vclk p s + length ms) :: u64) = vclk p s + length ms"
    using assms(3) by (rule unat_of_nat_small)
  with assms show "vclk p s' = vclk p s + length ms" by (simp add: advanced_def vclk_def tracked_def)
  show "tracked p s'" "tracked q s' = tracked q s" "vc_wf (vclock s') = vc_wf (vclock s)"
    using assms by (simp_all add: advanced_def tracked_def vc_wf_def)
  show "vclk q s' = vclk q s" if "q \<noteq> p"
    using assms that by (simp add: advanced_def vclk_def word_unat_eq_iff)
qed

lemma advanced_trans:
  assumes "advanced p s ms t" "advanced p t ns u" "tracked p s" "vclk p s + length ms < 65536"
  shows "advanced p s (ms @ ns) u"
proof -
  note v = vclk_advanced(1) [OF assms(1,3,4)]
  have "[Suc (vclk p s)..<Suc (vclk p s + length ms + length ns)]
      = [Suc (vclk p s)..<Suc (vclk p s + length ms)]
        @ [Suc (vclk p s + length ms)..<Suc (vclk p s + length ms + length ns)]"
    using upt_add_eq_append [of "Suc (vclk p s)" "Suc (vclk p s + length ms)" "length ns"] by simp
  then show ?thesis
    using assms(1,2) v
    by (simp add: advanced_def ball_Un add.assoc add.commute add.left_commute del: upt_Suc)
qed

lemma history_advanced:
  assumes "advanced p s ms s'"
  shows "history_from p s' = history_from p s @ ms" "q \<noteq> p \<Longrightarrow> history_from q s' = history_from q s"
  using assms by (auto simp: advanced_def history_from_def filter_id_conv filter_empty_conv)

lemma fifo_ok_advanced:
  assumes ok: "fifo_ok s" and adv: "advanced p s ms s'" and p: "ucast p \<noteq> pid s" "tracked p s"
    and b: "vclk p s + length ms < 65536"
  shows "fifo_ok s'"
proof -
  note v = vclk_advanced [OF adv p(2) b] and h = history_advanced [OF adv]
  have "map clk_of (history_from p s') = [1..<Suc (vclk p s')]"
  proof -
    have "[1..<Suc (vclk p s + length ms)] = [1..<Suc (vclk p s)] @ [Suc (vclk p s)..<Suc (vclk p s + length ms)]"
      using upt_add_eq_append [of 1 "Suc (vclk p s)" "length ms"] by simp
    then show ?thesis
      using ok p v(1) h(1) adv by (simp add: fifo_ok_def advanced_def del: upt_Suc)
  qed
  moreover have "pid s' = pid s" using adv by (simp add: advanced_def)
  moreover have "if tracked q s' then map clk_of (history_from q s') = [1..<Suc (vclk q s')]
      else history_from q s' = []" if "q \<noteq> p" "ucast q \<noteq> pid s" for q
    using ok that v(3,4) [of q] h(2) [of q] by (simp add: fifo_ok_def del: upt_Suc)
  ultimately show ?thesis
    using ok v(2,5) unfolding fifo_ok_def by metis
qed

section \<open>A data message, branch by branch\<close>

definition classify :: "u16 \<Rightarrow> u16 \<Rightarrow> node \<Rightarrow> causality_t" where
  "classify p c s =
     (if \<not> tracked p s then CAUSALITY_ERROR
      else if unat c = Suc (vclk p s) then CAUSALITY_DELIVER
      else if Suc (vclk p s) < unat c then CAUSALITY_HOLD
      else CAUSALITY_ERROR)"

lemma check_is_classify:
  assumes "fifo_ok s" "ucast p \<noteq> pid s"
  shows "check_msg_causality (vclock s) (ucast p) (ucast c) = Inr (classify p c s)"
proof (cases "tracked p s")
  case True
  then show ?thesis
    using check_msg_causality_cases [of "vclock s" p c] fifo_vclk_bound [OF assms] assms(1)
    by (auto simp: classify_def fifo_ok_def vclk_def tracked_def)
next
  case False
  with assms(1) show ?thesis
    by (auto simp: classify_def check_msg_causality_def fifo_ok_def vc_wf_def tracked_def
        word_le_nat_alt)
qed

definition rcvd_of :: "cbcast_msg \<Rightarrow> u16 \<Rightarrow> cbcast_received_msg" where
  "rcvd_of msg p = \<lparr>rcvd_message = msg, sender_pid = p\<rparr>"

lemma rcvd_of_simps [simp]:
  "rcvd_message (rcvd_of msg p) = msg" "sender_pid (rcvd_of msg p) = p"
  "rcvd_clock (rcvd_of msg p) = clock (header msg)" "clk_of (rcvd_of msg p) = unat (clock (header msg))"
  by (simp_all add: rcvd_of_def rcvd_clock_def clk_of_def)

lemma cbc_received_msg_create_Inr:
  "cbc_received_msg_create msg p m = (result_new_ok r, m') \<longleftrightarrow>
     alloc_ok m (allocs m) \<and> r = rcvd_of msg p \<and> m' = snd (calloc m)"
  by (auto simp: cbc_received_msg_create_def calloc_def rcvd_of_def Let_def)

definition held_already :: "u16 \<Rightarrow> u16 \<Rightarrow> node \<Rightarrow> bool" where
  "held_already p c s \<longleftrightarrow> (\<exists>h \<in> set (held_msg_buffer s). rcvd_clock h = c \<and> sender_pid h = p)"

text \<open>The three branches after the classification, as functions of the state before them.\<close>

definition error_branch :: "cbcast_msg \<Rightarrow> u16 \<Rightarrow> node \<Rightarrow> node res" where
  "error_branch msg p s =
     (if kind (header msg) = CBC_RETRANSMIT
      then andthen (ack_received_message (clock (header msg)) p s) (\<lambda>s.
           Inr (s\<lparr>mem := cbc_received_msg_free (rcvd_of msg p) (mem s)\<rparr>))
      else RESULT_UNREACHABLE)"

definition deliver_branch :: "cbcast_msg \<Rightarrow> u16 \<Rightarrow> node \<Rightarrow> node res" where
  "deliver_branch msg p s =
     andthen (ack_received_message (clock (header msg)) p s) (\<lambda>s.
     let s = mutex_lock RECV_LOCK s in
     andthen (vc_inc (vclock s) (unat p)) (\<lambda>vc.
     let s = with_lock VCLOCK_MTX (\<lambda>s. s\<lparr>vclock := vc\<rparr>) s;
         s = s\<lparr>delivery_queue := arrput (delivery_queue s) (rcvd_of msg p)\<rparr>
     in
     andthen (if kind (header msg) = CBC_RETRANSMIT then try_deliver_held_msgs p s else Inr s) (\<lambda>s.
     Inr (mutex_unlock RECV_LOCK s))))"

definition hold_branch :: "cbcast_msg \<Rightarrow> u16 \<Rightarrow> node \<Rightarrow> node res" where
  "hold_branch msg p s =
     andthen (ack_received_message (clock (header msg)) p s) (\<lambda>s.
     let s = mutex_lock RECV_LOCK s;
         s = (if held_already p (clock (header msg)) s
              then s\<lparr>mem := cbc_received_msg_free (rcvd_of msg p) (mem s)\<rparr>
              else s\<lparr>held_msg_buffer := arrput (held_msg_buffer s) (rcvd_of msg p)\<rparr>)
     in request_retransmission p (mutex_unlock RECV_LOCK s))"

text \<open>The state at the branch: the clock was read and the received message allocated.\<close>

definition classified :: "node \<Rightarrow> node" where
  "classified s = (mutex_unlock VCLOCK_MTX (mutex_lock VCLOCK_MTX s))\<lparr>mem := snd (calloc (mem s))\<rparr>"

lemma classified_quiet [simp]: "quiet s (classified s)"
  unfolding classified_def using quiet_steps quiet_trans by metis

lemma classified_fields [simp]:
  "mem (classified s) = snd (calloc (mem s))" "send_queue (classified s) = send_queue s"
  "peers (classified s) = peers s"
  by (simp_all add: classified_def mutex_lock_def mutex_unlock_def)

lemma handle_data_msg_branches:
  assumes ok: "fifo_ok s" "ucast p \<noteq> pid s"
  shows "handle_data_msg msg p s =
    (if \<not> alloc_ok (mem s) (allocs (mem s))
     then Inl (Exit_failure (''[cbc_received_msg_create] Memory allocation failed: cbcast_msg_t should be convertible to cbcast_received_msg_t''))
     else case classify p (clock (header msg)) s of
       CAUSALITY_ERROR \<Rightarrow> error_branch msg p (classified s)
     | CAUSALITY_DELIVER \<Rightarrow> deliver_branch msg p (classified s)
     | CAUSALITY_HOLD \<Rightarrow> hold_branch msg p (classified s))"
proof (cases "alloc_ok (mem s) (allocs (mem s))")
  case True
  then have "cbc_received_msg_create msg p (mem s) = (result_new_ok (rcvd_of msg p), snd (calloc (mem s)))"
    by (simp add: cbc_received_msg_create_Inr)
  with True show ?thesis
    by (simp add: handle_data_msg_def check_is_classify [OF ok] classified_def error_branch_def
        deliver_branch_def hold_branch_def held_already_def Let_def split: causality_t.split)
next
  case False
  then have "cbc_received_msg_create msg p (mem s) =
      (result_new_err ''[cbc_received_msg_create] Memory allocation failed'', snd (calloc (mem s)))"
    by (simp add: cbc_received_msg_create_def calloc_def)
  with False show ?thesis
    by (simp add: handle_data_msg_def check_is_classify [OF ok] result_expect_def result_new_err_def)
qed

section \<open>The effect of each branch\<close>

lemma error_branch_Inr:
  assumes "error_branch msg p s = Inr s'"
  shows "quiet s s'" "kind (header msg) = CBC_RETRANSMIT"
    "send_queue s' = send_queue s @ answer CBC_ACK (clock (header msg)) p (peers s)"
proof -
  from assms obtain t where k: "kind (header msg) = CBC_RETRANSMIT"
    and t: "ack_received_message (clock (header msg)) p s = Inr t"
    and s': "s' = t\<lparr>mem := cbc_received_msg_free (rcvd_of msg p) (mem t)\<rparr>"
    by (auto simp: error_branch_def split: if_splits)
  show "kind (header msg) = CBC_RETRANSMIT" by (rule k)
  show "quiet s s'" unfolding s' using ack_received_message_Inr(1) [OF t] quiet_steps(3) quiet_trans by metis
  show "send_queue s' = send_queue s @ answer CBC_ACK (clock (header msg)) p (peers s)"
    using ack_received_message_Inr(2) [OF t] by (simp add: s')
qed

text \<open>
  One message appended to the delivery queue and its sender's entry incremented, the common
  step of both kinds.
\<close>

definition deliver_one :: "cbcast_received_msg \<Rightarrow> node \<Rightarrow> node" where
  "deliver_one r s = s\<lparr>lock_trace := lock_trace s @ [Lock RECV_LOCK, Lock VCLOCK_MTX, Unlock VCLOCK_MTX],
     vclock := (vclock s)\<lparr>vc_clock := (vc_clock (vclock s))[unat (sender_pid r)
        := vc_clock (vclock s) ! unat (sender_pid r) + 1]\<rparr>,
     delivery_queue := delivery_queue s @ [r]\<rparr>"

lemma deliver_one_simps [simp]:
  "held_msg_buffer (deliver_one r s) = held_msg_buffer s" "send_queue (deliver_one r s) = send_queue s"
  "peers (deliver_one r s) = peers s" "pid (deliver_one r s) = pid s" "mem (deliver_one r s) = mem s"
  "sent_view (deliver_one r s) = sent_view s" "delivered (deliver_one r s) = delivered s"
  "delivery_queue (deliver_one r s) = delivery_queue s @ [r]"
  "vc_len (vclock (deliver_one r s)) = vc_len (vclock s)"
  "socket_rx (deliver_one r s) = socket_rx s" "socket_tx (deliver_one r s) = socket_tx s"
  "rands (deliver_one r s) = rands s"
  "vc_clock (vclock (deliver_one r s)) = (vc_clock (vclock s))[unat (sender_pid r) :=
     vc_clock (vclock s) ! unat (sender_pid r) + 1]"
  by (simp_all add: deliver_one_def sent_view_def)

lemma deliver_one_advanced:
  assumes "sender_pid r = p" "clk_of r = Suc (vclk p s)"
  shows "advanced p s [r] (deliver_one r s)"
proof -
  have "(of_nat (vclk p s + length [r]) :: u64) = vc_clock (vclock s) ! unat p + 1"
    by (simp add: vclk_def)
  moreover have "map clk_of [r] = [Suc (vclk p s)..<Suc (vclk p s + length [r])]"
    using assms(2) by simp
  moreover have "\<forall>m \<in> set [r]. sender_pid m = p" using assms(1) by simp
  ultimately show ?thesis
    unfolding advanced_def by (simp only: deliver_one_simps assms(1))
qed

lemma deliver_branch_eq:
  "deliver_branch msg p s =
     andthen (ack_received_message (clock (header msg)) p s) (\<lambda>t.
       if tracked p t
       then andthen (if kind (header msg) = CBC_RETRANSMIT
                     then try_deliver_held_msgs p (deliver_one (rcvd_of msg p) t)
                     else Inr (deliver_one (rcvd_of msg p) t)) (\<lambda>s. Inr (mutex_unlock RECV_LOCK s))
       else Inl (Undefined_behaviour ''vector clock index''))"
proof -
  have one: "(with_lock VCLOCK_MTX (\<lambda>s. s\<lparr>vclock := vc\<rparr>) (mutex_lock RECV_LOCK t))
      \<lparr>delivery_queue := arrput (delivery_queue (with_lock VCLOCK_MTX (\<lambda>s. s\<lparr>vclock := vc\<rparr>) (mutex_lock RECV_LOCK t))) (rcvd_of msg p)\<rparr>
      = deliver_one (rcvd_of msg p) t"
    if "vc = (vclock t)\<lparr>vc_clock := (vc_clock (vclock t))[unat p := vc_clock (vclock t) ! unat p + 1]\<rparr>" for vc t
    using that by (simp add: with_lock_def mutex_lock_def mutex_unlock_def deliver_one_def arrput_def)
  show ?thesis
    unfolding deliver_branch_def
    by (rule andthen_cong [OF refl]) (simp add: Let_def vc_inc_def tracked_def one)
qed

lemma quiet_vclk:
  "quiet s s' \<Longrightarrow> vclk p s' = vclk p s" "quiet s s' \<Longrightarrow> tracked p s' = tracked p s"
  "quiet s s' \<Longrightarrow> fifo_ok s' = fifo_ok s" "quiet s s' \<Longrightarrow> held_ok s' = held_ok s"
  "quiet s s' \<Longrightarrow> classify p c s' = classify p c s" "quiet s s' \<Longrightarrow> held_already p c s' = held_already p c s"
  "quiet s s' \<Longrightarrow> nothing_deliverable p s' = nothing_deliverable p s"
  by (simp_all add: delivery_view_cong [OF quiet_views(1)] quiet_views(7) classify_def
      held_already_def nothing_deliverable_def)

definition delivered_by :: "cbcast_msg \<Rightarrow> u16 \<Rightarrow> node \<Rightarrow> node \<Rightarrow> bool" where
  "delivered_by msg p s s' \<longleftrightarrow> (\<exists>ms.
     advanced p s (rcvd_of msg p # ms) s'
     \<and> vclk p s + length (rcvd_of msg p # ms) < 65536
     \<and> mset (held_msg_buffer s) = mset (held_msg_buffer s') + mset ms
     \<and> (if kind (header msg) = CBC_RETRANSMIT then nothing_deliverable p s'
        else ms = [] \<and> held_msg_buffer s' = held_msg_buffer s)
     \<and> alloc_ok (mem s') = alloc_ok (mem s)
     \<and> send_queue s' = send_queue s @ answer CBC_ACK (clock (header msg)) p (peers s))"

lemma deliver_after_ack:
  assumes wf: "vc_wf (vclock t)" and p: "tracked p t" and c: "unat (clock (header msg)) = Suc (vclk p t)"
  shows "\<exists>u ms. (if kind (header msg) = CBC_RETRANSMIT
            then try_deliver_held_msgs p (deliver_one (rcvd_of msg p) t)
            else Inr (deliver_one (rcvd_of msg p) t)) = Inr u
      \<and> advanced p t (rcvd_of msg p # ms) u \<and> vclk p t + length (rcvd_of msg p # ms) < 65536
      \<and> mset (held_msg_buffer t) = mset (held_msg_buffer u) + mset ms
      \<and> (if kind (header msg) = CBC_RETRANSMIT then nothing_deliverable p u
         else ms = [] \<and> held_msg_buffer u = held_msg_buffer t)
      \<and> send_queue u = send_queue t \<and> peers u = peers t \<and> mem u = mem t"
proof -
  let ?r = "rcvd_of msg p" and ?d = "deliver_one (rcvd_of msg p) t"
  have small: "vclk p t + length [?r] < 65536" using c unat_u16_less [of "clock (header msg)"] by simp
  have one: "advanced p t [?r] ?d" using c by (intro deliver_one_advanced) simp_all
  note v = vclk_advanced [OF one p small]
  show ?thesis
  proof (cases "kind (header msg) = CBC_RETRANSMIT")
    case True
    obtain u ms where u: "try_deliver_held_msgs p ?d = Inr u" "drained p ?d ms u"
        "nothing_deliverable p u" "vclk p ?d + length ms < 65536"
      using try_deliver_drains [of ?d p] v(1,2,5) wf small by auto
    have "advanced p t ([?r] @ ms) u"
      using advanced_trans [OF one drained_advanced [OF u(2)] p small] .
    with u v True show ?thesis
      by (intro exI [of _ u] exI [of _ ms]) (auto simp: drained_def dest: recv_only_views)
  next
    case False
    with one small show ?thesis by (intro exI [of _ ?d] exI [of _ "[]"]) simp
  qed
qed

lemma advanced_after_quiet:
  assumes "quiet s t" "advanced p t ms u" shows "advanced p s ms u"
  using assms quiet_views [OF assms(1)] quiet_vclk(1) [OF assms(1), of p] by (simp add: advanced_def)

lemma advanced_unlock [simp]: "advanced p s ms (mutex_unlock l u) = advanced p s ms u"
  by (simp add: advanced_def)

lemma nothing_deliverable_unlock [simp]:
  "nothing_deliverable p (mutex_unlock l u) = nothing_deliverable p u"
  by (simp add: nothing_deliverable_def vclk_def)

lemma deliver_branch_spec:
  assumes ok: "fifo_ok s" and c: "classify p (clock (header msg)) s = CAUSALITY_DELIVER"
  shows "deliver_branch msg p s = Inr s' \<Longrightarrow> delivered_by msg p s s'"
    "ack_received_message (clock (header msg)) p s = Inr t \<Longrightarrow> \<exists>s'. deliver_branch msg p s = Inr s'"
proof -
  have *: "\<exists>s'. deliver_branch msg p s = Inr s' \<and> delivered_by msg p s s'"
    if t: "ack_received_message (clock (header msg)) p s = Inr t" for t
  proof -
    note a = ack_received_message_Inr [OF t]
    have "vc_wf (vclock t)" "tracked p t" "unat (clock (header msg)) = Suc (vclk p t)"
      using ok c a(1) quiet_views(4) [OF a(1)] quiet_vclk(1,2) [OF a(1)]
      by (auto simp: classify_def fifo_ok_def split: if_splits)
    with deliver_after_ack [of t p msg] obtain u ms where u:
      "(if kind (header msg) = CBC_RETRANSMIT
            then try_deliver_held_msgs p (deliver_one (rcvd_of msg p) t)
            else Inr (deliver_one (rcvd_of msg p) t)) = Inr u"
      "advanced p t (rcvd_of msg p # ms) u" "vclk p t + length (rcvd_of msg p # ms) < 65536"
      "mset (held_msg_buffer t) = mset (held_msg_buffer u) + mset ms"
      "if kind (header msg) = CBC_RETRANSMIT then nothing_deliverable p u
         else ms = [] \<and> held_msg_buffer u = held_msg_buffer t"
      "send_queue u = send_queue t" "peers u = peers t" "mem u = mem t" by blast
    have "deliver_branch msg p s = Inr (mutex_unlock RECV_LOCK u)"
      unfolding deliver_branch_eq using t \<open>tracked p t\<close> u(1) by simp
    moreover have "delivered_by msg p s (mutex_unlock RECV_LOCK u)"
      unfolding delivered_by_def
      using u(2-8) a(2,3) quiet_views [OF a(1)] quiet_vclk(1) [OF a(1), of p] advanced_after_quiet [OF a(1)]
      by (intro exI [of _ ms]) simp
    ultimately show ?thesis by blast
  qed
  show "deliver_branch msg p s = Inr s' \<Longrightarrow> delivered_by msg p s s'"
    using * by (auto simp: deliver_branch_eq)
  show "ack_received_message (clock (header msg)) p s = Inr t \<Longrightarrow> \<exists>s'. deliver_branch msg p s = Inr s'"
    using * by blast
qed

definition held_by :: "cbcast_msg \<Rightarrow> u16 \<Rightarrow> node \<Rightarrow> node \<Rightarrow> bool" where
  "held_by msg p s s' \<longleftrightarrow>
     pid s' = pid s \<and> peers s' = peers s \<and> sent_view s' = sent_view s
     \<and> socket_rx s' = socket_rx s \<and> socket_tx s' = socket_tx s
     \<and> vclock s' = vclock s \<and> delivery_queue s' = delivery_queue s \<and> delivered s' = delivered s
     \<and> held_msg_buffer s' = (if held_already p (clock (header msg)) s then held_msg_buffer s
                            else held_msg_buffer s @ [rcvd_of msg p])
     \<and> send_queue s' = send_queue s @ answer CBC_ACK (clock (header msg)) p (peers s)
          @ answer CBC_RETRANSMIT_REQ (ucast (vc_clock (vclock s) ! unat p + 1)) p (peers s)"

lemma hold_branch_Inr:
  assumes "hold_branch msg p s = Inr s'"
  shows "held_by msg p s s'"
proof -
  from assms obtain t where t: "ack_received_message (clock (header msg)) p s = Inr t"
    and r: "request_retransmission p (mutex_unlock RECV_LOCK
       (if held_already p (clock (header msg)) (mutex_lock RECV_LOCK t)
        then (mutex_lock RECV_LOCK t)\<lparr>mem := cbc_received_msg_free (rcvd_of msg p) (mem (mutex_lock RECV_LOCK t))\<rparr>
        else (mutex_lock RECV_LOCK t)\<lparr>held_msg_buffer := arrput (held_msg_buffer (mutex_lock RECV_LOCK t)) (rcvd_of msg p)\<rparr>)) = Inr s'"
      (is "request_retransmission p ?u = _")
    by (auto simp: hold_branch_def Let_def)
  note a = ack_received_message_Inr [OF t] and rr = request_retransmission_Inr [OF r]
  have u: "vclock ?u = vclock s" "delivery_queue ?u = delivery_queue s" "delivered ?u = delivered s"
      "pid ?u = pid s" "peers ?u = peers s" "sent_view ?u = sent_view s" "send_queue ?u = send_queue t"
      "socket_rx ?u = socket_rx s" "socket_tx ?u = socket_tx s"
      "held_msg_buffer ?u = (if held_already p (clock (header msg)) s then held_msg_buffer s
          else held_msg_buffer s @ [rcvd_of msg p])"
    using quiet_views [OF a(1)] by (auto simp: arrput_def held_already_def sent_view_def)
  show ?thesis
    unfolding held_by_def using quiet_views [OF rr(1)] rr(3) a(2) u by simp
qed

text \<open>What a call of \<open>handle_data_msg\<close> that returns has done.\<close>

lemma handle_data_msg_Inr:
  assumes ok: "fifo_ok s" "ucast p \<noteq> pid s" and run: "handle_data_msg msg p s = Inr s'"
  shows "case classify p (clock (header msg)) s of
      CAUSALITY_ERROR \<Rightarrow> quiet s s' \<and> kind (header msg) = CBC_RETRANSMIT
        \<and> send_queue s' = send_queue s @ answer CBC_ACK (clock (header msg)) p (peers s)
    | CAUSALITY_DELIVER \<Rightarrow> delivered_by msg p s s'
    | CAUSALITY_HOLD \<Rightarrow> held_by msg p s s'"
proof -
  note q = classified_quiet [of s]
  have "fifo_ok (classified s)" "classify p c (classified s) = classify p c s" for c
    using ok quiet_vclk [OF q] by auto
  moreover have "alloc_ok (mem (classified s)) = alloc_ok (mem s)" by (simp add: calloc_def)
  then have "delivered_by msg p (classified s) s' = delivered_by msg p s s'"
    unfolding delivered_by_def advanced_def
    using quiet_views [OF q] quiet_vclk(1) [OF q] by simp
  moreover have "held_by msg p (classified s) s' = held_by msg p s s'"
    unfolding held_by_def using quiet_views [OF q] quiet_vclk(6) [OF q] by simp
  ultimately show ?thesis
    using run quiet_trans [OF q] error_branch_Inr [of msg p "classified s" s']
      deliver_branch_spec(1) [of "classified s" p msg s'] hold_branch_Inr [of msg p "classified s" s']
    unfolding handle_data_msg_branches [OF ok]
    by (auto split: causality_t.splits if_splits)
qed

section \<open>The invariants are kept\<close>

lemma held_ok_mset:
  "mset (held_msg_buffer s) = mset (held_msg_buffer s') + mset ms \<Longrightarrow> held_ok s \<Longrightarrow> held_ok s'"
proof -
  assume m: "mset (held_msg_buffer s) = mset (held_msg_buffer s') + mset ms" and h: "held_ok s"
  let ?k = "\<lambda>h. (sender_pid h, rcvd_clock h)"
  have "mset (map ?k (held_msg_buffer s)) = mset (map ?k (held_msg_buffer s' @ ms))"
    by (simp only: mset_map mset_append image_mset_union m)
  then have "distinct (map ?k (held_msg_buffer s' @ ms))"
    using h mset_eq_imp_distinct_iff unfolding held_ok_def by blast
  then show "held_ok s'" by (simp add: held_ok_def)
qed

lemma fifo_ok_held_by:
  assumes h: "held_by msg p s s'" and ok: "fifo_ok s" shows "fifo_ok s'"
proof -
  have "pid s' = pid s" "vclock s' = vclock s" "history_from q s' = history_from q s"
    "vclk q s' = vclk q s" "tracked q s' = tracked q s" for q
    using h by (simp_all add: held_by_def history_from_def vclk_def tracked_def)
  then show ?thesis using ok unfolding fifo_ok_def by metis
qed

lemma held_ok_held_by:
  assumes "held_by msg p s s'" "held_ok s" shows "held_ok s'"
  using assms by (auto simp: held_by_def held_ok_def held_already_def)

lemma classify_tracked: "classify p c s \<noteq> CAUSALITY_ERROR \<Longrightarrow> tracked p s"
  by (auto simp: classify_def split: if_splits)

lemma handle_data_msg_keeps:
  assumes ok: "fifo_ok s" "ucast p \<noteq> pid s" and run: "handle_data_msg msg p s = Inr s'"
  shows "fifo_ok s'" "held_ok s \<Longrightarrow> held_ok s'" "pid s' = pid s" "peers s' = peers s"
    "sent_view s' = sent_view s"
proof -
  note e = handle_data_msg_Inr [OF ok run]
  have *: "fifo_ok s' \<and> (held_ok s \<longrightarrow> held_ok s') \<and> pid s' = pid s \<and> peers s' = peers s
      \<and> sent_view s' = sent_view s"
  proof (cases "classify p (clock (header msg)) s")
    case CAUSALITY_ERROR
    with e have "quiet s s'" by simp
    then show ?thesis using ok(1) quiet_views quiet_vclk by auto
  next
    case CAUSALITY_DELIVER
    with e obtain ms where ms: "advanced p s (rcvd_of msg p # ms) s'"
        "vclk p s + length (rcvd_of msg p # ms) < 65536"
        "mset (held_msg_buffer s) = mset (held_msg_buffer s') + mset ms"
      by (auto simp: delivered_by_def)
    have "tracked p s" using classify_tracked [of p "clock (header msg)" s] CAUSALITY_DELIVER by simp
    then have "fifo_ok s'" using fifo_ok_advanced [OF ok(1) ms(1) ok(2) _ ms(2)] by blast
    moreover have "pid s' = pid s" "peers s' = peers s" "sent_view s' = sent_view s"
      using ms(1) unfolding advanced_def by blast+
    ultimately show ?thesis using held_ok_mset [OF ms(3)] by blast
  next
    case CAUSALITY_HOLD
    with e have "held_by msg p s s'" by simp
    with ok(1) show ?thesis
      using fifo_ok_held_by held_ok_held_by by (auto simp: held_by_def)
  qed
  then show "fifo_ok s'" "held_ok s \<Longrightarrow> held_ok s'" "pid s' = pid s" "peers s' = peers s"
    "sent_view s' = sent_view s" by blast+
qed

section \<open>Properties\<close>

lemma initial_fifo_ok: "n < 65536 \<Longrightarrow> fifo_ok (new_node m rs p n ps)"
  by (auto simp: fifo_ok_def vc_wf_def history_from_def tracked_def vclk_def unat_of_nat_small)

text \<open>A data message of one byte, as received from \<open>p\<close> with clock \<open>c\<close>.\<close>

definition one_byte :: "cbcast_msg_kind \<Rightarrow> u16 \<Rightarrow> cbcast_msg" where
  "one_byte k c = \<lparr>header = \<lparr>kind = k, clock = c, len = 1\<rparr>, payload = Some [65, 0]\<rparr>"

lemma one_byte_simps [simp]:
  "kind (header (one_byte k c)) = k" "clock (header (one_byte k c)) = c" "len (header (one_byte k c)) = 1"
  "payload (one_byte k c) = Some [65, 0]"
  by (simp_all add: one_byte_def)

lemma one_byte_wf [simp]: "k = CBC_DATA \<or> k = CBC_RETRANSMIT \<Longrightarrow> msg_wf (one_byte k c)"
  by (auto simp: one_byte_def msg_wf_def payload_wf_def header_only_def)

text \<open>
  The causality test, for every vector clock, every peer and every clock value without
  wrap-around of the counter: it never reads out of range, and it answers deliver for the next
  clock of a tracked peer, hold for a later one, and error for an old one or an untracked peer.
\<close>

theorem check_msg_causality_table:
  assumes "vc_wf vc" and "unat peer < length (vc_clock vc) \<Longrightarrow> unat (vc_clock vc ! unat peer) < 2 ^ 64 - 1"
  shows "check_msg_causality vc peer clk = Inr
    (if length (vc_clock vc) \<le> unat peer then CAUSALITY_ERROR
     else if unat clk = Suc (unat (vc_clock vc ! unat peer)) then CAUSALITY_DELIVER
     else if Suc (unat (vc_clock vc ! unat peer)) < unat clk then CAUSALITY_HOLD
     else CAUSALITY_ERROR)"
proof (cases "unat peer < length (vc_clock vc)")
  case True
  let ?c = "vc_clock vc ! unat peer"
  have s: "unat (?c + 1) = Suc (unat ?c)"
    using assms(2) [OF True] by (simp add: unat_word_ariths)
  then have "?c + 1 = clk \<longleftrightarrow> unat clk = Suc (unat ?c)" "?c + 1 < clk \<longleftrightarrow> Suc (unat ?c) < unat clk"
    by (auto simp: word_unat_eq_iff word_less_nat_alt)
  moreover have "\<not> vc_len vc \<le> peer" using True assms(1) by (simp add: vc_wf_def word_le_nat_alt)
  ultimately show ?thesis using True by (simp add: check_msg_causality_def vc_read_def)
next
  case False
  then have "vc_len vc \<le> peer" using assms(1) by (simp add: vc_wf_def word_le_nat_alt)
  with False show ?thesis by (simp add: check_msg_causality_def)
qed

theorem check_msg_causality_table_witness:
  "check_msg_causality \<lparr>vc_clock = [4, 7], vc_len = 2\<rparr> 1 9 = Inr CAUSALITY_HOLD"
  using check_msg_causality_table [of "\<lparr>vc_clock = [4, 7], vc_len = 2\<rparr>" 1 9] by (simp add: vc_wf_def)

text \<open>
  C6: try_deliver_held_msgs always terminates and drains: it moves from the held buffer to the
  end of the delivery queue messages of the sender whose clocks continue the sender's entry of
  the vector clock without a gap, advances the entry past them, loses and copies nothing, and
  leaves no message of the sender that could be delivered next.
\<close>

theorem try_deliver_complete:
  assumes "vc_wf (vclock s)" "tracked p s" "vclk p s < 65536"
  shows "\<exists>s' ms. try_deliver_held_msgs p s = Inr s'
     \<and> delivery_queue s' = delivery_queue s @ ms
     \<and> mset (held_msg_buffer s) = mset (held_msg_buffer s') + mset ms
     \<and> sender_pid ` set ms \<subseteq> {p} \<and> map clk_of ms = [Suc (vclk p s)..<Suc (vclk p s + length ms)]
     \<and> vclk p s' = vclk p s + length ms
     \<and> nothing_deliverable p s'"
proof -
  obtain s' ms where r: "try_deliver_held_msgs p s = Inr s'" "drained p s ms s'" "nothing_deliverable p s'"
      "vclk p s + length ms < 65536"
    using try_deliver_drains [OF assms] by blast
  have "vclk p s' = vclk p s + length ms" using vclk_drained(1) [OF r(2) assms(2) r(4)] .
  with r show ?thesis unfolding drained_def by blast
qed

definition held_example :: node where
  "held_example = (initial_node 0 5 [worker_peer 1])\<lparr>held_msg_buffer :=
     [rcvd_of (one_byte CBC_DATA 2) 1, rcvd_of (one_byte CBC_DATA 1) 1, rcvd_of (one_byte CBC_DATA 4) 1]\<rparr>"

theorem try_deliver_complete_witness:
  "\<exists>s' ms. try_deliver_held_msgs 1 held_example = Inr s'
     \<and> delivery_queue s' = delivery_queue held_example @ ms
     \<and> mset (held_msg_buffer held_example) = mset (held_msg_buffer s') + mset ms
     \<and> sender_pid ` set ms \<subseteq> {1} \<and> map clk_of ms = [Suc (vclk 1 held_example)..<Suc (vclk 1 held_example + length ms)]
     \<and> vclk 1 s' = vclk 1 held_example + length ms
     \<and> nothing_deliverable 1 s'"
  by (rule try_deliver_complete) (simp_all add: held_example_def vc_wf_def tracked_def vclk_def)

end
