(* ===== verification/Send.thy ===== *)
theory Send
  imports Receive
begin

text \<open>
  \<open>src/cbcast/send.c\<close>: sending, retransmission and the detection of dead peers.

  \<open>cbc_send\<close> puts a data message with the next clock on the send queue and then calls
  \<open>handle_old_messages\<close>: sent messages at least 2 clocks old with missing acknowledgements
  are retransmitted, and at 6 clocks the peers that have not acknowledged them are marked
  dead. \<open>cbc_send_iteration\<close> is one round of the send thread. Arrays of sent messages are
  arrays of pointers, so every access goes through \<open>read_sent\<close>; a NULL array is the empty
  list.
\<close>

section \<open>Old messages\<close>

definition CBC_OLD_MSG_THRESHOLD :: u16 where
  "CBC_OLD_MSG_THRESHOLD = 2"

definition CBC_DEAD_MSG_THRESHOLD :: u16 where
  "CBC_DEAD_MSG_THRESHOLD = 6"

definition get_current_clock :: "node \<Rightarrow> (u16 \<times> node) res" where
  "get_current_clock s =
     (let s = mutex_lock VCLOCK_MTX s in
      andthen (vc_read (vclock s) (unat (pid s))) (\<lambda>c. Inr (ucast c, mutex_unlock VCLOCK_MTX s)))"

fun find_old_loop :: "u16 \<Rightarrow> ptr list \<Rightarrow> ptr list \<Rightarrow> node \<Rightarrow> ptr list res" where
  "find_old_loop current_clock [] old_msgs s = Inr old_msgs"
| "find_old_loop current_clock (p # ps) old_msgs s =
     andthen (read_sent p s) (\<lambda>sent_msg.
     let msg_age = current_clock - clock (header (sent_message sent_msg)) in
     find_old_loop current_clock ps
       (if msg_age \<ge> CBC_OLD_MSG_THRESHOLD \<and> ack_bitmap sent_msg \<noteq> ack_target sent_msg
        then arrput old_msgs p else old_msgs) s)"

definition find_old_messages :: "u16 \<Rightarrow> node \<Rightarrow> (ptr list \<times> node) res" where
  "find_old_messages current_clock s =
     (let s = mutex_lock SEND_LOCK s in
      andthen (find_old_loop current_clock (sent_msg_buffer s) [] s) (\<lambda>old_msgs.
      Inr (old_msgs, mutex_unlock SEND_LOCK s)))"

text \<open>The clock parameter is 64 bits wide; the age is cut to 16 bits.\<close>

definition is_dead_msg :: "u64 \<Rightarrow> cbcast_sent_msg \<Rightarrow> bool" where
  "is_dead_msg current_clock old_sent =
     ((ucast (current_clock - ucast (clock (header (sent_message old_sent)))) :: u16)
        \<ge> CBC_DEAD_MSG_THRESHOLD)"

function filter_dead_loop ::
  "u64 \<Rightarrow> ptr list \<Rightarrow> ptr list \<Rightarrow> node \<Rightarrow> (ptr list \<times> ptr list) res" where
  "filter_dead_loop current_clock old_msgs dead_msgs s =
     andthen (find_sent (is_dead_msg current_clock) 0 old_msgs s) (\<lambda>idx.
     case idx of
       None \<Rightarrow> Inr (dead_msgs, old_msgs)
     | Some i \<Rightarrow> filter_dead_loop current_clock (arrdel old_msgs i) (arrput dead_msgs (old_msgs ! i)) s)"
  by pat_completeness auto
termination
  by (relation "measure (\<lambda>(c, old, dead, s). length old)") (auto dest: find_sent_lt)

declare filter_dead_loop.simps [simp del]

text \<open>The messages found dead, and the array of old messages without them.\<close>

definition filter_dead_messages :: "u64 \<Rightarrow> ptr list \<Rightarrow> node \<Rightarrow> (ptr list \<times> ptr list) res" where
  "filter_dead_messages current_clock old_msgs s = filter_dead_loop current_clock old_msgs [] s"

section \<open>Peers with missing acknowledgements\<close>

fun unacked_loop :: "ptr \<Rightarrow> cbcast_peer list \<Rightarrow> u64 list \<Rightarrow> node \<Rightarrow> u64 list res" where
  "unacked_loop old_sent [] target_peers s = Inr target_peers"
| "unacked_loop old_sent (q # qs) target_peers s =
     andthen (read_sent old_sent s) (\<lambda>m.
     andthen (shl1 (unat (peer_pid q))) (\<lambda>bit.
     unacked_loop old_sent qs
       (if ack_bitmap m AND bit \<noteq> 0 then target_peers else arrput target_peers (peer_pid q)) s))"

definition find_unacked_peers :: "ptr \<Rightarrow> node \<Rightarrow> (u64 list \<times> node) res" where
  "find_unacked_peers old_sent s =
     (let s = mutex_lock PEER_LOCK s in
      andthen (unacked_loop old_sent (peers s) [] s) (\<lambda>target_peers.
      Inr (target_peers, mutex_unlock PEER_LOCK s)))"

definition arrfind :: "u64 list \<Rightarrow> u64 \<Rightarrow> int" where
  "arrfind arr fd = (case first_index (\<lambda>x. x = fd) arr of Some i \<Rightarrow> int i | None \<Rightarrow> -1)"

text \<open>A message that no peer has left unacknowledged ends the search with NULL.\<close>

fun find_dead_loop :: "ptr list \<Rightarrow> u64 list \<Rightarrow> node \<Rightarrow> (u64 list \<times> node) res" where
  "find_dead_loop [] dead_peers s = Inr (dead_peers, s)"
| "find_dead_loop (old_sent # dead_msgs) dead_peers s =
     andthen (find_unacked_peers old_sent s) (\<lambda>(target_peers, s).
     if target_peers = [] then Inr ([], s)
     else find_dead_loop dead_msgs
            (foldl (\<lambda>ds t. if arrfind ds t = -1 then arrput ds t else ds) dead_peers target_peers) s)"

definition find_dead_peers :: "ptr list \<Rightarrow> node \<Rightarrow> (u64 list \<times> node) res" where
  "find_dead_peers dead_msgs s = find_dead_loop dead_msgs [] s"

section \<open>Dead peers\<close>

definition mark_dead :: "u64 list \<Rightarrow> cbcast_peer list \<Rightarrow> cbcast_peer list" where
  "mark_dead dead_peers ps =
     map (\<lambda>q. if arrfind dead_peers (peer_pid q) \<noteq> -1 then q\<lparr>peer_status := CBC_PEER_DEAD\<rparr> else q) ps"

fun or_bits :: "u64 list \<Rightarrow> u64 \<Rightarrow> u64 res" where
  "or_bits [] b = Inr b"
| "or_bits (d # ds) b = andthen (shl1 (unat d)) (\<lambda>bit. or_bits ds (b OR bit))"

fun mark_acked :: "u64 list \<Rightarrow> ptr list \<Rightarrow> node \<Rightarrow> node res" where
  "mark_acked dead_peers [] s = Inr s"
| "mark_acked dead_peers (p # ps) s =
     andthen (read_sent p s) (\<lambda>m.
     andthen (or_bits dead_peers (ack_bitmap m)) (\<lambda>b.
     mark_acked dead_peers ps (s\<lparr>sent_heap := (sent_heap s)(p \<mapsto> m\<lparr>ack_bitmap := b\<rparr>)\<rparr>)))"

text \<open>The messages that count as acknowledged leave the buffer; they are not freed.\<close>

function purge_acked :: "node \<Rightarrow> node res" where
  "purge_acked s =
     andthen (find_sent (\<lambda>m. ack_bitmap m = ack_target m) 0 (sent_msg_buffer s) s) (\<lambda>idx.
     case idx of
       None \<Rightarrow> Inr s
     | Some i \<Rightarrow> purge_acked (s\<lparr>sent_msg_buffer := arrdel (sent_msg_buffer s) i\<rparr>))"
  by pat_completeness auto
termination
  by (relation "measure (\<lambda>s. length (sent_msg_buffer s))") (auto dest: find_sent_lt)

declare purge_acked.simps [simp del]

definition handle_dead_peers :: "u64 list \<Rightarrow> node \<Rightarrow> node res" where
  "handle_dead_peers dead_peers s =
     (if dead_peers = [] then RESULT_UNREACHABLE
      else
        let s = mutex_lock PEER_LOCK s in
        if peers s = [] then RESULT_UNREACHABLE
        else
          let total_peers = int (length (peers s));
              remaining_peers = int (length (peers s)) - int (length dead_peers);
              s = mutex_unlock PEER_LOCK s;
              s = (if remaining_peers < 1 then s\<lparr>state := CBC_DISCONNECTED\<rparr> else s);
              s = (if remaining_peers < total_peers div 2 then s\<lparr>state := CBC_DISCONNECTED\<rparr> else s);
              s = mutex_lock PEER_LOCK (mutex_lock RECV_LOCK (mutex_lock SEND_LOCK s));
              s = s\<lparr>peers := mark_dead dead_peers (peers s)\<rparr>
          in
          andthen (mark_acked dead_peers (sent_msg_buffer s) s) (\<lambda>s.
          andthen (purge_acked s) (\<lambda>s.
          Inr (mutex_unlock SEND_LOCK (mutex_unlock RECV_LOCK (mutex_unlock PEER_LOCK s))))))"

section \<open>Retransmission\<close>

text \<open>
  The body of the loop over the targets for index \<open>j\<close>, and the loop from index \<open>j\<close> on.
  The progress message that the body prints reads \<open>peers[j]\<close>.
\<close>

definition queue_retransmit_one :: "nat \<Rightarrow> ptr \<Rightarrow> u64 \<Rightarrow> node \<Rightarrow> node res" where
  "queue_retransmit_one j old_sent t s =
     andthen (cbc_peer_get_addr_copy t s) (\<lambda>(addr, s).
     andthen (read_sent old_sent s) (\<lambda>m.
     andthen (cbc_msg_create CBC_RETRANSMIT (payload (sent_message m))
                (len (header (sent_message m))) (mem s)) (\<lambda>(r, mm).
     andthen (result_expect r
       ''[retransmit_old_with_missing_acks] Failed to create retransmit message - out of memory'')
       (\<lambda>dup_msg.
     let (r, mm) = cbc_outgoing_msg_create dup_msg addr mm in
     andthen (result_expect r
       ''[retransmit_old_with_missing_acks] Failed to create outgoing message - out of memory'')
       (\<lambda>outgoing.
     if j \<ge> length (peers s) then Inl (Undefined_behaviour ''peers[j]'')
     else
       let outgoing = outgoing\<lparr>socket_flags := 0,
             out_message := set_clock (clock (header (sent_message m))) (out_message outgoing)\<rparr>
       in Inr (enqueue_outgoing outgoing (s\<lparr>mem := mm\<rparr>)))))))"

fun queue_retransmit_messages :: "nat \<Rightarrow> ptr \<Rightarrow> u64 list \<Rightarrow> node \<Rightarrow> node res" where
  "queue_retransmit_messages j old_sent [] s = Inr s"
| "queue_retransmit_messages j old_sent (t # target_peers) s =
     andthen (queue_retransmit_one j old_sent t s) (queue_retransmit_messages (Suc j) old_sent target_peers)"

function retransmit_messages :: "ptr list \<Rightarrow> node \<Rightarrow> node res" where
  "retransmit_messages old_msgs s =
     (if old_msgs = [] then Inr s
      else
        let (old_sent, old_msgs) = arrpop old_msgs in
        andthen (find_unacked_peers old_sent s) (\<lambda>(target_peers, s).
        if target_peers = [] then Inr s
        else
          andthen (queue_retransmit_messages 0 old_sent target_peers s) (\<lambda>s.
          retransmit_messages old_msgs s)))"
  by pat_completeness auto
termination
  by (relation "measure (\<lambda>(old, s). length old)") (auto simp: arrpop_def)

declare retransmit_messages.simps [simp del]

definition handle_old_messages :: "node \<Rightarrow> node res" where
  "handle_old_messages s =
     (if sent_msg_buffer s = [] \<or> peers s = [] then Inr s
      else
        andthen (get_current_clock s) (\<lambda>(current_clock, s).
        andthen (find_old_messages current_clock s) (\<lambda>(old_msgs, s).
        if old_msgs = [] then Inr s
        else
          andthen (filter_dead_messages (ucast current_clock) old_msgs s) (\<lambda>(dead_msgs, old_msgs).
          andthen (if dead_msgs = [] then Inr s
                   else
                     andthen (find_dead_peers dead_msgs s) (\<lambda>(dead_peers, s).
                     if dead_peers = [] then Inr s else handle_dead_peers dead_peers s)) (\<lambda>s.
          retransmit_messages old_msgs s)))))"

section \<open>Sending\<close>

definition cbc_send :: "u8 list option \<Rightarrow> u64 \<Rightarrow> node \<Rightarrow> (unit Result \<times> node) res" where
  "cbc_send pl payload_len s =
     (if pl = None \<or> payload_len = 0 then Inr (result_new_err ''[cbc_send] Invalid arguments'', s)
      else if peers s = [] then Inr (result_new_err ''[cbc_send] No peers to send to'', s)
      else
        andthen (cbc_msg_create CBC_DATA pl (ucast payload_len) (mem s)) (\<lambda>(r, m).
        let s = s\<lparr>mem := m\<rparr> in
        case r of
          Inl e \<Rightarrow> Inr (result_new_err e, s)
        | Inr _ \<Rightarrow>
            andthen (result_expect r ''unfallible expect'') (\<lambda>msg.
            let s = mutex_lock VCLOCK_MTX s in
            andthen (vc_inc (vclock s) (unat (pid s))) (\<lambda>vc.
            let s = mutex_unlock VCLOCK_MTX (s\<lparr>vclock := vc\<rparr>);
                msg = set_clock (ucast (vc_clock vc ! unat (pid s))) msg;
                (r, m) = cbc_outgoing_msg_create msg None (mem s);
                s = s\<lparr>mem := m\<rparr>
            in
            andthen (result_expect r ''[cbc_send] Failed to create outgoing message'') (\<lambda>outgoing.
            andthen (handle_old_messages (enqueue_outgoing outgoing s)) (\<lambda>s.
            Inr (result_new_ok (), s)))))))"

section \<open>The send thread\<close>

definition NETWORK_SIMULATION_DROP :: nat where
  "NETWORK_SIMULATION_DROP = 10"

definition sim_drops :: "nat \<Rightarrow> bool" where
  "sim_drops r = (r mod 100 < NETWORK_SIMULATION_DROP)"

text \<open>
  The loop of \<open>broadcast\<close> with its accumulators \<open>ack_target\<close>, \<open>n_dropped\<close> and
  \<open>n_sent\<close>. A dropped datagram is printed from its bytes.
\<close>

fun broadcast_loop ::
  "u8 list option \<Rightarrow> nat \<Rightarrow> cbcast_peer list \<Rightarrow> u64 \<Rightarrow> u64 \<Rightarrow> u64 \<Rightarrow> node
     \<Rightarrow> (u64 \<times> u64 \<times> u64 \<times> node) res" where
  "broadcast_loop msg_bytes msg_size [] target n_dropped n_sent s = Inr (target, n_dropped, n_sent, s)"
| "broadcast_loop msg_bytes msg_size (q # qs) target n_dropped n_sent s =
     (if peer_status q \<noteq> CBC_PEER_ALIVE
      then broadcast_loop msg_bytes msg_size qs target n_dropped n_sent s
      else
        andthen (shl1 (unat (peer_pid q))) (\<lambda>bit.
        let (r, s) = c_rand s in
        if sim_drops r
        then if msg_bytes = None then Inl (Undefined_behaviour ''NULL dereference'')
             else broadcast_loop msg_bytes msg_size qs (target OR bit) (n_dropped + 1) n_sent s
        else broadcast_loop msg_bytes msg_size qs (target OR bit) n_dropped (n_sent + 1)
               (c_sendto msg_bytes msg_size (Some (peer_addr q)) s)))"

definition broadcast :: "u8 list option \<Rightarrow> nat \<Rightarrow> node \<Rightarrow> (u64 \<times> node) res" where
  "broadcast msg_bytes msg_size s =
     (let s = mutex_lock PEER_LOCK s in
      andthen (broadcast_loop msg_bytes msg_size (peers s) 0 0 0 s) (\<lambda>(target, n_dropped, n_sent, s).
      let s = mutex_unlock PEER_LOCK s;
          s = with_lock STATS_LOCK (\<lambda>s. s\<lparr>stats := (stats s)\<lparr>
                sent_msg_count := sent_msg_count (stats s) + n_sent,
                dropped_msg_count := dropped_msg_count (stats s) + n_dropped\<rparr>\<rparr>) s
      in Inr (target, s)))"

definition count_stat :: "(cbcast_stats \<Rightarrow> cbcast_stats) \<Rightarrow> node \<Rightarrow> node" where
  "count_stat f = with_lock STATS_LOCK (\<lambda>s. s\<lparr>stats := f (stats s)\<rparr>)"

text \<open>A header-only message or a retransmission: dropped, or counted and sent.\<close>

definition send_single ::
  "bool \<Rightarrow> (cbcast_stats \<Rightarrow> cbcast_stats) \<Rightarrow> (cbcast_stats \<Rightarrow> cbcast_stats) \<Rightarrow> u8 list option \<Rightarrow> nat
     \<Rightarrow> cbcast_outgoing_msg \<Rightarrow> node \<Rightarrow> node" where
  "send_single will_drop dropped sent msg_bytes msg_size outgoing s =
     (if will_drop then count_stat dropped s
      else c_sendto msg_bytes msg_size (out_addr outgoing) (count_stat sent s))"

definition record_sent :: "cbcast_sent_msg \<Rightarrow> node \<Rightarrow> node" where
  "record_sent sent s =
     with_lock SEND_LOCK (\<lambda>t. t\<lparr>sent_msg_buffer := arrput (sent_msg_buffer t) (next_ptr s)\<rparr>)
       (s\<lparr>sent_heap := (sent_heap s)(next_ptr s \<mapsto> sent), next_ptr := Suc (next_ptr s)\<rparr>)"

text \<open>
  The \<open>switch\<close> of the loop: the new state and the value \<open>outgoing->message\<close> has after it.
\<close>

definition send_by_kind ::
  "bool \<Rightarrow> u8 list option \<Rightarrow> nat \<Rightarrow> cbcast_outgoing_msg \<Rightarrow> node \<Rightarrow> (cbcast_msg option \<times> node) res" where
  "send_by_kind will_drop msg_bytes msg_size outgoing s =
     (let msg = out_message outgoing;
          ack_dropped = (\<lambda>st. st\<lparr>dropped_ack_count := dropped_ack_count st + 1\<rparr>);
          ack_sent = (\<lambda>st. st\<lparr>sent_ack_count := sent_ack_count st + 1\<rparr>)
      in
      case kind (header msg) of
        CBC_DATA \<Rightarrow>
          andthen (broadcast msg_bytes msg_size s) (\<lambda>(target, s).
          let (r, m) = cbc_sent_msg_create msg (ucast target) (mem s) in
          andthen (result_expect r
            ''conversion between outgoing message and sent message should not fail'') (\<lambda>sent.
          Inr (None, record_sent sent (s\<lparr>mem := m\<rparr>))))
      | CBC_ACK \<Rightarrow>
          Inr (Some msg, send_single will_drop ack_dropped ack_sent msg_bytes msg_size outgoing s)
      | CBC_RETRANSMIT_REQ \<Rightarrow>
          Inr (Some msg, send_single will_drop
            (\<lambda>st. st\<lparr>dropped_retransmit_req_count := dropped_retransmit_req_count st + 1\<rparr>)
            (\<lambda>st. st\<lparr>sent_retransmit_req_count := sent_retransmit_req_count st + 1\<rparr>)
            msg_bytes msg_size outgoing s)
      | CBC_RETRANSMIT \<Rightarrow>
          Inr (Some msg, send_single will_drop ack_dropped ack_sent msg_bytes msg_size outgoing s)
      | CBC_OTHER _ \<Rightarrow> Inr (Some msg, s))"

text \<open>One round of the loop; \<open>None\<close> when it waits for a message.\<close>

definition cbc_send_iteration :: "node \<Rightarrow> node res option" where
  "cbc_send_iteration s =
     (case send_queue s of
        [] \<Rightarrow> None
      | outgoing # _ \<Rightarrow> Some (
          let s = with_lock SEND_LOCK (\<lambda>s. s\<lparr>send_queue := arrdel (send_queue s) 0\<rparr>) s in
          andthen (cbc_msg_serialize (out_message outgoing) (mem s)) (\<lambda>(msg_bytes, msg_size, m).
          let (r, s) = c_rand (s\<lparr>mem := m\<rparr>) in
          andthen (send_by_kind (sim_drops r) msg_bytes msg_size outgoing s) (\<lambda>(msg, s).
          let m = (if msg_bytes = None then mem s else c_free 1 (mem s)) in
          Inr (s\<lparr>mem := cbc_outgoing_msg_free msg (out_addr outgoing) m\<rparr>)))))"

end
