(* ===== verification/SentBuffer.thy ===== *)
theory SentBuffer
  imports Send
begin

text \<open>
  The sent messages of a process and what retransmission makes of them.

  \<open>sent_ok\<close> says that the sent buffer holds distinct live pointers to well-formed data
  messages; every operation keeps it. Under it the pointer loops of \<open>send.c\<close> and
  \<open>receive.c\<close> are the list functions stated here: filters, a first-index search and a
  removal. \<open>sent_list\<close> is the abstraction to the list of messages.
\<close>

section \<open>The invariant and the abstraction\<close>

definition sent_msg_ok :: "cbcast_sent_msg \<Rightarrow> bool" where
  "sent_msg_ok m \<longleftrightarrow> msg_wf (sent_message m) \<and> kind (header (sent_message m)) = CBC_DATA"

definition sent_ok :: "node \<Rightarrow> bool" where
  "sent_ok s \<longleftrightarrow> distinct (sent_msg_buffer s)
     \<and> (\<forall>p \<in> set (sent_msg_buffer s). \<exists>m. sent_heap s p = Some m \<and> sent_msg_ok m)
     \<and> (\<forall>p. sent_heap s p \<noteq> None \<longrightarrow> p < next_ptr s)"

definition sent_list :: "node \<Rightarrow> cbcast_sent_msg list" where
  "sent_list s = map (sent_at s) (sent_msg_buffer s)"

definition sent_clock :: "cbcast_sent_msg \<Rightarrow> u16" where
  "sent_clock m = clock (header (sent_message m))"

definition acked :: "cbcast_sent_msg \<Rightarrow> bool" where
  "acked m \<longleftrightarrow> ack_bitmap m = ack_target m"

lemma sent_ok_live: "sent_ok s \<Longrightarrow> p \<in> set (sent_msg_buffer s) \<Longrightarrow> sent_heap s p = Some (sent_at s p)"
  by (auto simp: sent_ok_def sent_at_def)

lemma sent_ok_live': "sent_ok s \<Longrightarrow> \<forall>p \<in> set (sent_msg_buffer s). sent_heap s p \<noteq> None"
  by (auto simp: sent_ok_def)

lemma sent_ok_msg: "sent_ok s \<Longrightarrow> p \<in> set (sent_msg_buffer s) \<Longrightarrow> sent_msg_ok (sent_at s p)"
  by (auto simp: sent_ok_def sent_at_def)

lemma sent_view_cong:
  assumes "sent_view s' = sent_view s"
  shows "sent_ok s' = sent_ok s" "sent_list s' = sent_list s" "sent_at s' p = sent_at s p"
    "sent_msg_buffer s' = sent_msg_buffer s" "sent_heap s' = sent_heap s"
  using assms by (simp_all add: sent_view_def sent_ok_def sent_list_def sent_at_def)

lemma sent_ok_subset:
  assumes "sent_ok s" "distinct b" "set b \<subseteq> set (sent_msg_buffer s)"
  shows "sent_ok (s\<lparr>sent_msg_buffer := b\<rparr>)"
  using assms by (auto simp: sent_ok_def)

lemma first_index_map: "first_index P (map f xs) = first_index (P \<circ> f) xs"
  by (induction xs) auto

section \<open>Old and dead messages\<close>

definition is_old_msg :: "u16 \<Rightarrow> cbcast_sent_msg \<Rightarrow> bool" where
  "is_old_msg c m \<longleftrightarrow> c - sent_clock m \<ge> CBC_OLD_MSG_THRESHOLD \<and> \<not> acked m"

lemma find_old_loop_eq:
  "\<forall>p \<in> set ps. sent_heap s p \<noteq> None \<Longrightarrow>
     find_old_loop c ps acc s = Inr (acc @ filter (is_old_msg c \<circ> sent_at s) ps)"
proof (induction c ps acc s rule: find_old_loop.induct)
  case (2 c p ps acc s)
  then obtain m where "sent_heap s p = Some m" by auto
  with 2 show ?case
    by (simp add: read_sent_def sent_at_def is_old_msg_def sent_clock_def acked_def arrput_def Let_def)
qed simp

lemma find_old_messages_eq:
  assumes "sent_ok s"
  shows "find_old_messages c s = Inr (filter (is_old_msg c \<circ> sent_at s) (sent_msg_buffer s),
      mutex_unlock SEND_LOCK (mutex_lock SEND_LOCK s))"
proof -
  have "sent_at (mutex_lock SEND_LOCK s) = sent_at s" by (simp add: sent_at_def fun_eq_iff)
  with sent_ok_live' [OF assms] show ?thesis
    by (simp add: find_old_messages_def Let_def find_old_loop_eq)
qed

text \<open>The 64-bit subtraction cut to 16 bits is the 16-bit subtraction.\<close>

lemma is_dead_msg_eq: "is_dead_msg (ucast c) m \<longleftrightarrow> c - sent_clock m \<ge> CBC_DEAD_MSG_THRESHOLD"
proof -
  have "(ucast (ucast c - ucast d :: u64) :: u16) = c - d" for d :: u16
  proof -
    have u: "take_bit 64 (uint x) = uint x" for x :: u16
    proof -
      have "uint (ucast x :: u64) = uint x" by (simp only: uint_nat unat_ucast_u16_u64)
      then show ?thesis by (simp add: unsigned_ucast_eq)
    qed
    have "uint (ucast (ucast c - ucast d :: u64) :: u16) = take_bit 16 (uint c - uint d)"
      by (simp add: unsigned_ucast_eq unsigned_take_bit_eq uint_word_arith_bintrs(2) u)
    also have "\<dots> = uint (c - d)" by (simp add: uint_word_arith_bintrs(2))
    finally show ?thesis by (simp add: word_uint_eq_iff)
  qed
  then show ?thesis by (simp add: is_dead_msg_def sent_clock_def)
qed

lemma filter_dead_loop_eq:
  "\<forall>p \<in> set old. sent_heap s p \<noteq> None \<Longrightarrow>
     filter_dead_loop c old dead s = Inr (extract_loop (is_dead_msg c \<circ> sent_at s) old dead)"
proof (induction c old dead s rule: filter_dead_loop.induct)
  case (1 c old dead s)
  show ?case
  proof (cases "first_index (is_dead_msg c \<circ> sent_at s) old")
    case None
    with "1.prems" show ?thesis
      by (subst filter_dead_loop.simps, subst extract_loop.simps) (simp add: find_sent_total)
  next
    case (Some i)
    have live: "\<forall>p \<in> set (arrdel old i). sent_heap s p \<noteq> None"
      using "1.prems" set_remove_nth_subset [of i old] by (auto simp: arrdel_def)
    have "filter_dead_loop c (arrdel old i) (arrput dead (old ! i)) s
        = Inr (extract_loop (is_dead_msg c \<circ> sent_at s) (arrdel old i) (arrput dead (old ! i)))"
      using "1.IH" [of "Some i" i] "1.prems" live Some by (simp add: find_sent_total comp_def)
    with Some "1.prems" show ?thesis
      by (subst filter_dead_loop.simps, subst extract_loop.simps)
        (simp add: find_sent_total arrdel_def arrput_def comp_def)
  qed
qed

lemma filter_dead_messages_eq:
  "\<forall>p \<in> set old. sent_heap s p \<noteq> None \<Longrightarrow>
     filter_dead_messages c old s =
       Inr (filter (is_dead_msg c \<circ> sent_at s) old, filter (\<lambda>p. \<not> is_dead_msg c (sent_at s p)) old)"
  by (simp add: filter_dead_messages_def filter_dead_loop_eq extract_loop_filter comp_def)

section \<open>Peers with missing acknowledgements\<close>

definition small_pids :: "cbcast_peer list \<Rightarrow> bool" where
  "small_pids ps \<longleftrightarrow> (\<forall>q \<in> set ps. unat (peer_pid q) < 31)"

definition pid_bit :: "u64 \<Rightarrow> u64" where
  "pid_bit p = push_bit (unat p) 1"

definition unacked :: "cbcast_sent_msg \<Rightarrow> cbcast_peer list \<Rightarrow> u64 list" where
  "unacked m ps = map peer_pid (filter (\<lambda>q. ack_bitmap m AND pid_bit (peer_pid q) = 0) ps)"

lemma unacked_loop_eq:
  "sent_heap s p = Some m \<Longrightarrow> small_pids ps \<Longrightarrow> unacked_loop p ps acc s = Inr (acc @ unacked m ps)"
  by (induction p ps acc s rule: unacked_loop.induct)
    (auto simp: small_pids_def read_sent_def shl1_def unacked_def arrput_def pid_bit_def)

lemma find_unacked_peers_eq:
  "sent_heap s p = Some m \<Longrightarrow> small_pids (peers s) \<Longrightarrow>
     find_unacked_peers p s = Inr (unacked m (peers s), mutex_unlock PEER_LOCK (mutex_lock PEER_LOCK s))"
  by (simp add: find_unacked_peers_def unacked_loop_eq)

lemma arrfind_absent: "arrfind arr x = -1 \<longleftrightarrow> x \<notin> set arr"
  by (auto simp: arrfind_def first_index_None first_index_Some split: option.splits)

lemma add_targets:
  "distinct ds \<Longrightarrow> distinct (foldl (\<lambda>ds t. if arrfind ds t = -1 then arrput ds t else ds) ds ts)
     \<and> set (foldl (\<lambda>ds t. if arrfind ds t = -1 then arrput ds t else ds) ds ts) = set ds \<union> set ts"
  by (induction ts arbitrary: ds) (auto simp: arrfind_absent arrput_def)

text \<open>Only the mutex history differs.\<close>

definition locks_only :: "node \<Rightarrow> node \<Rightarrow> bool" where
  "locks_only s s' \<longleftrightarrow> (\<exists>t. s' = s\<lparr>lock_trace := t\<rparr>)"

lemma locks_only_refl [simp]: "locks_only s s"
  unfolding locks_only_def by (rule exI [of _ "lock_trace s"]) simp

lemma locks_only_trans [trans]: "locks_only s t \<Longrightarrow> locks_only t u \<Longrightarrow> locks_only s u"
  by (clarsimp simp: locks_only_def) blast

lemma locks_only_steps [simp]: "locks_only s (mutex_lock l s)" "locks_only s (mutex_unlock l s)"
  by (auto simp: locks_only_def mutex_lock_def mutex_unlock_def)

lemma locks_only_views:
  assumes "locks_only s s'"
  shows "quiet s s'" "mem s' = mem s" "send_queue s' = send_queue s" "sent_view s' = sent_view s"
    "peers s' = peers s" "sent_at s' p = sent_at s p" "sent_heap s' = sent_heap s"
    "sent_msg_buffer s' = sent_msg_buffer s"
proof -
  obtain t where t: "s' = s\<lparr>lock_trace := t\<rparr>" using assms by (auto simp: locks_only_def)
  then show "quiet s s'" by (intro quietI [where q = "send_queue s" and m = "mem s" and t = t]) simp
  show "mem s' = mem s" "send_queue s' = send_queue s" "sent_view s' = sent_view s"
    "peers s' = peers s" "sent_at s' p = sent_at s p" "sent_heap s' = sent_heap s"
    "sent_msg_buffer s' = sent_msg_buffer s"
    using t by (simp_all add: sent_view_def sent_at_def)
qed

lemma find_dead_loop_spec:
  "\<forall>p \<in> set dead. sent_heap s p \<noteq> None \<Longrightarrow> small_pids (peers s) \<Longrightarrow> distinct acc \<Longrightarrow>
     \<exists>ds s'. find_dead_loop dead acc s = Inr (ds, s') \<and> locks_only s s' \<and> distinct ds
       \<and> (if \<exists>p \<in> set dead. unacked (sent_at s p) (peers s) = [] then ds = []
          else set ds = set acc \<union> (\<Union>p \<in> set dead. set (unacked (sent_at s p) (peers s))))"
proof (induction dead acc s rule: find_dead_loop.induct)
  case (1 acc s)
  then show ?case by (intro exI [of _ acc] exI [of _ s]) simp
next
  case (2 p dead acc s)
  then have p: "sent_heap s p = Some (sent_at s p)" by (auto simp: sent_at_def)
  let ?t = "mutex_unlock PEER_LOCK (mutex_lock PEER_LOCK s)"
  have t: "locks_only s ?t" using locks_only_steps locks_only_trans by metis
  note u = find_unacked_peers_eq [OF p "2.prems"(2)]
  show ?case
  proof (cases "unacked (sent_at s p) (peers s) = []")
    case True
    with u t show ?thesis by (intro exI [of _ "[]"] exI [of _ ?t]) simp
  next
    case False
    let ?acc = "foldl (\<lambda>ds t. if arrfind ds t = -1 then arrput ds t else ds) acc (unacked (sent_at s p) (peers s))"
    have acc: "distinct ?acc" "set ?acc = set acc \<union> set (unacked (sent_at s p) (peers s))"
      using add_targets [OF "2.prems"(3), of "unacked (sent_at s p) (peers s)"] by blast+
    have at: "sent_at ?t = sent_at s" by (simp add: sent_at_def fun_eq_iff)
    obtain ds s' where r: "find_dead_loop dead ?acc ?t = Inr (ds, s')" "locks_only ?t s'" "distinct ds"
        "if \<exists>p \<in> set dead. unacked (sent_at s p) (peers s) = [] then ds = []
          else set ds = set ?acc \<union> (\<Union>p \<in> set dead. set (unacked (sent_at s p) (peers s)))"
      using "2.IH" [OF u refl False] "2.prems" acc(1) at by auto
    with u False locks_only_trans [OF t r(2)] acc(2) show ?thesis
      by (intro exI [of _ ds] exI [of _ s']) auto
  qed
qed

section \<open>Marking peers dead\<close>

definition pid_bits :: "u64 list \<Rightarrow> u64" where
  "pid_bits ds = foldr (\<lambda>d b. pid_bit d OR b) ds 0"

lemma pid_bits_simps [simp]: "pid_bits [] = 0" "pid_bits (d # ds) = pid_bit d OR pid_bits ds"
  by (simp_all add: pid_bits_def)

lemma or_bits_eq: "\<forall>d \<in> set ds. unat d < 31 \<Longrightarrow> or_bits ds b = Inr (b OR pid_bits ds)"
  by (induction ds b rule: or_bits.induct) (auto simp: shl1_def pid_bit_def ac_simps)

definition ack_all :: "u64 list \<Rightarrow> cbcast_sent_msg \<Rightarrow> cbcast_sent_msg" where
  "ack_all ds m = m\<lparr>ack_bitmap := ack_bitmap m OR pid_bits ds\<rparr>"

lemma ack_all_simps [simp]:
  "sent_message (ack_all ds m) = sent_message m" "ack_target (ack_all ds m) = ack_target m"
  "ack_bitmap (ack_all ds m) = ack_bitmap m OR pid_bits ds" "sent_msg_ok (ack_all ds m) = sent_msg_ok m"
  by (simp_all add: ack_all_def sent_msg_ok_def)

definition heap_acked :: "u64 list \<Rightarrow> ptr list \<Rightarrow> (ptr \<rightharpoonup> cbcast_sent_msg) \<Rightarrow> (ptr \<rightharpoonup> cbcast_sent_msg)" where
  "heap_acked ds ps h = (\<lambda>p. if p \<in> set ps then map_option (ack_all ds) (h p) else h p)"

lemma mark_acked_eq:
  "distinct ps \<Longrightarrow> \<forall>p \<in> set ps. sent_heap s p \<noteq> None \<Longrightarrow> \<forall>d \<in> set ds. unat d < 31 \<Longrightarrow>
     mark_acked ds ps s = Inr (s\<lparr>sent_heap := heap_acked ds ps (sent_heap s)\<rparr>)"
proof (induction ps arbitrary: s)
  case Nil
  then show ?case by (simp add: heap_acked_def)
next
  case (Cons p ps)
  then obtain m where m: "sent_heap s p = Some m" by auto
  let ?t = "s\<lparr>sent_heap := (sent_heap s)(p \<mapsto> ack_all ds m)\<rparr>"
  have h: "heap_acked ds ps ((sent_heap s)(p \<mapsto> ack_all ds m)) = heap_acked ds (p # ps) (sent_heap s)"
    using m Cons.prems(1) by (auto simp: heap_acked_def fun_eq_iff)
  have "mark_acked ds (p # ps) s = mark_acked ds ps ?t"
    using m Cons.prems(3) by (simp add: read_sent_def or_bits_eq ack_all_def)
  also have "\<dots> = Inr (?t\<lparr>sent_heap := heap_acked ds ps (sent_heap ?t)\<rparr>)"
    using Cons.prems by (intro Cons.IH) auto
  finally show ?case using h by simp
qed

lemma purge_acked_eq:
  "\<forall>p \<in> set (sent_msg_buffer s). sent_heap s p \<noteq> None \<Longrightarrow>
     purge_acked s = Inr (s\<lparr>sent_msg_buffer := filter (\<lambda>p. \<not> acked (sent_at s p)) (sent_msg_buffer s)\<rparr>)"
proof (induction "length (sent_msg_buffer s)" arbitrary: s rule: less_induct)
  case less
  let ?P = "(\<lambda>m. ack_bitmap m = ack_target m) \<circ> sent_at s"
  note f = find_sent_total [OF less.prems, where P = "\<lambda>m. ack_bitmap m = ack_target m" and i = 0]
  show ?case
  proof (cases "first_index ?P (sent_msg_buffer s)")
    case None
    then have "filter (\<lambda>p. \<not> acked (sent_at s p)) (sent_msg_buffer s) = sent_msg_buffer s"
      by (auto simp: first_index_None acked_def filter_id_conv)
    with None f show ?thesis by (subst purge_acked.simps) simp
  next
    case (Some i)
    let ?t = "s\<lparr>sent_msg_buffer := arrdel (sent_msg_buffer s) i\<rparr>"
    have at: "sent_at ?t = sent_at s" by (simp add: sent_at_def fun_eq_iff)
    have "length (sent_msg_buffer ?t) < length (sent_msg_buffer s)"
      using first_index_lt [OF Some] by simp
    moreover have "\<forall>p \<in> set (sent_msg_buffer ?t). sent_heap ?t p \<noteq> None"
      using less.prems set_remove_nth_subset [of i "sent_msg_buffer s"] by (auto simp: arrdel_def)
    ultimately have "purge_acked ?t = Inr (?t\<lparr>sent_msg_buffer := filter (\<lambda>p. \<not> acked (sent_at s p)) (arrdel (sent_msg_buffer s) i)\<rparr>)"
      using less.hyps [of ?t] by (simp add: at)
    moreover have "filter (\<lambda>p. \<not> acked (sent_at s p)) (arrdel (sent_msg_buffer s) i)
        = filter (\<lambda>p. \<not> acked (sent_at s p)) (sent_msg_buffer s)"
      using filter_split_first(2) [OF Some] by (simp add: arrdel_def acked_def)
    ultimately show ?thesis using Some f by (subst purge_acked.simps) simp
  qed
qed

definition dead_state :: "nat \<Rightarrow> nat \<Rightarrow> cbcast_state \<Rightarrow> cbcast_state" where
  "dead_state n dead st =
     (if n \<le> dead \<or> n - dead < n div 2 then CBC_DISCONNECTED else st)"

lemma handle_dead_peers_eq:
  assumes "sent_ok s" "ds \<noteq> []" "peers s \<noteq> []" "\<forall>d \<in> set ds. unat d < 31"
  defines "h \<equiv> heap_acked ds (sent_msg_buffer s) (sent_heap s)"
  shows "\<exists>t. handle_dead_peers ds s = Inr (s\<lparr>lock_trace := t,
      state := dead_state (length (peers s)) (length ds) (state s),
      peers := mark_dead ds (peers s), sent_heap := h,
      sent_msg_buffer := filter (\<lambda>p. \<not> acked (the (h p))) (sent_msg_buffer s)\<rparr>)"
proof -
  let ?st = "dead_state (length (peers s)) (length ds) (state s)"
  have live: "\<forall>p \<in> set (sent_msg_buffer s). h p \<noteq> None"
    using sent_ok_live [OF assms(1)] by (auto simp: h_def heap_acked_def)
  let ?t = "mutex_unlock PEER_LOCK (mutex_lock PEER_LOCK s)"
  define w where "w = (let r = int (length (peers s)) - int (length ds);
       s = (if r < 1 then ?t\<lparr>state := CBC_DISCONNECTED\<rparr> else ?t)
     in if r < int (length (peers s)) div 2 then s\<lparr>state := CBC_DISCONNECTED\<rparr> else s)"
  define v where "v = (mutex_lock PEER_LOCK (mutex_lock RECV_LOCK (mutex_lock SEND_LOCK w)))
      \<lparr>peers := mark_dead ds (peers s)\<rparr>"
  have "w = s\<lparr>lock_trace := lock_trace s @ [Lock PEER_LOCK, Unlock PEER_LOCK], state := ?st\<rparr>"
    by (auto simp: w_def dead_state_def Let_def zdiv_int mutex_lock_def mutex_unlock_def)
  then have v: "v = s\<lparr>lock_trace := lock_trace v, state := ?st, peers := mark_dead ds (peers s)\<rparr>"
    by (simp add: v_def mutex_lock_def)
  have vs: "sent_heap v = sent_heap s" "sent_msg_buffer v = sent_msg_buffer s"
    by (subst v, simp)+
  have mark: "mark_acked ds (sent_msg_buffer s) v = Inr (v\<lparr>sent_heap := h\<rparr>)"
    using mark_acked_eq [of "sent_msg_buffer s" v ds] assms sent_ok_live' [OF assms(1)] vs
    by (simp add: h_def sent_ok_def)
  have purge: "purge_acked (v\<lparr>sent_heap := h\<rparr>) = Inr (v\<lparr>sent_heap := h,
      sent_msg_buffer := filter (\<lambda>p. \<not> acked (the (h p))) (sent_msg_buffer s)\<rparr>)"
    using purge_acked_eq [of "v\<lparr>sent_heap := h\<rparr>"] live vs by (simp add: sent_at_def)
  have run: "handle_dead_peers ds s =
     andthen (mark_acked ds (sent_msg_buffer v) v) (\<lambda>s.
     andthen (purge_acked s) (\<lambda>s.
     Inr (mutex_unlock SEND_LOCK (mutex_unlock RECV_LOCK (mutex_unlock PEER_LOCK s)))))"
    using assms(2,3) by (simp add: handle_dead_peers_def v_def w_def Let_def)
  show ?thesis
    unfolding run vs mark andthen_Inr purge
    by (subst v, rule exI [of _ "lock_trace v @ [Unlock PEER_LOCK, Unlock RECV_LOCK, Unlock SEND_LOCK]"])
      (simp add: mutex_unlock_def)
qed

section \<open>Retransmissions\<close>

text \<open>The retransmission of a sent message differs from it in the kind only.\<close>

definition retransmission :: "cbcast_sent_msg \<Rightarrow> cbcast_msg" where
  "retransmission m = (sent_message m)\<lparr>header := (header (sent_message m))\<lparr>kind := CBC_RETRANSMIT\<rparr>\<rparr>"

lemma retransmission_wf: "sent_msg_ok m \<Longrightarrow> msg_wf (retransmission m)"
  by (auto simp: sent_msg_ok_def retransmission_def msg_wf_def payload_wf_def)

lemma retransmission_eq:
  assumes "sent_msg_ok m"
  shows "set_clock (sent_clock m) (created_msg CBC_RETRANSMIT (payload (sent_message m))
      (len (header (sent_message m)))) = retransmission m"
proof -
  obtain bytes where "payload (sent_message m) = Some (bytes @ [0])"
      "length bytes = unat (len (header (sent_message m)))"
    using assms by (auto simp: sent_msg_ok_def msg_wf_def payload_wf_def)
  then show ?thesis
    by (simp add: set_clock_def created_msg_def retransmission_def sent_clock_def)
qed

lemma create_msg_with_payload_alloc:
  "create_msg_with_payload k pl n m = Inr (r, m') \<Longrightarrow> alloc_ok m' = alloc_ok m"
  by (cases rule: create_msg_with_header_cases [of k m])
    (auto simp: create_msg_with_payload_def calloc_def Let_def cbc_msg_free_def c_free_def
      split: option.splits if_splits)

lemma create_msg_with_payload_plenty:
  assumes "plenty m" "n \<noteq> 0" "unat n \<le> length bytes"
  shows "\<exists>msg m'. create_msg_with_payload k (Some bytes) n m = Inr (result_new_ok msg, m')"
  using assms
  by (auto simp: create_msg_with_payload_def create_msg_with_header_def calloc_def Let_def)

lemma create_retransmission:
  assumes ok: "sent_msg_ok m"
    and run: "cbc_msg_create CBC_RETRANSMIT (payload (sent_message m)) (len (header (sent_message m))) mm = Inr (r, mm')"
  shows "alloc_ok mm' = alloc_ok mm" "r = result_new_ok msg \<Longrightarrow> set_clock (sent_clock m) msg = retransmission m"
proof -
  show "alloc_ok mm' = alloc_ok mm"
    using run create_msg_with_payload_alloc by (simp add: cbc_msg_create_def)
  show "set_clock (sent_clock m) msg = retransmission m" if "r = result_new_ok msg"
    using cbc_msg_create_wf run that retransmission_eq [OF ok] by metis
qed

lemma create_retransmission_plenty:
  assumes "sent_msg_ok m" "plenty mm"
  shows "\<exists>msg mm'. cbc_msg_create CBC_RETRANSMIT (payload (sent_message m)) (len (header (sent_message m))) mm
     = Inr (result_new_ok msg, mm')"
  using assms create_msg_with_payload_plenty [OF assms(2)]
  by (auto simp: sent_msg_ok_def msg_wf_def payload_wf_def cbc_msg_create_def)

definition retransmission_to :: "cbcast_sent_msg \<Rightarrow> cbcast_peer list \<Rightarrow> u64 \<Rightarrow> cbcast_outgoing_msg" where
  "retransmission_to m ps t = \<lparr>out_message = retransmission m, out_addr = addr_of_pid t ps, socket_flags = 0\<rparr>"

lemma queue_retransmit_one_Inr:
  assumes live: "sent_heap s p = Some m" and ok: "sent_msg_ok m"
    and run: "queue_retransmit_one j p t s = Inr s'"
  shows "quiet s s'" "alloc_ok (mem s') = alloc_ok (mem s)"
    "send_queue s' = send_queue s @ [retransmission_to m (peers s) t]"
proof -
  obtain a s1 where a: "cbc_peer_get_addr_copy t s = Inr (a, s1)"
    using run by (cases "cbc_peer_get_addr_copy t s") (auto simp: queue_retransmit_one_def)
  note ac = cbc_peer_get_addr_copy_Inr [OF a] and q1 = get_addr_copy_quiet [OF a]
  have h: "sent_heap s1 p = Some m" using quiet_views(11) [OF q1] live by simp
  obtain msg m1 where
    c: "cbc_msg_create CBC_RETRANSMIT (payload (sent_message m)) (len (header (sent_message m))) (mem s1)
             = Inr (result_new_ok msg, m1)"
    using run a h by (auto simp: queue_retransmit_one_def read_sent_def)
  obtain r2 m2 where o': "cbc_outgoing_msg_create msg a m1 = (r2, m2)" by fastforce
  then obtain out where o: "cbc_outgoing_msg_create msg a m1 = (result_new_ok out, m2)"
    and s': "s' = enqueue_outgoing (out\<lparr>socket_flags := 0,
             out_message := set_clock (sent_clock m) (out_message out)\<rparr>) (s1\<lparr>mem := m2\<rparr>)"
    using run a h c by (auto simp: queue_retransmit_one_def read_sent_def sent_clock_def split: if_splits)
  note oo = cbc_outgoing_msg_create_Inr [OF o] and cr = create_retransmission [OF ok c]
  show "quiet s s'" unfolding s' using q1 quiet_steps(3,4) quiet_trans by metis
  show "alloc_ok (mem s') = alloc_ok (mem s)" unfolding s' using oo cr(1) ac(3) by simp
  have "send_queue s1 = send_queue s" by (subst ac(2)) simp
  then show "send_queue s' = send_queue s @ [retransmission_to m (peers s) t]"
    unfolding s' using oo cr(2) [OF refl] ac(1) by (simp add: retransmission_to_def)
qed

lemma queue_retransmit_one_safe:
  assumes live: "sent_heap s p = Some m" and ok: "sent_msg_ok m" and pl: "plenty (mem s)"
    and t: "addr_of_pid t (peers s) \<noteq> None" and j: "j < length (peers s)"
  shows "\<exists>s'. queue_retransmit_one j p t s = Inr s'"
proof -
  obtain a s1 where a: "cbc_peer_get_addr_copy t s = Inr (a, s1)"
    using cbc_peer_get_addr_copy_safe [of s t] pl by auto
  note ac = cbc_peer_get_addr_copy_Inr [OF a] and q1 = get_addr_copy_quiet [OF a]
  have h: "sent_heap s1 p = Some m" "peers s1 = peers s" using quiet_views [OF q1] live by simp_all
  have pl1: "plenty (mem s1)" using ac(3) pl plenty_cong by blast
  obtain msg m1 where c: "cbc_msg_create CBC_RETRANSMIT (payload (sent_message m))
      (len (header (sent_message m))) (mem s1) = Inr (result_new_ok msg, m1)"
    using create_retransmission_plenty [OF ok pl1] by blast
  have "plenty m1" using create_retransmission(1) [OF ok c] pl1 plenty_cong by blast
  moreover have "a \<noteq> None" using ac(1) t by simp
  ultimately obtain out m2 where o: "cbc_outgoing_msg_create msg a m1 = (result_new_ok out, m2)"
    using cbc_outgoing_msg_create_plenty by blast
  show ?thesis using a h c o j by (simp add: queue_retransmit_one_def read_sent_def)
qed

lemma queue_retransmit_Inr:
  "sent_heap s p = Some m \<Longrightarrow> sent_msg_ok m \<Longrightarrow> queue_retransmit_messages j p ts s = Inr s' \<Longrightarrow>
     quiet s s' \<and> alloc_ok (mem s') = alloc_ok (mem s)
     \<and> send_queue s' = send_queue s @ map (retransmission_to m (peers s)) ts"
proof (induction ts arbitrary: j s)
  case Nil
  then show ?case by simp
next
  case (Cons t ts)
  obtain s1 where s1: "queue_retransmit_one j p t s = Inr s1"
    and rest: "queue_retransmit_messages (Suc j) p ts s1 = Inr s'" using Cons.prems(3) by auto
  note o = queue_retransmit_one_Inr [OF Cons.prems(1,2) s1]
  note v = quiet_views [OF o(1)]
  have "quiet s1 s' \<and> alloc_ok (mem s') = alloc_ok (mem s1)
     \<and> send_queue s' = send_queue s1 @ map (retransmission_to m (peers s)) ts"
    using Cons.IH [OF _ Cons.prems(2) rest] v(3,11) Cons.prems(1) by simp
  then show ?case using o quiet_trans [OF o(1)] by simp
qed

lemma queue_retransmit_safe:
  "sent_heap s p = Some m \<Longrightarrow> sent_msg_ok m \<Longrightarrow> plenty (mem s) \<Longrightarrow>
     \<forall>t \<in> set ts. addr_of_pid t (peers s) \<noteq> None \<Longrightarrow> j + length ts \<le> length (peers s) \<Longrightarrow>
     \<exists>s'. queue_retransmit_messages j p ts s = Inr s'"
proof (induction ts arbitrary: j s)
  case Nil
  then show ?case by simp
next
  case (Cons t ts)
  obtain s1 where s1: "queue_retransmit_one j p t s = Inr s1"
    using queue_retransmit_one_safe [OF Cons.prems(1-3), of t j] Cons.prems(4,5) by auto
  note o = queue_retransmit_one_Inr [OF Cons.prems(1,2) s1]
  note v = quiet_views [OF o(1)]
  have "\<exists>s'. queue_retransmit_messages (Suc j) p ts s1 = Inr s'"
    using Cons.prems v(3,11) plenty_cong [OF o(2)] by (intro Cons.IH) auto
  with s1 show ?case by simp
qed

text \<open>
  The retransmissions of an array of messages: the array is worked off from its end, and the
  first message without a missing acknowledgement ends the work.
\<close>

definition retransmissions :: "node \<Rightarrow> ptr list \<Rightarrow> cbcast_outgoing_msg list" where
  "retransmissions s ps = concat (map (\<lambda>p. map (retransmission_to (sent_at s p) (peers s)) (unacked (sent_at s p) (peers s)))
     (takeWhile (\<lambda>p. unacked (sent_at s p) (peers s) \<noteq> []) (rev ps)))"

definition live_msgs :: "node \<Rightarrow> ptr list \<Rightarrow> bool" where
  "live_msgs s ps \<longleftrightarrow> (\<forall>p \<in> set ps. sent_heap s p = Some (sent_at s p) \<and> sent_msg_ok (sent_at s p))"

lemma addr_of_pid_defined: "t \<in> peer_pid ` set ps \<Longrightarrow> addr_of_pid t ps \<noteq> None"
  by (induction ps) auto

lemma unacked_addr: "t \<in> set (unacked m ps) \<Longrightarrow> addr_of_pid t ps \<noteq> None"
  by (rule addr_of_pid_defined) (auto simp: unacked_def)

lemma length_unacked: "length (unacked m ps) \<le> length ps"
  by (simp add: unacked_def)

lemma retransmit_messages_spec:
  "live_msgs s ps \<Longrightarrow> small_pids (peers s) \<Longrightarrow>
     (\<forall>s'. retransmit_messages ps s = Inr s' \<longrightarrow> quiet s s' \<and> alloc_ok (mem s') = alloc_ok (mem s)
        \<and> send_queue s' = send_queue s @ retransmissions s ps)
     \<and> (plenty (mem s) \<longrightarrow> (\<exists>s'. retransmit_messages ps s = Inr s'))"
proof (induction ps arbitrary: s rule: rev_induct)
  case Nil
  then show ?case by (simp add: retransmit_messages.simps retransmissions_def)
next
  case (snoc p ps)
  let ?u = "unacked (sent_at s p) (peers s)"
  let ?t = "mutex_unlock PEER_LOCK (mutex_lock PEER_LOCK s)"
  have t: "locks_only s ?t" using locks_only_steps locks_only_trans by metis
  have p: "sent_heap s p = Some (sent_at s p)" "sent_msg_ok (sent_at s p)"
    using snoc.prems(1) by (auto simp: live_msgs_def)
  have step: "retransmit_messages (ps @ [p]) s =
      (if ?u = [] then Inr ?t else andthen (queue_retransmit_messages 0 p ?u ?t) (retransmit_messages ps))"
    by (subst retransmit_messages.simps)
      (simp add: arrpop_def find_unacked_peers_eq [OF p(1) snoc.prems(2)])
  show ?case
  proof (cases "?u = []")
    case True
    with step locks_only_views [OF t] show ?thesis by (simp add: retransmissions_def)
  next
    case False
    have pt: "sent_heap ?t p = Some (sent_at s p)" using p(1) by simp
    have main: "quiet s s' \<and> alloc_ok (mem s') = alloc_ok (mem s)
        \<and> send_queue s' = send_queue s @ retransmissions s (ps @ [p])"
      if r: "queue_retransmit_messages 0 p ?u ?t = Inr s1" "retransmit_messages ps s1 = Inr s'" for s1 s'
    proof -
      note q = queue_retransmit_Inr [OF pt p(2) r(1)]
      then have q1: "quiet s s1" using locks_only_views(1) [OF t] quiet_trans by blast
      have at: "sent_at s1 = sent_at s" using quiet_views(11) [OF q1] by (simp add: sent_at_def fun_eq_iff)
      have "live_msgs s1 ps" "small_pids (peers s1)"
        using snoc.prems quiet_views [OF q1] at by (auto simp: live_msgs_def)
      with snoc.IH r(2) have "quiet s1 s' \<and> alloc_ok (mem s') = alloc_ok (mem s1)
          \<and> send_queue s' = send_queue s1 @ retransmissions s1 ps" by blast
      with q False q1 at quiet_views(3) [OF q1] show ?thesis
        using quiet_trans [OF q1] by (simp add: retransmissions_def)
    qed
    moreover have "\<exists>s'. retransmit_messages (ps @ [p]) s = Inr s'" if pl: "plenty (mem s)"
    proof -
      obtain s1 where r: "queue_retransmit_messages 0 p ?u ?t = Inr s1"
        using queue_retransmit_safe [OF pt p(2), of ?u 0] pl unacked_addr length_unacked by auto
      note q = queue_retransmit_Inr [OF pt p(2) r]
      then have q1: "quiet s s1" using locks_only_views(1) [OF t] quiet_trans by blast
      have at: "sent_at s1 = sent_at s" using quiet_views(11) [OF q1] by (simp add: sent_at_def fun_eq_iff)
      have "plenty (mem s1)" using q pl plenty_cong [of "mem s1" "mem ?t"] by simp
      moreover have "live_msgs s1 ps" "small_pids (peers s1)"
        using snoc.prems quiet_views [OF q1] at by (auto simp: live_msgs_def)
      ultimately have "\<exists>s'. retransmit_messages ps s1 = Inr s'" using snoc.IH by blast
      with r step False show ?thesis by auto
    qed
    ultimately show ?thesis using step False by auto
  qed
qed

section \<open>One sweep over the sent messages\<close>

text \<open>The state after the treatment of dead peers \<open>ds\<close>.\<close>

definition buried :: "u64 list \<Rightarrow> node \<Rightarrow> node \<Rightarrow> bool" where
  "buried ds s t \<longleftrightarrow>
     (if ds = [] then locks_only s t
      else let h = heap_acked ds (sent_msg_buffer s) (sent_heap s) in
        \<exists>tr. t = s\<lparr>lock_trace := tr, state := dead_state (length (peers s)) (length ds) (state s),
          peers := mark_dead ds (peers s), sent_heap := h,
          sent_msg_buffer := filter (\<lambda>p. \<not> acked (the (h p))) (sent_msg_buffer s)\<rparr>)"

text \<open>The peers a sweep declares dead, as a set.\<close>

definition suspects :: "u16 \<Rightarrow> node \<Rightarrow> u64 set" where
  "suspects c s =
     (let dead = filter (\<lambda>m. is_old_msg c m \<and> is_dead_msg (ucast c) m) (sent_list s) in
      if \<exists>m \<in> set dead. unacked m (peers s) = [] then {}
      else \<Union>m \<in> set dead. set (unacked m (peers s)))"

definition still_old :: "u16 \<Rightarrow> node \<Rightarrow> ptr list" where
  "still_old c s = filter (\<lambda>p. is_old_msg c (sent_at s p) \<and> \<not> is_dead_msg (ucast c) (sent_at s p)) (sent_msg_buffer s)"

lemma heap_acked_live:
  assumes "sent_heap s p = Some m"
  shows "heap_acked ds b (sent_heap s) p = Some (if p \<in> set b then ack_all ds m else m)"
  using assms by (simp add: heap_acked_def)

lemma buried_live:
  assumes "buried ds s t" "live_msgs s ps" shows "live_msgs t ps"
proof (cases "ds = []")
  case True
  with assms show ?thesis
    using locks_only_views [of s t] by (auto simp: buried_def live_msgs_def sent_at_def)
next
  case False
  with assms show ?thesis
    by (auto simp: buried_def live_msgs_def sent_at_def Let_def heap_acked_live)
qed

lemma mark_dead_simps [simp]:
  "map peer_pid (mark_dead ds ps) = map peer_pid ps" "map peer_addr (mark_dead ds ps) = map peer_addr ps"
  "length (mark_dead ds ps) = length ps" "mark_dead ds ps = [] \<longleftrightarrow> ps = []"
  by (simp_all add: mark_dead_def)

lemma small_pids_iff: "small_pids ps \<longleftrightarrow> (\<forall>p \<in> set (map peer_pid ps). unat p < 31)"
  by (simp add: small_pids_def)

lemma unacked_mark_dead [simp]: "unacked m (mark_dead ds ps) = unacked m ps"
  by (induction ps) (auto simp: unacked_def mark_dead_def)

lemma buried_frames:
  assumes "buried ds s t"
  shows "delivery_view t = delivery_view s" "mem t = mem s" "send_queue t = send_queue s"
    "map peer_pid (peers t) = map peer_pid (peers s)" "map peer_addr (peers t) = map peer_addr (peers s)"
    "stats t = stats s" "socket_tx t = socket_tx s" "socket_rx t = socket_rx s" "next_ptr t = next_ptr s"
    "vclock t = vclock s" "pid t = pid s"
    "delivered t = delivered s" "delivery_queue t = delivery_queue s"
    "held_msg_buffer t = held_msg_buffer s"
  using assms
  by (auto simp: buried_def Let_def locks_only_def delivery_view_def split: if_splits)

lemma buried_small_pids: "buried ds s t \<Longrightarrow> small_pids (peers t) = small_pids (peers s)"
  using buried_frames(4) [of ds s t] by (simp only: small_pids_iff)

lemma buried_sent_ok:
  assumes b: "buried ds s t" and ok: "sent_ok s" shows "sent_ok t"
proof (cases "ds = []")
  case True
  with assms show ?thesis
    using locks_only_views(4) [of s t] sent_view_cong(1) [of t s] by (simp add: buried_def)
next
  case False
  let ?h = "heap_acked ds (sent_msg_buffer s) (sent_heap s)"
  have "?h p = Some (ack_all ds (sent_at s p))" if "p \<in> set (sent_msg_buffer s)" for p
    using sent_ok_live [OF ok that] that by (simp add: heap_acked_live)
  moreover have "p < next_ptr s" if "?h p = Some m" for p m
    using that ok by (auto simp: sent_ok_def heap_acked_def split: if_splits)
  ultimately show ?thesis
    using b ok False sent_ok_msg [OF ok] by (auto simp: buried_def Let_def sent_ok_def)
qed

lemma get_current_clock_eq:
  "unat (pid s) < length (vc_clock (vclock s)) \<Longrightarrow>
     get_current_clock s = Inr (ucast (vc_clock (vclock s) ! unat (pid s)),
       mutex_unlock VCLOCK_MTX (mutex_lock VCLOCK_MTX s))"
  by (simp add: get_current_clock_def vc_read_def)

definition own_clock :: "node \<Rightarrow> u16" where
  "own_clock s = ucast (vc_clock (vclock s) ! unat (pid s))"

lemma filter_sent_list: "filter P (sent_list s) = map (sent_at s) (filter (P \<circ> sent_at s) (sent_msg_buffer s))"
  by (simp add: sent_list_def filter_map)

lemma bury_step:
  assumes ok: "sent_ok s" and sp: "small_pids (peers s)" and ne: "peers s \<noteq> []"
    and dead: "dead = filter (\<lambda>p. is_old_msg c (sent_at s p) \<and> is_dead_msg (ucast c) (sent_at s p)) (sent_msg_buffer s)"
  shows "\<exists>t ds. (if dead = [] then Inr s
       else andthen (find_dead_peers dead s) (\<lambda>(dead_peers, s).
            if dead_peers = [] then Inr s else handle_dead_peers dead_peers s)) = Inr t
     \<and> buried ds s t \<and> set ds = suspects c s \<and> distinct ds"
proof -
  have sus: "suspects c s = (if \<exists>p \<in> set dead. unacked (sent_at s p) (peers s) = [] then {}
      else \<Union>p \<in> set dead. set (unacked (sent_at s p) (peers s)))"
    by (auto simp: suspects_def filter_sent_list dead comp_def Let_def)
  show ?thesis
  proof (cases "dead = []")
    case True
    with sus show ?thesis by (intro exI [of _ s] exI [of _ "[]"]) (simp add: buried_def)
  next
    case False
    have live: "\<forall>p \<in> set dead. sent_heap s p \<noteq> None" using sent_ok_live' [OF ok] dead by auto
    obtain ds t where f: "find_dead_peers dead s = Inr (ds, t)" "locks_only s t" "distinct ds"
        "if \<exists>p \<in> set dead. unacked (sent_at s p) (peers s) = [] then ds = []
          else set ds = (\<Union>p \<in> set dead. set (unacked (sent_at s p) (peers s)))"
      using find_dead_loop_spec [OF live sp, of "[]"] by (auto simp: find_dead_peers_def)
    have ds: "set ds = suspects c s" using f(4) sus by (auto split: if_splits)
    show ?thesis
    proof (cases "ds = []")
      case True
      with f False ds show ?thesis
        by (intro exI [of _ t] exI [of _ "[]"]) (simp add: buried_def)
    next
      case ne_ds: False
      have "set ds \<subseteq> set (map peer_pid (peers s))"
        unfolding ds sus unacked_def by (auto split: if_splits)
      then have small: "\<forall>d \<in> set ds. unat d < 31" using sp by (auto simp: small_pids_def)
      note lv = locks_only_views [OF f(2)]
      have "sent_ok t" using ok sent_view_cong(1) [OF lv(4)] by simp
      then obtain tr where h: "handle_dead_peers ds t = Inr (t\<lparr>lock_trace := tr,
          state := dead_state (length (peers s)) (length ds) (state t), peers := mark_dead ds (peers s),
          sent_heap := heap_acked ds (sent_msg_buffer s) (sent_heap s),
          sent_msg_buffer := filter (\<lambda>p. \<not> acked (the (heap_acked ds (sent_msg_buffer s) (sent_heap s) p)))
             (sent_msg_buffer s)\<rparr>)" (is "_ = Inr ?u")
        using handle_dead_peers_eq [of t ds] ne_ds small ne lv by auto
      obtain tr' where t: "t = s\<lparr>lock_trace := tr'\<rparr>" using f(2) by (auto simp: locks_only_def)
      have "buried ds s ?u"
        unfolding buried_def using ne_ds by (simp add: t Let_def) blast
      with f h False ne_ds ds show ?thesis by (intro exI [of _ ?u] exI [of _ ds]) simp
    qed
  qed
qed

text \<open>
  What one sweep does: the suspects are buried, then the messages that are old but not yet
  dead are retransmitted.
\<close>

definition swept :: "node \<Rightarrow> node \<Rightarrow> bool" where
  "swept s s' \<longleftrightarrow>
     (\<exists>t ds. buried ds s t \<and> set ds = suspects (own_clock s) s \<and> distinct ds
       \<and> quiet t s' \<and> alloc_ok (mem s') = alloc_ok (mem s)
       \<and> send_queue s' = send_queue s @ retransmissions t (still_old (own_clock s) s))"

lemma still_old_live: "sent_ok s \<Longrightarrow> live_msgs s (still_old c s)"
  using sent_ok_live sent_ok_msg by (auto simp: live_msgs_def still_old_def)

lemma swept_none:
  assumes "\<forall>m \<in> set (sent_list s). \<not> is_old_msg (own_clock s) m" "locks_only s s'"
  shows "swept s s'"
proof -
  have "still_old (own_clock s) s = []" "suspects (own_clock s) s = {}"
    using assms(1) by (auto simp: still_old_def suspects_def sent_list_def filter_empty_conv Let_def)
  then show ?thesis
    unfolding swept_def
    using locks_only_views [OF assms(2)] assms(2)
    by (intro exI [of _ s'] exI [of _ "[]"]) (simp add: buried_def retransmissions_def)
qed

lemma unacked_nil_peers: "unacked m [] = []"
  by (simp add: unacked_def)

lemma handle_old_messages_spec:
  assumes ok: "sent_ok s" and sp: "small_pids (peers s)" and pd: "unat (pid s) < length (vc_clock (vclock s))"
    and ne: "peers s \<noteq> []"
  shows "handle_old_messages s = Inr s' \<Longrightarrow> swept s s'"
    "plenty (mem s) \<Longrightarrow> \<exists>s'. handle_old_messages s = Inr s'"
proof -
  let ?c = "own_clock s" and ?a = "mutex_unlock VCLOCK_MTX (mutex_lock VCLOCK_MTX s)"
  let ?b = "mutex_unlock SEND_LOCK (mutex_lock SEND_LOCK ?a)"
  define old where "old = filter (is_old_msg ?c \<circ> sent_at s) (sent_msg_buffer s)"
  define dead where "dead = filter (\<lambda>p. is_old_msg ?c (sent_at s p) \<and> is_dead_msg (ucast ?c) (sent_at s p)) (sent_msg_buffer s)"
  have lo: "locks_only s ?b" using locks_only_steps locks_only_trans by metis
  note lv = locks_only_views [OF lo]
  have at: "sent_at ?a = sent_at s" "sent_at ?b = sent_at s" by (simp_all add: sent_at_def fun_eq_iff)
  have ok': "sent_ok ?a" "sent_ok ?b" using ok by (simp_all add: sent_ok_def)
  have gc: "get_current_clock s = Inr (?c, ?a)"
    using pd by (simp add: get_current_clock_eq own_clock_def)
  have fo: "find_old_messages ?c ?a = Inr (old, ?b)"
    using find_old_messages_eq [OF ok'(1)] at by (simp add: old_def)
  have "\<forall>p \<in> set old. sent_heap ?b p \<noteq> None" using sent_ok_live' [OF ok] by (auto simp: old_def)
  from filter_dead_messages_eq [OF this, of "ucast ?c"]
  have fd: "filter_dead_messages (ucast ?c) old ?b = Inr (dead, still_old ?c s)"
    by (simp add: at old_def dead_def still_old_def comp_def conj_commute)
  obtain t ds where t: "(if dead = [] then Inr ?b
       else andthen (find_dead_peers dead ?b) (\<lambda>(dead_peers, s).
            if dead_peers = [] then Inr s else handle_dead_peers dead_peers s)) = Inr t"
     "buried ds ?b t" "set ds = suspects ?c ?b" "distinct ds"
    using bury_step [OF ok'(2), of dead ?c] sp ne at by (auto simp: dead_def)
  have b: "buried ds s t"
  proof (cases "ds = []")
    case True
    with t(2) lo show ?thesis using locks_only_trans by (auto simp: buried_def)
  next
    case False
    obtain tr where "?b = s\<lparr>lock_trace := tr\<rparr>" using lo by (auto simp: locks_only_def)
    with t(2) False show ?thesis by (auto simp: buried_def Let_def)
  qed
  have sus: "suspects ?c ?b = suspects ?c s"
    by (simp only: suspects_def sent_list_def at lock_frames)
  have run: "handle_old_messages s =
      (if sent_msg_buffer s = [] then Inr s else if old = [] then Inr ?b
       else retransmit_messages (still_old ?c s) t)"
    using ne gc fo fd t(1) by (simp add: handle_old_messages_def)
  have rt: "live_msgs t (still_old ?c s)" "small_pids (peers t)"
    using buried_live [OF b still_old_live [OF ok]] buried_small_pids [OF b] sp by auto
  note spec = retransmit_messages_spec [OF rt]
  show "swept s s'" if r: "handle_old_messages s = Inr s'"
  proof (cases "old = []")
    case True
    then have "\<forall>m \<in> set (sent_list s). \<not> is_old_msg ?c m"
      by (auto simp: old_def sent_list_def filter_empty_conv)
    with r run True lo show ?thesis by (auto intro: swept_none split: if_splits)
  next
    case False
    then have "retransmit_messages (still_old ?c s) t = Inr s'"
      using r run by (auto simp: old_def split: if_splits)
    with spec have "quiet t s' \<and> alloc_ok (mem s') = alloc_ok (mem t)
        \<and> send_queue s' = send_queue t @ retransmissions t (still_old ?c s)" by blast
    with b t(3,4) sus buried_frames(2,3) [OF b] show ?thesis unfolding swept_def by auto
  qed
  show "\<exists>s'. handle_old_messages s = Inr s'" if "plenty (mem s)"
    using run spec that buried_frames(2) [OF b] by auto
qed

section \<open>Properties\<close>

text \<open>
  C18: filter_dead_messages, which moves dead messages out of an array one at a time and rescans
  it from the start after every move, splits the array by age: the result is the dead messages
  and the rest, each in the old order, where a message is dead when its 16-bit clock lies at
  least the threshold behind the current one (the difference wraps around with the clock).
\<close>

theorem filter_dead_messages_splits:
  assumes "\<forall>p \<in> set old. sent_heap s p \<noteq> None"
  shows "filter_dead_messages (ucast (c :: u16)) old s = Inr
     (filter (\<lambda>p. c - sent_clock (sent_at s p) \<ge> CBC_DEAD_MSG_THRESHOLD) old,
      filter (\<lambda>p. \<not> c - sent_clock (sent_at s p) \<ge> CBC_DEAD_MSG_THRESHOLD) old)"
  using filter_dead_messages_eq [OF assms] by (simp add: is_dead_msg_eq comp_def)

text \<open>A sent buffer with one-byte data messages of the given clocks, sent to peers 1 and 2.\<close>

definition sent_clocks :: "u16 list \<Rightarrow> node" where
  "sent_clocks cs = (initial_node 0 5 [worker_peer 1, worker_peer 2])\<lparr>sent_msg_buffer := [0..<length cs],
     sent_heap := (\<lambda>p. if p < length cs then Some \<lparr>sent_message =
         \<lparr>header = \<lparr>kind = CBC_DATA, clock = cs ! p, len = 1\<rparr>, payload = Some [65, 0]\<rparr>,
         ack_target = 6, ack_bitmap = 0\<rparr> else None),
     next_ptr := length cs\<rparr>"

lemma sent_clocks_at: "p < length cs \<Longrightarrow> sent_heap (sent_clocks cs) p = Some (sent_at (sent_clocks cs) p)"
  and sent_clocks_clock: "p < length cs \<Longrightarrow> sent_clock (sent_at (sent_clocks cs) p) = cs ! p"
  by (simp_all add: sent_clocks_def sent_at_def sent_clock_def)

theorem filter_dead_messages_splits_witness:
  "filter_dead_messages (ucast (9 :: u16)) [0, 1, 2] (sent_clocks [65530, 8, 65534]) = Inr ([0, 2], [1])"
  by (subst filter_dead_messages_splits)
    (simp_all add: sent_clocks_clock sent_clocks_at CBC_DEAD_MSG_THRESHOLD_def word_le_nat_alt)


lemma sent_clocks_ok: "sent_ok (sent_clocks cs)"
  by (auto simp: sent_ok_def sent_clocks_def sent_msg_ok_def msg_wf_def payload_wf_def header_only_def)


end
