(* ===== verification/Acks.thy ===== *)
theory Acks
  imports SentBuffer Delivery
begin

text \<open>
  Acknowledgements and retransmission requests that arrive: \<open>register_ack\<close> and
  \<open>queue_retransmission\<close> of \<open>receive.c\<close>. On the list of sent messages \<open>register_ack\<close>
  is \<open>ack_list\<close>: set the sender's bit in the first message with the clock, and remove the
  message when its bitmap equals its target. Acknowledgements from exactly the targets, in
  any order and with repetitions, remove the message with the last missing one.
\<close>

section \<open>The effect on the list of sent messages\<close>

definition set_ack :: "u64 \<Rightarrow> cbcast_sent_msg \<Rightarrow> cbcast_sent_msg" where
  "set_ack b m = m\<lparr>ack_bitmap := ack_bitmap m OR b\<rparr>"

lemma set_ack_simps [simp]:
  "sent_message (set_ack b m) = sent_message m" "ack_target (set_ack b m) = ack_target m"
  "ack_bitmap (set_ack b m) = ack_bitmap m OR b" "sent_msg_ok (set_ack b m) = sent_msg_ok m"
  "sent_clock (set_ack b m) = sent_clock m"
  by (simp_all add: set_ack_def sent_msg_ok_def sent_clock_def)

definition ack_list :: "u16 \<Rightarrow> u64 \<Rightarrow> cbcast_sent_msg list \<Rightarrow> cbcast_sent_msg list" where
  "ack_list c b ms =
     (case first_index (\<lambda>m. sent_clock m = c) ms of
        None \<Rightarrow> ms
      | Some i \<Rightarrow> if acked (set_ack b (ms ! i)) then arrdel ms i else ms[i := set_ack b (ms ! i)])"

lemma map_arrdel: "map f (arrdel xs i) = arrdel (map f xs) i"
  by (simp add: arrdel_def remove_nth_def take_map drop_map)

lemma map_fun_upd_distinct:
  "distinct xs \<Longrightarrow> i < length xs \<Longrightarrow> map (f(xs ! i := y)) xs = (map f xs)[i := y]"
  by (auto simp: list_eq_iff_nth_eq nth_list_update nth_eq_iff_index_eq)

lemma distinct_arrdel: "distinct xs \<Longrightarrow> distinct (arrdel xs i)"
  by (simp add: arrdel_def distinct_remove_nth)

lemma notin_arrdel: "distinct xs \<Longrightarrow> i < length xs \<Longrightarrow> xs ! i \<notin> set (arrdel xs i)"
  using mset_arrdel [of i xs] by (metis distinct.simps(2) mset.simps(2) mset_eq_imp_distinct_iff)

lemma set_arrdel_subset: "set (arrdel xs i) \<subseteq> set xs"
  by (simp add: arrdel_def set_remove_nth_subset)

text \<open>Everything but the sent messages and the allocator is as before.\<close>

definition sent_only :: "node \<Rightarrow> node \<Rightarrow> bool" where
  "sent_only s s' \<longleftrightarrow> (\<exists>h b m. s' = s\<lparr>sent_heap := h, sent_msg_buffer := b, mem := m\<rparr>)"

lemma sent_onlyI: "s' = s\<lparr>sent_heap := h, sent_msg_buffer := b, mem := m\<rparr> \<Longrightarrow> sent_only s s'"
  unfolding sent_only_def by blast

lemma sent_only_refl [simp]: "sent_only s s"
  by (rule sent_onlyI [where h = "sent_heap s" and b = "sent_msg_buffer s" and m = "mem s"]) simp

lemma sent_only_trans: "sent_only s t \<Longrightarrow> sent_only t u \<Longrightarrow> sent_only s u"
  by (clarsimp simp: sent_only_def) blast

lemma sent_only_views:
  assumes "sent_only s s'"
  shows "delivery_view s' = delivery_view s" "peers s' = peers s" "send_queue s' = send_queue s"
    "vclock s' = vclock s" "pid s' = pid s" "next_ptr s' = next_ptr s" "state s' = state s"
    "socket_rx s' = socket_rx s" "socket_tx s' = socket_tx s" "stats s' = stats s"
    "delivered s' = delivered s" "delivery_queue s' = delivery_queue s"
    "held_msg_buffer s' = held_msg_buffer s"
  using assms by (auto simp: sent_only_def delivery_view_def)

text \<open>
  The blocks of one sent message and of a list of them: the message with its header and
  payload, and the object that holds it.
\<close>

definition blocks_of_sent :: "cbcast_sent_msg \<Rightarrow> int" where
  "blocks_of_sent m = cbc_msg_blocks (sent_message m) + 1"

definition sent_blocks :: "cbcast_sent_msg list \<Rightarrow> int" where
  "sent_blocks ms = sum_list (map blocks_of_sent ms)"

lemma blocks_of_set_ack [simp]: "blocks_of_sent (set_ack b m) = blocks_of_sent m"
  by (simp add: blocks_of_sent_def)

lemma sent_blocks_arrdel:
  assumes "i < length ms" shows "sent_blocks (arrdel ms i) = sent_blocks ms - blocks_of_sent (ms ! i)"
proof -
  have "mset (map blocks_of_sent ms) = add_mset (blocks_of_sent (ms ! i)) (mset (map blocks_of_sent (arrdel ms i)))"
    unfolding mset_map mset_arrdel [OF assms, symmetric] by simp
  then have "sum_mset (mset (map blocks_of_sent ms)) = blocks_of_sent (ms ! i) + sum_mset (mset (map blocks_of_sent (arrdel ms i)))"
    by simp
  then show ?thesis by (simp only: sum_mset_sum_list sent_blocks_def)
qed

text \<open>
  From \<open>s\<close> to \<open>s'\<close> the objects of exactly those messages that left the sent buffer have
  been freed, with all their blocks, and no other cell of the heap has appeared or gone.
\<close>

definition frees_removed :: "node \<Rightarrow> node \<Rightarrow> bool" where
  "frees_removed s s' \<longleftrightarrow>
     set (sent_msg_buffer s') \<subseteq> set (sent_msg_buffer s)
     \<and> dom (sent_heap s') = dom (sent_heap s) - (set (sent_msg_buffer s) - set (sent_msg_buffer s'))
     \<and> (\<forall>q. q \<notin> set (sent_msg_buffer s) \<longrightarrow> sent_heap s' q = sent_heap s q)
     \<and> mem s' = (mem s)\<lparr>live := live (mem s) - (sent_blocks (sent_list s) - sent_blocks (sent_list s'))\<rparr>"

lemma register_ack_run:
  assumes ok: "sent_ok s" and k: "kind (header ack) = CBC_ACK" and p: "unat p < 31"
  obtains "first_index (\<lambda>m. sent_clock m = clock (header ack)) (sent_list s) = None"
      "register_ack ack p s = Inr s"
  | i q m where "first_index (\<lambda>m. sent_clock m = clock (header ack)) (sent_list s) = Some i"
      "i < length (sent_msg_buffer s)" "q = sent_msg_buffer s ! i"
      "m = set_ack (push_bit (unat p) 1) (sent_at s q)"
      "register_ack ack p s = Inr (if acked m
         then s\<lparr>mem := cbc_sent_msg_free m (mem s), sent_heap := (sent_heap s)(q := None),
                sent_msg_buffer := arrdel (sent_msg_buffer s) i\<rparr>
         else s\<lparr>sent_heap := (sent_heap s)(q \<mapsto> m)\<rparr>)"
proof (cases "first_index (\<lambda>m. sent_clock m = clock (header ack)) (sent_list s)")
  case None
  then have "register_ack ack p s = Inr s"
    using k find_sent_total [OF sent_ok_live' [OF ok], of "\<lambda>m. sent_clock m = clock (header ack)" 0]
    by (simp add: register_ack_def sent_list_def first_index_map sent_clock_def)
  with None that(1) show thesis by blast
next
  case (Some i)
  then have i: "i < length (sent_msg_buffer s)" using first_index_lt by (fastforce simp: sent_list_def)
  have live: "sent_heap s (sent_msg_buffer s ! i) = Some (sent_at s (sent_msg_buffer s ! i))"
    using sent_ok_live [OF ok] i by simp
  from Some i live show thesis
    using k p find_sent_total [OF sent_ok_live' [OF ok], of "\<lambda>m. sent_clock m = clock (header ack)" 0]
    by (intro that(2) [OF Some i refl refl])
      (simp add: register_ack_def sent_list_def first_index_map sent_clock_def read_sent_def shl1_def
        set_ack_def acked_def Let_def)
qed

lemma register_ack_refines:
  assumes ok: "sent_ok s" and k: "kind (header ack) = CBC_ACK" and p: "unat p < 31"
  shows "\<exists>s'. register_ack ack p s = Inr s' \<and> sent_only s s' \<and> sent_ok s'
     \<and> sent_list s' = ack_list (clock (header ack)) (push_bit (unat p) 1) (sent_list s)
     \<and> frees_removed s s' \<and> alloc_ok (mem s') = alloc_ok (mem s)"
proof (cases rule: register_ack_run [OF assms])
  case 1
  then show ?thesis
    using ok by (intro exI [of _ s]) (simp add: ack_list_def frees_removed_def)
next
  case (2 i q m)
  have d: "distinct (sent_msg_buffer s)" using ok by (simp add: sent_ok_def)
  have q: "q \<in> set (sent_msg_buffer s)" using 2 by simp
  have li: "sent_list s ! i = sent_at s q" using 2 by (simp add: sent_list_def)
  have mok: "sent_msg_ok m" using sent_ok_msg [OF ok q] 2 by simp
  show ?thesis
  proof (cases "acked m")
    case True
    let ?t = "s\<lparr>mem := cbc_sent_msg_free m (mem s), sent_heap := (sent_heap s)(q := None),
                sent_msg_buffer := arrdel (sent_msg_buffer s) i\<rparr>"
    have nq: "q \<notin> set (arrdel (sent_msg_buffer s) i)" using notin_arrdel [OF d] 2 by simp
    then have "map (sent_at ?t) (arrdel (sent_msg_buffer s) i) = map (sent_at s) (arrdel (sent_msg_buffer s) i)"
      by (auto simp: sent_at_def)
    then have "sent_list ?t = arrdel (sent_list s) i" by (simp add: sent_list_def map_arrdel [symmetric])
    then have "sent_list ?t = ack_list (clock (header ack)) (push_bit (unat p) 1) (sent_list s)"
      using True 2 li by (simp add: ack_list_def)
    moreover have "sent_ok ?t"
      using ok d nq set_arrdel_subset [of "sent_msg_buffer s" i] by (auto simp: sent_ok_def distinct_arrdel)
    moreover have "frees_removed s ?t"
    proof -
      have "set (sent_msg_buffer s) = insert q (set (arrdel (sent_msg_buffer s) i))"
        using arg_cong [OF mset_arrdel [OF 2(2)], of set_mset] 2(3) by simp
      then have gone: "set (sent_msg_buffer s) - set (arrdel (sent_msg_buffer s) i) = {q}" using nq by blast
      have "i < length (sent_list s)" using 2(2) by (simp add: sent_list_def)
      from sent_blocks_arrdel [OF this] have
        "sent_blocks (sent_list s) - sent_blocks (sent_list ?t) = blocks_of_sent m"
        using li 2(4) \<open>sent_list ?t = arrdel (sent_list s) i\<close> by simp
      moreover have "cbc_sent_msg_free m (mem s) = (mem s)\<lparr>live := live (mem s) - blocks_of_sent m\<rparr>"
        by (simp add: cbc_sent_msg_free_def cbc_msg_free_def c_free_def blocks_of_sent_def)
      ultimately show ?thesis
        using gone q set_arrdel_subset [of "sent_msg_buffer s" i] by (auto simp: frees_removed_def)
    qed
    moreover have "sent_only s ?t"
      by (rule sent_onlyI [where h = "(sent_heap s)(q := None)" and b = "arrdel (sent_msg_buffer s) i"
            and m = "cbc_sent_msg_free m (mem s)"]) simp
    ultimately show ?thesis
      using True 2 by (intro exI [of _ ?t]) (simp add: cbc_sent_msg_free_def cbc_msg_free_def)
  next
    case False
    let ?t = "s\<lparr>sent_heap := (sent_heap s)(q \<mapsto> m)\<rparr>"
    have "sent_at ?t = (sent_at s)(q := m)" by (auto simp: sent_at_def)
    then have "sent_list ?t = ack_list (clock (header ack)) (push_bit (unat p) 1) (sent_list s)"
      using False 2 li map_fun_upd_distinct [OF d, of i "sent_at s" m]
      by (simp add: ack_list_def) (simp add: sent_list_def)
    moreover have "sent_ok ?t" using ok q mok by (auto simp: sent_ok_def)
    moreover have "frees_removed s ?t"
    proof -
      have "q \<in> dom (sent_heap s)" using sent_ok_live [OF ok q] by blast
      moreover have "sent_blocks (sent_list ?t) = sent_blocks (sent_list s)"
        using \<open>sent_at ?t = (sent_at s)(q := m)\<close> 2(4) 
        by (auto simp: sent_list_def sent_blocks_def comp_def simp del: push_bit_of_1
            intro!: arg_cong [where f = sum_list] map_cong)
      ultimately show ?thesis using q by (auto simp: frees_removed_def)
    qed
    moreover have "sent_only s ?t"
      by (rule sent_onlyI [where h = "(sent_heap s)(q \<mapsto> m)" and b = "sent_msg_buffer s" and m = "mem s"]) simp
    ultimately show ?thesis using False 2 by (intro exI [of _ ?t]) simp
  qed
qed

section \<open>Bitmaps as sets of processes\<close>

lemma bit_pid_bit: "bit (pid_bit t) n \<longleftrightarrow> n = unat t \<and> n < 64"
  by (auto simp: pid_bit_def bit_exp_iff)

lemma bit_pid_bits: "bit (pid_bits ts) n \<longleftrightarrow> n < 64 \<and> n \<in> unat ` set ts"
  by (induction ts) (auto simp: bit_or_iff bit_pid_bit)

lemma pid_bits_eq_iff:
  assumes "\<forall>t \<in> set ts \<union> set us. unat t < 31"
  shows "pid_bits ts = pid_bits us \<longleftrightarrow> set ts = set us"
proof -
  have "pid_bits ts = pid_bits us \<longleftrightarrow> (\<forall>n < 64. n \<in> unat ` set ts \<longleftrightarrow> n \<in> unat ` set us)"
    by (auto simp: bit_eq_iff bit_pid_bits)
  also have "\<dots> \<longleftrightarrow> unat ` set ts = unat ` set us"
  proof -
    have "n < 64" if "n \<in> unat ` set ts \<union> unat ` set us" for n
    proof -
      obtain t where "t \<in> set ts \<union> set us" "n = unat t" using \<open>n \<in> _\<close> by blast
      with assms have "n < 31" by blast
      then show ?thesis by simp
    qed
    then show ?thesis by blast
  qed
  also have "\<dots> \<longleftrightarrow> set ts = set us"
    by (rule inj_image_eq_iff) (simp add: inj_def word_unat_eq_iff)
  finally show ?thesis .
qed

lemma pid_bits_snoc: "pid_bits (ts @ [t]) = pid_bits ts OR pid_bit t"
  by (induction ts) (simp_all add: ac_simps)

lemma push_bit_ucast: "push_bit (unat (p :: u16)) 1 = pid_bit (ucast p)"
  by (simp add: pid_bit_def)

section \<open>A sequence of acknowledgements of one message\<close>

fun register_acks :: "u16 \<Rightarrow> u16 list \<Rightarrow> node \<Rightarrow> node res" where
  "register_acks c [] s = Inr s"
| "register_acks c (p # ps) s =
     andthen (register_ack \<lparr>header = \<lparr>kind = CBC_ACK, clock = c, len = 0\<rparr>, payload = None\<rparr> p s)
       (register_acks c ps)"

definition find_clock :: "u16 \<Rightarrow> cbcast_sent_msg list \<Rightarrow> cbcast_sent_msg option" where
  "find_clock c ms = map_option (\<lambda>i. ms ! i) (first_index (\<lambda>m. sent_clock m = c) ms)"

lemma find_clock_None: "find_clock c ms = None \<longleftrightarrow> c \<notin> sent_clock ` set ms"
  by (auto simp: find_clock_def first_index_None)

lemma find_clock_simps [simp]:
  "find_clock c [] = None"
  "find_clock c (m # ms) = (if sent_clock m = c then Some m else find_clock c ms)"
  by (auto simp: find_clock_def option.map_comp comp_def)

lemma ack_list_simps:
  "ack_list c b [] = []"
  "ack_list c b (m # ms) = (if sent_clock m = c then if acked (set_ack b m) then ms else set_ack b m # ms
     else m # ack_list c b ms)"
  by (auto simp: ack_list_def arrdel_def split: option.splits)

lemma find_clock_ack_list:
  assumes "distinct (map sent_clock ms)"
  shows "find_clock c (ack_list c b ms) =
     (case find_clock c ms of None \<Rightarrow> None
      | Some m \<Rightarrow> if acked (set_ack b m) then None else Some (set_ack b m))"
  using assms
proof (induction ms)
  case (Cons m ms)
  have "find_clock c ms = None" if "sent_clock m = c" "sent_clock m \<notin> sent_clock ` set ms"
    using that by (simp add: find_clock_None)
  with Cons show ?case by (auto simp: ack_list_simps)
qed (simp add: ack_list_simps)

lemma distinct_ack_list:
  "distinct (map sent_clock ms) \<Longrightarrow> distinct (map sent_clock (ack_list c b ms))"
proof (induction ms)
  case (Cons m ms)
  have "sent_clock ` set (ack_list c b ms) \<subseteq> sent_clock ` set ms" for ms
    by (induction ms) (auto simp: ack_list_simps)
  with Cons show ?case by (auto simp: ack_list_simps)
qed (simp add: ack_list_simps)

text \<open>What the acknowledgements of the clock \<open>c\<close> do to the message with that clock.\<close>

fun after_acks :: "u16 list \<Rightarrow> cbcast_sent_msg option \<Rightarrow> cbcast_sent_msg option" where
  "after_acks ps None = None"
| "after_acks [] (Some m) = Some m"
| "after_acks (p # ps) (Some m) =
     after_acks ps (if acked (set_ack (push_bit (unat p) 1) m) then None
       else Some (set_ack (push_bit (unat p) 1) m))"

lemma register_acks_run:
  "sent_ok s \<Longrightarrow> distinct (map sent_clock (sent_list s)) \<Longrightarrow> \<forall>p \<in> set ps. unat p < 31 \<Longrightarrow>
     \<exists>s'. register_acks c ps s = Inr s' \<and> sent_ok s' \<and> sent_only s s'
       \<and> find_clock c (sent_list s') = after_acks ps (find_clock c (sent_list s))"
proof (induction ps arbitrary: s)
  case Nil
  then show ?case by (cases "find_clock c (sent_list s)") simp_all
next
  case (Cons p ps)
  let ?b = "push_bit (unat p) 1"
  obtain t where t: "register_ack \<lparr>header = \<lparr>kind = CBC_ACK, clock = c, len = 0\<rparr>, payload = None\<rparr> p s = Inr t"
      "sent_only s t" "sent_ok t" "sent_list t = ack_list c ?b (sent_list s)"
    using register_ack_refines [OF Cons.prems(1), of "\<lparr>header = \<lparr>kind = CBC_ACK, clock = c, len = 0\<rparr>, payload = None\<rparr>" p]
      Cons.prems(3) by auto
  have "distinct (map sent_clock (sent_list t))" using distinct_ack_list Cons.prems(2) t(4) by simp
  with Cons.IH [OF t(3)] Cons.prems(3) obtain s' where
    "register_acks c ps t = Inr s'" "sent_ok s'" "sent_only t s'"
    "find_clock c (sent_list s') = after_acks ps (find_clock c (sent_list t))" by auto
  with t sent_only_trans [OF t(2)] find_clock_ack_list [OF Cons.prems(2), of c ?b] show ?case
    by (cases "find_clock c (sent_list s)") (auto split: if_splits)
qed

lemma after_acks_gone:
  assumes "ack_target m = pid_bits ts" "\<forall>t \<in> set ts. unat t < 31" "set ps \<subseteq> (\<lambda>t. ucast t) ` set ts"
    and "ack_bitmap m = pid_bits as" "set as \<subset> set ts"
  shows "after_acks ps (Some m) = None \<longleftrightarrow> set ts \<subseteq> set as \<union> (\<lambda>p. ucast p) ` set ps"
  using assms
proof (induction ps arbitrary: m as)
  case Nil
  then show ?case by auto
next
  case (Cons p ps)
  let ?p = "ucast p :: u64" and ?m = "set_ack (push_bit (unat p) 1) m"
  have p: "?p \<in> set ts"
  proof -
    obtain t where t: "t \<in> set ts" "p = ucast t" using Cons.prems(3) by auto
    then have "unat t < 65536" using Cons.prems(2) by fastforce
    with t show ?thesis by (simp add: unat_ucast_small)
  qed
  have b: "ack_bitmap ?m = pid_bits (as @ [?p])"
    using Cons.prems(4) by (simp add: pid_bits_snoc push_bit_ucast del: push_bit_of_1)
  have sub: "set (as @ [?p]) \<subseteq> set ts" using Cons.prems(5) p by auto
  have full: "acked ?m \<longleftrightarrow> set (as @ [?p]) = set ts"
    unfolding acked_def b using Cons.prems(1,2) sub
    by (subst set_ack_simps, simp only: Cons.prems(1), intro pid_bits_eq_iff) auto
  show ?case
  proof (cases "acked ?m")
    case True
    with full show ?thesis by auto
  next
    case False
    have "after_acks ps (Some ?m) = None \<longleftrightarrow> set ts \<subseteq> set (as @ [?p]) \<union> (\<lambda>p. ucast p) ` set ps"
      using Cons.prems b sub False full by (intro Cons.IH) auto
    with False show ?thesis by auto
  qed
qed

section \<open>Properties\<close>

text \<open>One sent message with the clock \<open>c\<close> and the targets \<open>ts\<close> in the sent buffer.\<close>

definition sent_example :: "u16 \<Rightarrow> u64 list \<Rightarrow> node" where
  "sent_example c ts = (initial_node 0 5 [worker_peer 1, worker_peer 2])\<lparr>sent_msg_buffer := [0],
     sent_heap := [0 \<mapsto> \<lparr>sent_message = one_byte CBC_DATA c, ack_target = pid_bits ts, ack_bitmap = 0\<rparr>],
     next_ptr := 1\<rparr>"

lemma sent_example_ok: "sent_ok (sent_example c ts)"
  by (auto simp: sent_ok_def sent_example_def sent_msg_ok_def)

lemma sent_example_list:
  "sent_list (sent_example c ts) = [\<lparr>sent_message = one_byte CBC_DATA c, ack_target = pid_bits ts, ack_bitmap = 0\<rparr>]"
  by (simp add: sent_list_def sent_example_def sent_at_def)

text \<open>
  C8: register_ack refines an operation on the list of sent messages: for every acknowledgement
  from a process below 31 it returns, keeps the sent buffer well-formed (distinct live
  pointers), and the list of messages it leaves is the old one with the sender's bit set in the
  first message with the clock, that message removed iff its bitmap then equals its target. A
  message that is removed is freed: its object is gone from the heap, every other object stays,
  and the number of live blocks drops by exactly the blocks of that message; when none is
  removed, nothing is freed. Nothing else of the context changes.
\<close>

theorem register_ack_refinement:
  assumes "sent_ok s" "kind (header ack) = CBC_ACK" "unat p < 31"
  shows "\<exists>s'. register_ack ack p s = Inr s' \<and> sent_ok s' \<and> sent_only s s'
     \<and> sent_list s' = ack_list (clock (header ack)) (push_bit (unat p) 1) (sent_list s)
     \<and> frees_removed s s'"
  using register_ack_refines [OF assms] by blast

theorem register_ack_refinement_witness:
  "(\<exists>s'. register_ack \<lparr>header = \<lparr>kind = CBC_ACK, clock = 7, len = 0\<rparr>, payload = None\<rparr> 2 (sent_example 7 [1, 2]) = Inr s'
     \<and> sent_list s' = [\<lparr>sent_message = one_byte CBC_DATA 7, ack_target = pid_bits [1, 2], ack_bitmap = pid_bits [2]\<rparr>]
     \<and> live (mem s') = 0)
   \<and> (\<exists>s'. register_ack \<lparr>header = \<lparr>kind = CBC_ACK, clock = 7, len = 0\<rparr>, payload = None\<rparr> 2 (sent_example 7 [2]) = Inr s'
     \<and> sent_list s' = [] \<and> sent_heap s' 0 = None \<and> live (mem s') = - 4)"
proof (intro conjI)
  let ?ack = "\<lparr>header = \<lparr>kind = CBC_ACK, clock = 7, len = 0\<rparr>, payload = None\<rparr>"
  have f: "live (mem (sent_example c ts)) = 0" "sent_msg_buffer (sent_example c ts) = [0]"
      "sent_blocks (sent_list (sent_example c ts)) = 4" for c ts
    by (simp_all add: sent_example_def fresh_memory_def)
      (simp add: sent_list_def sent_blocks_def blocks_of_sent_def cbc_msg_blocks_def sent_at_def)
  show "\<exists>s'. register_ack ?ack 2 (sent_example 7 [1, 2]) = Inr s'
     \<and> sent_list s' = [\<lparr>sent_message = one_byte CBC_DATA 7, ack_target = pid_bits [1, 2], ack_bitmap = pid_bits [2]\<rparr>]
     \<and> live (mem s') = 0"
    using register_ack_refinement [OF sent_example_ok, of ?ack 2 7 "[1, 2]"] f(1,3) [of 7 "[1, 2]"]
    by (fastforce simp: sent_example_list ack_list_def sent_clock_def acked_def set_ack_def pid_bit_def frees_removed_def
        sent_blocks_def blocks_of_sent_def cbc_msg_blocks_def)
  show "\<exists>s'. register_ack ?ack 2 (sent_example 7 [2]) = Inr s'
     \<and> sent_list s' = [] \<and> sent_heap s' 0 = None \<and> live (mem s') = - 4"
  proof -
    obtain t where t: "register_ack ?ack 2 (sent_example 7 [2]) = Inr t" "sent_list t = []" "frees_removed (sent_example 7 [2]) t"
      using register_ack_refinement [OF sent_example_ok, of ?ack 2 7 "[2]"]
      by (auto simp: sent_example_list ack_list_def sent_clock_def acked_def set_ack_def pid_bit_def arrdel_def remove_nth_def)
    then have "sent_msg_buffer t = []" by (simp add: sent_list_def)
    with t f [of 7 "[2]"] have "0 \<notin> dom (sent_heap t)" "live (mem t) = - 4"
      unfolding frees_removed_def by (simp_all add: sent_blocks_def)
    with t show ?thesis by (auto simp: domIff)
  qed
qed

text \<open>
  C9: A sent message whose target is the set of bits of the processes ts (below 31) leaves the
  sent buffer after acknowledgements from processes of ts, in any order and with repetitions,
  exactly when every process of ts has acknowledged: never earlier, and at the latest with the
  last missing acknowledgement.
\<close>

theorem fully_acked_iff:
  assumes "sent_ok s" "distinct (map sent_clock (sent_list s))" "find_clock c (sent_list s) = Some m"
    and "ack_target m = pid_bits ts" "ack_bitmap m = 0" "ts \<noteq> []" "\<forall>t \<in> set ts. unat t < 31"
    and "set ps \<subseteq> (\<lambda>t. ucast t) ` set ts"
  shows "\<exists>s'. register_acks c ps s = Inr s'
     \<and> (find_clock c (sent_list s') = None \<longleftrightarrow> set ts \<subseteq> (\<lambda>p. ucast p) ` set ps)"
proof -
  have "unat p < 31" if p: "p \<in> set ps" for p
  proof -
    obtain t where t: "t \<in> set ts" "p = ucast t" using assms(8) p by auto
    then have "unat t < 31" using assms(7) by blast
    with t(2) show ?thesis by (simp add: unat_ucast_small)
  qed
  then obtain s' where "register_acks c ps s = Inr s'"
      "find_clock c (sent_list s') = after_acks ps (find_clock c (sent_list s))"
    using register_acks_run [OF assms(1,2)] by blast
  with after_acks_gone [OF assms(4,7,8), of "[]"] assms(3,5,6) show ?thesis by (cases ts) auto
qed

theorem fully_acked_iff_witness:
  "\<exists>s'. register_acks 7 [2, 2, 1] (sent_example 7 [1, 2]) = Inr s'
     \<and> (find_clock 7 (sent_list s') = None \<longleftrightarrow> set [1, 2 :: u64] \<subseteq> (\<lambda>p. ucast p) ` set [2, 2, 1 :: u16])"
  by (rule fully_acked_iff [OF sent_example_ok _ _, of _ _ _ "\<lparr>sent_message = one_byte CBC_DATA 7, ack_target = pid_bits [1, 2], ack_bitmap = 0\<rparr>"])
    (auto simp: sent_example_list sent_clock_def)

text \<open>
  A message whose bitmap has a bit that is not in its target is never removed by
  acknowledgements: whatever processes acknowledge it, in whatever order, it stays in the sent
  buffer. handle_dead_peers puts messages in this state when it marks a peer dead that a
  message was not addressed to.
\<close>

theorem foreign_bit_never_acked:
  assumes "sent_ok s" "distinct (map sent_clock (sent_list s))" "find_clock c (sent_list s) = Some m"
    and "bit (ack_bitmap m) n" "\<not> bit (ack_target m) n" "\<forall>p \<in> set ps. unat p < 31"
  shows "\<exists>s' m'. register_acks c ps s = Inr s' \<and> find_clock c (sent_list s') = Some m'
     \<and> sent_message m' = sent_message m"
proof -
  have stays: "\<exists>m'. after_acks ps (Some m) = Some m' \<and> sent_message m' = sent_message m"
    if "bit (ack_bitmap m) n" "\<not> bit (ack_target m) n" for ps m
    using that
  proof (induction ps arbitrary: m)
    case (Cons p ps)
    let ?m = "set_ack (push_bit (unat p) 1) m"
    have b: "bit (ack_bitmap ?m) n" "\<not> bit (ack_target ?m) n"
      using Cons.prems by (simp_all add: bit_or_iff)
    then have "\<not> acked ?m" unfolding acked_def by metis
    with Cons.IH [OF b] show ?case by simp
  qed simp
  obtain s' where "register_acks c ps s = Inr s'"
      "find_clock c (sent_list s') = after_acks ps (find_clock c (sent_list s))"
    using register_acks_run [OF assms(1,2,6)] by blast
  with stays [OF assms(4,5)] assms(3) show ?thesis by auto
qed

definition stuck_example :: node where
  "stuck_example = (sent_example 7 [1])\<lparr>sent_heap :=
     [0 \<mapsto> \<lparr>sent_message = one_byte CBC_DATA 7, ack_target = pid_bits [1], ack_bitmap = pid_bits [2]\<rparr>]\<rparr>"

theorem foreign_bit_never_acked_witness:
  "\<exists>s' m'. register_acks 7 [1, 1] stuck_example = Inr s' \<and> find_clock 7 (sent_list s') = Some m'
     \<and> sent_message m' = one_byte CBC_DATA 7"
  using foreign_bit_never_acked [of stuck_example 7
      "\<lparr>sent_message = one_byte CBC_DATA 7, ack_target = pid_bits [1], ack_bitmap = pid_bits [2]\<rparr>" 2 "[1, 1]"]
  by (simp add: stuck_example_def sent_example_def sent_ok_def sent_msg_ok_def sent_list_def sent_at_def
      sent_clock_def bit_pid_bit)

end
