(* ===== verification/RecvThread.thy ===== *)
theory RecvThread
  imports Delivery Acks
begin

text \<open>
  The receive thread, driven by arbitrary datagrams, failures of \<open>recvfrom\<close> and allocation
  failures. \<open>proc_inv\<close> collects the invariants of the components; every round keeps it.
  With enough memory a round fails only on the messages \<open>handle_data_msg\<close> gives up on.
\<close>

section \<open>The invariant of a process\<close>

definition queue_ok :: "node \<Rightarrow> bool" where
  "queue_ok s \<longleftrightarrow> (\<forall>out \<in> set (send_queue s). msg_wf (out_message out))"

definition pids_ok :: "node \<Rightarrow> bool" where
  "pids_ok s \<longleftrightarrow> small_pids (peers s) \<and> pid s \<notin> peer_pid ` set (peers s)
     \<and> unat (pid s) < length (vc_clock (vclock s))"

definition proc_inv :: "node \<Rightarrow> bool" where
  "proc_inv s \<longleftrightarrow> fifo_ok s \<and> held_ok s \<and> sent_ok s \<and> queue_ok s \<and> pids_ok s"

lemmas proc_invD = proc_inv_def [THEN iffD1]

lemma delivery_view_fields:
  assumes "delivery_view s' = delivery_view s"
  shows "pid s' = pid s" "vclock s' = vclock s" "held_msg_buffer s' = held_msg_buffer s"
    "delivery_queue s' = delivery_queue s" "delivered s' = delivered s"
  using assms by (simp_all add: delivery_view_def)

lemma pids_ok_cong:
  "map peer_pid (peers s') = map peer_pid (peers s) \<Longrightarrow> pid s' = pid s \<Longrightarrow>
     length (vc_clock (vclock s')) = length (vc_clock (vclock s)) \<Longrightarrow> pids_ok s' = pids_ok s"
  by (simp add: pids_ok_def small_pids_iff flip: set_map)

lemma proc_inv_cong:
  assumes "delivery_view s' = delivery_view s" "sent_view s' = sent_view s"
    "map peer_pid (peers s') = map peer_pid (peers s)" "queue_ok s \<Longrightarrow> queue_ok s'" "proc_inv s"
  shows "proc_inv s'"
  using assms delivery_view_cong(1,2) [OF assms(1)] sent_view_cong(1) [OF assms(2)]
    pids_ok_cong [OF assms(3)] delivery_view_fields [OF assms(1)]
  by (auto simp: proc_inv_def)

lemma quiet_queue_inv:
  assumes q: "quiet s s'" and sq: "send_queue s' = send_queue s @ outs"
    and wf: "\<forall>out \<in> set outs. msg_wf (out_message out)" and inv: "proc_inv s"
  shows "proc_inv s'"
  by (rule proc_inv_cong [OF quiet_views(1) [OF q] quiet_views(2) [OF q] _ _ inv])
    (use quiet_views(3) [OF q] sq wf in \<open>auto simp: queue_ok_def\<close>)

lemma answer_wf: "header_only k \<Longrightarrow> out \<in> set (answer k c p ps) \<Longrightarrow> msg_wf (out_message out)"
  by (auto simp: answer_def msg_wf_def split: option.splits)

lemma answer_wf_ack [simp]: "out \<in> set (answer CBC_ACK c p ps) \<Longrightarrow> msg_wf (out_message out)"
  and answer_wf_req [simp]: "out \<in> set (answer CBC_RETRANSMIT_REQ c p ps) \<Longrightarrow> msg_wf (out_message out)"
  by (rule answer_wf; auto simp: header_only_def)+

section \<open>Known senders\<close>

lemma pid_of_addr_cases:
  "pid_of_addr a ps = UINT16_MAX \<or> (\<exists>q \<in> set ps. peer_addr q = a \<and> pid_of_addr a ps = ucast (peer_pid q))"
  by (induction ps rule: rev_induct) auto

definition known :: "u16 \<Rightarrow> node \<Rightarrow> bool" where
  "known p s \<longleftrightarrow> unat p < 31 \<and> ucast p \<in> peer_pid ` set (peers s)"

lemma known_sender:
  assumes "pids_ok s" "pid_of_addr a (peers s) \<noteq> UINT16_MAX"
  shows "known (pid_of_addr a (peers s)) s"
proof -
  obtain q where q: "q \<in> set (peers s)" "pid_of_addr a (peers s) = ucast (peer_pid q)"
    using pid_of_addr_cases [of a "peers s"] assms(2) by blast
  then have "unat (peer_pid q) < 31" using assms(1) by (auto simp: pids_ok_def small_pids_def)
  then have "unat (ucast (peer_pid q) :: u16) < 31" "ucast (ucast (peer_pid q) :: u16) = peer_pid q"
    by (simp_all add: unat_ucast_small)
  with q show ?thesis by (auto simp: known_def)
qed

lemma knownD:
  assumes "known p s" "pids_ok s"
  shows "unat p < 31" "ucast p \<noteq> pid s" "p \<noteq> UINT16_MAX" "addr_of_pid (ucast p) (peers s) \<noteq> None"
proof -
  show "unat p < 31" using assms by (simp add: known_def)
  then show "p \<noteq> UINT16_MAX" by (auto simp: UINT16_MAX_def)
  show "ucast p \<noteq> pid s" using assms by (auto simp: known_def pids_ok_def)
  show "addr_of_pid (ucast p) (peers s) \<noteq> None"
    using assms(1) by (intro addr_of_pid_defined) (simp add: known_def)
qed

lemma known_cong: "peers s' = peers s \<Longrightarrow> known p s' = known p s"
  by (simp add: known_def)

section \<open>The receive thread keeps the invariant\<close>

lemma handle_data_msg_inv:
  assumes inv: "proc_inv s" and p: "known p s" and run: "handle_data_msg msg p s = Inr s'"
  shows "proc_inv s'"
proof -
  have ok: "fifo_ok s" "ucast p \<noteq> pid s" using inv knownD [OF p] by (simp_all add: proc_inv_def)
  note keeps = handle_data_msg_keeps [OF ok run] and e = handle_data_msg_Inr [OF ok run]
  have "queue_ok s'"
    using e inv by (auto simp: delivered_by_def held_by_def proc_inv_def queue_ok_def split: causality_t.splits)
  moreover have "vc_len (vclock s') = vc_len (vclock s)"
    using e quiet_views(4) by (auto simp: delivered_by_def held_by_def advanced_def split: causality_t.splits)
  moreover have "vc_wf (vclock s)" "vc_wf (vclock s')" using ok keeps(1) by (simp_all add: fifo_ok_def)
  ultimately show ?thesis
    using inv keeps sent_view_cong(1) [OF keeps(5)] pids_ok_cong [of s' s]
    by (simp add: proc_inv_def vc_wf_def)
qed

lemma sent_only_inv:
  assumes "sent_only s s'" "sent_ok s'" "proc_inv s" shows "proc_inv s'"
proof -
  note v = sent_only_views [OF assms(1)]
  show ?thesis
    using assms(2,3) v delivery_view_cong(1,2) [OF v(1)] pids_ok_cong [of s' s]
    by (simp add: proc_inv_def queue_ok_def)
qed

lemma locks_inv [simp]: "proc_inv (mutex_lock l s) = proc_inv s" "proc_inv (mutex_unlock l s) = proc_inv s"
  and mem_inv [simp]: "proc_inv (s\<lparr>mem := m\<rparr>) = proc_inv s"
proof -
  have *: "proc_inv s' = proc_inv s" if "delivery_view s' = delivery_view s" "sent_view s' = sent_view s"
      "peers s' = peers s" "send_queue s' = send_queue s" for s s' :: node
    using proc_inv_cong [of s s'] proc_inv_cong [of s' s] that by (auto simp: queue_ok_def)
  show "proc_inv (mutex_lock l s) = proc_inv s" "proc_inv (mutex_unlock l s) = proc_inv s"
    "proc_inv (s\<lparr>mem := m\<rparr>) = proc_inv s"
    by (rule *; simp)+
qed

lemma register_ack_inv:
  assumes inv: "proc_inv s" and p: "unat p < 31" and run: "register_ack ack p s = Inr s'"
  shows "proc_inv s'" "alloc_ok (mem s') = alloc_ok (mem s)" "peers s' = peers s"
proof -
  have k: "kind (header ack) = CBC_ACK" using run by (auto simp: register_ack_def split: if_splits)
  have "sent_ok s" using inv by (simp add: proc_inv_def)
  from register_ack_refines [OF this k p] run
  have "sent_only s s'" "sent_ok s'" "alloc_ok (mem s') = alloc_ok (mem s)" by auto
  then show "proc_inv s'" "alloc_ok (mem s') = alloc_ok (mem s)" "peers s' = peers s"
    using sent_only_inv inv sent_only_views(2) by auto
qed

text \<open>The retransmission that answers a request for the clock \<open>c\<close>.\<close>

definition requested :: "u16 \<Rightarrow> u16 \<Rightarrow> node \<Rightarrow> cbcast_outgoing_msg list" where
  "requested c p s = (case find_clock c (sent_list s) of None \<Rightarrow> []
     | Some m \<Rightarrow> [retransmission_to m (peers s) (ucast p)])"

lemma requested_wf: "sent_ok s \<Longrightarrow> out \<in> set (requested c p s) \<Longrightarrow> msg_wf (out_message out)"
proof -
  assume ok: "sent_ok s" and out: "out \<in> set (requested c p s)"
  then obtain m where m: "find_clock c (sent_list s) = Some m" "out = retransmission_to m (peers s) (ucast p)"
    by (cases "find_clock c (sent_list s)") (auto simp: requested_def)
  then have "m \<in> set (sent_list s)"
    by (auto simp: find_clock_def dest: first_index_lt)
  then have "sent_msg_ok m" using sent_ok_msg [OF ok] by (auto simp: sent_list_def)
  with m show "msg_wf (out_message out)" using retransmission_wf by (simp add: retransmission_to_def)
qed

lemma queue_retransmission_run:
  assumes ok: "sent_ok s" and p: "p \<noteq> UINT16_MAX"
  obtains "find_clock (clock (header msg)) (sent_list s) = None"
      "queue_retransmission msg p s = Inr (mutex_unlock SEND_LOCK (mutex_lock SEND_LOCK s))"
  | m where "find_clock (clock (header msg)) (sent_list s) = Some m" "sent_msg_ok m"
      "sent_clock m = clock (header msg)"
      "queue_retransmission msg p s =
      andthen (cbc_msg_create CBC_RETRANSMIT (payload (sent_message m)) (len (header (sent_message m))) (mem s)) (\<lambda>(r, m).
      andthen (result_unwrap r) (\<lambda>retransmit_msg.
      andthen (cbc_peer_get_addr_copy (ucast p) (mutex_unlock SEND_LOCK ((mutex_lock SEND_LOCK s)\<lparr>mem := m\<rparr>))) (\<lambda>(sender_addr, s).
      let (r, m) = cbc_outgoing_msg_create (set_clock (clock (header msg)) retransmit_msg) sender_addr (mem s)
      in andthen (result_unwrap r) (\<lambda>outgoing. Inr (enqueue_outgoing outgoing (s\<lparr>mem := m\<rparr>))))))"
proof -
  let ?c = "clock (header msg)" and ?l = "mutex_lock SEND_LOCK s"
  let ?P = "\<lambda>m. clock (header (sent_message m)) = ?c"
  have fs: "find_sent ?P 0 (sent_msg_buffer s) ?l = Inr (first_index (?P \<circ> sent_at s) (sent_msg_buffer s))"
    using find_sent_total [of "sent_msg_buffer s" ?l ?P 0] sent_ok_live' [OF ok]
    by (simp add: sent_at_def comp_def option.map_ident)
  have fc: "find_clock ?c (sent_list s) =
      map_option (\<lambda>i. sent_at s (sent_msg_buffer s ! i)) (first_index (?P \<circ> sent_at s) (sent_msg_buffer s))"
    by (cases "first_index (?P \<circ> sent_at s) (sent_msg_buffer s)")
      (auto simp: find_clock_def sent_list_def first_index_map sent_clock_def comp_def dest: first_index_lt)
  show thesis
  proof (cases "first_index (?P \<circ> sent_at s) (sent_msg_buffer s)")
    case None
    with p fs fc show ?thesis by (intro that(1)) (simp_all add: queue_retransmission_def Let_def)
  next
    case (Some i)
    define m where "m = sent_at s (sent_msg_buffer s ! i)"
    have i: "sent_msg_buffer s ! i \<in> set (sent_msg_buffer s)" using first_index_lt [OF Some] by simp
    note live = sent_ok_live [OF ok i, folded m_def] and mok = sent_ok_msg [OF ok i, folded m_def]
    have mc: "sent_clock m = ?c" using first_index_sat [OF Some] by (simp add: m_def sent_clock_def)
    show ?thesis
      using p fs fc Some live mok mc
      by (intro that(2) [of m]) (simp_all add: m_def queue_retransmission_def read_sent_def Let_def)
  qed
qed

lemma queue_retransmission_Inr:
  assumes ok: "sent_ok s" and r: "queue_retransmission msg p s = Inr s'"
  shows "quiet s s' \<and> alloc_ok (mem s') = alloc_ok (mem s)
     \<and> send_queue s' = send_queue s @ requested (clock (header msg)) p s"
proof -
  have p: "p \<noteq> UINT16_MAX" using r by (auto simp: queue_retransmission_def split: if_splits)
  show ?thesis
  proof (cases rule: queue_retransmission_run [OF ok p, of msg])
    case 1
    then have s': "s' = mutex_unlock SEND_LOCK (mutex_lock SEND_LOCK s)" using r by simp
    have "quiet s s'" unfolding s' using quiet_steps quiet_trans by metis
    with 1(1) show ?thesis by (simp add: s' requested_def)
  next
    case (2 m)
    let ?l = "mutex_lock SEND_LOCK s"
    obtain rm m1 where c: "cbc_msg_create CBC_RETRANSMIT (payload (sent_message m)) (len (header (sent_message m))) (mem s)
        = Inr (result_new_ok rm, m1)" using r 2(4) by auto
    let ?u = "mutex_unlock SEND_LOCK (?l\<lparr>mem := m1\<rparr>)"
    obtain a s1 where a: "cbc_peer_get_addr_copy (ucast p) ?u = Inr (a, s1)" using r 2(4) c by auto
    obtain r2 m2 where o': "cbc_outgoing_msg_create (set_clock (clock (header msg)) rm) a (mem s1) = (r2, m2)"
      by fastforce
    then obtain out where o: "cbc_outgoing_msg_create (set_clock (clock (header msg)) rm) a (mem s1) = (result_new_ok out, m2)"
      and s': "s' = enqueue_outgoing out (s1\<lparr>mem := m2\<rparr>)"
      using r 2(4) c a by auto
    note ac = cbc_peer_get_addr_copy_Inr [OF a] and oo = cbc_outgoing_msg_create_Inr [OF o]
    note cr = create_retransmission [OF 2(2) c]
    have "quiet s s'" unfolding s'
      using get_addr_copy_quiet [OF a] quiet_steps quiet_trans by metis
    moreover have "send_queue s1 = send_queue s" by (subst ac(2)) simp
    moreover have "requested (clock (header msg)) p s = [retransmission_to m (peers s) (ucast p)]"
      using 2(1) by (simp add: requested_def)
    ultimately show ?thesis
      unfolding s' using oo ac(1,3) cr 2(3) by (simp add: retransmission_to_def)
  qed
qed

lemma queue_retransmission_safe:
  assumes ok: "sent_ok s" and p: "p \<noteq> UINT16_MAX" and pl: "plenty (mem s)"
    and ad: "addr_of_pid (ucast p) (peers s) \<noteq> None"
  shows "\<exists>s'. queue_retransmission msg p s = Inr s'"
proof (cases rule: queue_retransmission_run [OF ok p, of msg])
  case 1
  then show ?thesis by simp
next
  case (2 m)
  obtain rm m1 where c: "cbc_msg_create CBC_RETRANSMIT (payload (sent_message m)) (len (header (sent_message m))) (mem s)
      = Inr (result_new_ok rm, m1)" using create_retransmission_plenty [OF 2(2) pl] by blast
  have pl1: "plenty m1" using create_retransmission(1) [OF 2(2) c] pl plenty_cong by blast
  let ?u = "mutex_unlock SEND_LOCK ((mutex_lock SEND_LOCK s)\<lparr>mem := m1\<rparr>)"
  obtain a s1 where a: "cbc_peer_get_addr_copy (ucast p) ?u = Inr (a, s1)"
    using cbc_peer_get_addr_copy_safe [of ?u "ucast p"] pl1 by auto
  note ac = cbc_peer_get_addr_copy_Inr [OF a]
  have "plenty (mem s1)" using ac(3) pl1 plenty_cong [of "mem s1" m1] by simp
  moreover have "a \<noteq> None" using ac(1) ad by simp
  ultimately obtain out m2 where "cbc_outgoing_msg_create (set_clock (clock (header msg)) rm) a (mem s1) = (result_new_ok out, m2)"
    using cbc_outgoing_msg_create_plenty by blast
  with 2(4) c a show ?thesis by simp
qed

lemma queue_retransmission_inv:
  assumes inv: "proc_inv s" and run: "queue_retransmission msg p s = Inr s'"
  shows "proc_inv s'"
proof -
  have ok: "sent_ok s" using inv by (simp add: proc_inv_def)
  show ?thesis
    using quiet_queue_inv [OF _ _ _ inv] queue_retransmission_Inr [OF ok run] requested_wf [OF ok] by blast
qed

lemma dispatch_msg_inv:
  assumes inv: "proc_inv s" and p: "known p s" and run: "dispatch_msg msg p s = Inr s'"
  shows "proc_inv s'"
proof -
  have p31: "unat p < 31" using p by (simp add: known_def)
  show ?thesis
  proof (cases "kind (header msg)")
    case CBC_ACK
    with run obtain t where t: "register_ack msg p (mutex_lock SEND_LOCK s) = Inr t"
      and s': "s' = (mutex_unlock SEND_LOCK t)\<lparr>mem := cbc_msg_free (Some msg) (mem (mutex_unlock SEND_LOCK t))\<rparr>"
      by (auto simp: dispatch_msg_def Let_def)
    have "proc_inv t" using register_ack_inv(1) [OF _ p31 t] inv by simp
    with s' show ?thesis by simp
  next
    case CBC_RETRANSMIT_REQ
    with run obtain t where "queue_retransmission msg p s = Inr t"
      and s': "s' = t\<lparr>mem := cbc_msg_free (Some msg) (mem t)\<rparr>"
      by (auto simp: dispatch_msg_def)
    then have "proc_inv t" using queue_retransmission_inv inv by blast
    with s' show ?thesis by simp
  qed (use run inv handle_data_msg_inv [OF inv p] in \<open>auto simp: dispatch_msg_def\<close>)
qed

lemma socket_rx_inv [simp]: "proc_inv (s\<lparr>socket_rx := r\<rparr>) = proc_inv s"
proof -
  have *: "proc_inv (s\<lparr>socket_rx := r\<rparr>)" if "proc_inv s" for s :: node and r
    using that by (rule proc_inv_cong [rotated 4]) (simp_all add: queue_ok_def)
  from * [of "s\<lparr>socket_rx := r\<rparr>" "socket_rx s"] * [of s r] show ?thesis by auto
qed

text \<open>
  A round of the receive thread: nothing (an error, a short datagram, a failed allocation, an
  unknown sender, an unparseable message), or one message of a known sender handled.
\<close>

definition idle :: "node \<Rightarrow> node \<Rightarrow> bool" where
  "idle s t \<longleftrightarrow> (\<exists>n m tr. t = s\<lparr>socket_rx := drop n (socket_rx s), mem := m, lock_trace := tr\<rparr>)
     \<and> alloc_ok (mem t) = alloc_ok (mem s)"

lemma idle_views:
  assumes "idle s t"
  shows "proc_inv t = proc_inv s" "known p t = known p s" "plenty (mem t) = plenty (mem s)"
    "delivery_view t = delivery_view s" "sent_view t = sent_view s" "peers t = peers s"
    "send_queue t = send_queue s" "socket_tx t = socket_tx s" "\<exists>n. socket_rx t = drop n (socket_rx s)"
    "rands t = rands s"
proof -
  obtain r m tr where t: "t = s\<lparr>socket_rx := r, mem := m, lock_trace := tr\<rparr>" "\<exists>n. r = drop n (socket_rx s)"
    and "alloc_ok (mem t) = alloc_ok (mem s)" using assms unfolding idle_def by blast
  then show "known p t = known p s" "plenty (mem t) = plenty (mem s)"
    "delivery_view t = delivery_view s" "sent_view t = sent_view s" "peers t = peers s"
    "send_queue t = send_queue s" "socket_tx t = socket_tx s" "\<exists>n. socket_rx t = drop n (socket_rx s)"
    "rands t = rands s"
    by (simp_all add: known_def plenty_def delivery_view_def sent_view_def)
  have q: "quiet (s\<lparr>socket_rx := r\<rparr>) t"
    by (rule quietI [where q = "send_queue s" and m = m and t = tr]) (simp add: t)
  have q': "quiet t (s\<lparr>socket_rx := r\<rparr>)"
    by (rule quietI [where q = "send_queue s" and m = "mem s" and t = "lock_trace s"]) (simp add: t)
  show "proc_inv t = proc_inv s"
    using quiet_queue_inv [OF q, of "[]"] quiet_queue_inv [OF q', of "[]"] t by auto
qed

lemma hdr_of_bytes_prefix:
  assumes "hdr_size \<le> length bs"
  shows "hdr_of_bytes (take hdr_size bs @ xs) = hdr_of_bytes bs"
proof -
  have l: "length (take hdr_size bs) = hdr_size" using assms by simp
  have e: "bytes_of_hdr (hdr_of_bytes (take hdr_size bs)) = take hdr_size bs"
    and w: "kind_ok (kind (hdr_of_bytes (take hdr_size bs)))"
    using hdrc.enc_dec [OF l] hdrc.wf_dec [OF l] by simp_all
  have "hdr_of_bytes (take hdr_size bs @ ys) = hdr_of_bytes (take hdr_size bs)" for ys
    using hdrc.dec_enc [of "hdr_of_bytes (take hdr_size bs)" ys] w e by simp
  from this [of xs] this [of "drop hdr_size bs"] show ?thesis by simp
qed

lemma of_nat_u64_eq: "a < 100000 \<Longrightarrow> b < 100000 \<Longrightarrow> (of_nat a :: u64) = of_nat b \<longleftrightarrow> a = b"
  by (simp add: word_unat_eq_iff unsigned_of_nat take_bit_nat_eq_self)

lemma of_nat_u64_less: "a < 100000 \<Longrightarrow> b < 100000 \<Longrightarrow> (of_nat a :: u64) < of_nat b \<longleftrightarrow> a < b"
  by (simp add: word_less_nat_alt unsigned_of_nat take_bit_nat_eq_self)

lemma minus_one_u64: "n < 100000 \<Longrightarrow> (-1 :: u64) \<noteq> of_nat n" "\<not> (-1 :: u64) < of_nat n"
proof -
  assume "n < 100000"
  then have "unat (of_nat n :: u64) < 100000" by (simp add: unsigned_of_nat take_bit_nat_eq_self)
  moreover have "unat (-1 :: u64) = 18446744073709551615"
    by (simp add: unsigned_minus_1_eq_mask mask_eq_exp_minus_1)
  ultimately have "unat (of_nat n :: u64) \<noteq> unat (-1 :: u64)" by linarith
  then show "(-1 :: u64) \<noteq> of_nat n" by metis
qed simp

lemma idleI:
  "t = s\<lparr>socket_rx := drop n (socket_rx s), mem := m, lock_trace := tr\<rparr> \<Longrightarrow> alloc_ok m = alloc_ok (mem s) \<Longrightarrow>
     idle s t"
  unfolding idle_def by auto

lemma idle_self: "alloc_ok m = alloc_ok (mem s) \<Longrightarrow> idle s (s\<lparr>mem := m\<rparr>)"
  by (rule idleI [where n = 0 and m = m and tr = "lock_trace s"]) simp_all

lemma idle_refl [simp]: "idle s s"
  using idle_self [of "mem s" s] by simp

lemma full_size_bound: "hdr_size + unat (len h) < 100000"
  using unat_u16_less [of "len h"] by (simp add: hdr_size_def)

lemma cbc_msg_deserialize_alloc:
  "cbc_msg_deserialize bs m = Inr (r, m') \<Longrightarrow> alloc_ok m' = alloc_ok m"
  by (auto simp: cbc_msg_deserialize_def calloc_def Let_def c_free_def split: if_splits)

text \<open>The first \<open>recvfrom\<close>: what it leaves in the header buffer.\<close>

lemma peek_cases:
  assumes "c_recvfrom fails hdr_size True s = Some (n, bs, a, t)"
  obtains "fails" "n = -1" "bs = []" "t = s"
  | "\<not> fails" "socket_rx s \<noteq> []" "t = s" "bs = take hdr_size (snd (hd (socket_rx s)))"
    "n < of_nat hdr_size \<longleftrightarrow> length (snd (hd (socket_rx s))) < hdr_size"
proof (cases fails)
  case True
  with assms that(1) show thesis by (simp add: c_recvfrom_def)
next
  case False
  with assms obtain d rest where rx: "socket_rx s = d # rest"
    by (cases "socket_rx s") (auto simp: c_recvfrom_def)
  have "min hdr_size (length (snd d)) < 100000" "hdr_size < 100000" by (auto simp: hdr_size_def)
  note lt = of_nat_u64_less [OF this]
  show thesis
    using assms False rx lt by (intro that(2)) (auto simp: c_recvfrom_def split: prod.splits)
qed

lemma take_cases:
  assumes "c_recvfrom fails k False s = Some (n, bs, a, t)" and "k < 100000"
  obtains "n \<noteq> of_nat k" "t = s \<or> t = s\<lparr>socket_rx := tl (socket_rx s)\<rparr>"
  | "\<not> fails" "socket_rx s \<noteq> []" "t = s\<lparr>socket_rx := tl (socket_rx s)\<rparr>" "n = of_nat k"
    "a = Some (fst (hd (socket_rx s)))" "bs = take k (snd (hd (socket_rx s)))" "length bs = k"
proof (cases fails)
  case True
  then have "n = -1" "t = s" using assms(1) by (simp_all add: c_recvfrom_def)
  show thesis
  proof (rule that(1))
    show "n \<noteq> of_nat k" unfolding \<open>n = -1\<close> by (rule minus_one_u64(1) [OF assms(2)])
  qed (use \<open>t = s\<close> in blast)
next
  case False
  with assms obtain x d rest where rx: "socket_rx s = (x, d) # rest"
    by (cases "socket_rx s") (auto simp: c_recvfrom_def)
  have r: "n = of_nat (min k (length d))" "bs = take k d" "a = Some x" "t = s\<lparr>socket_rx := rest\<rparr>"
    using assms(1) False rx by (auto simp: c_recvfrom_def)
  show thesis
  proof (cases "k \<le> length d")
    case True
    with r rx False show thesis by (intro that(2)) auto
  next
    case short: False
    then have "n \<noteq> of_nat k" using r(1) of_nat_u64_eq [of "min k (length d)" k] assms(2) by auto
    with r rx show thesis by (intro that(1)) auto
  qed
qed

lemma parse_and_dispatch_cases:
  assumes "parse_and_dispatch bs p s = out"
  obtains t where "out = Inr t" "idle s t"
  | e where "cbc_msg_deserialize bs (mem s) = Inl e" "out = Inl e" "\<not> parseable bs"
  | t msg m' where "idle s t" "cbc_msg_deserialize bs (mem s) = Inr (result_new_ok msg, m')"
      "out = dispatch_msg msg p t"
proof (cases "cbc_msg_deserialize bs (mem s)")
  case (Inl e)
  then have "\<not> parseable bs" using cbc_msg_deserialize_cases [of bs "mem s" False] by auto
  with Inl assms that(2) show thesis by (auto simp: parse_and_dispatch_def)
next
  case (Inr rm)
  obtain r m where rm: "rm = (r, m)" by fastforce
  have i: "idle s (s\<lparr>mem := c_free 1 m\<rparr>)"
    using Inr rm cbc_msg_deserialize_alloc by (intro idle_self) simp
  show thesis
  proof (cases r rule: result_cases)
    case (Ok msg)
    with Inr rm i assms that(3) show thesis by (auto simp: parse_and_dispatch_def)
  next
    case (Err e)
    with Inr rm i assms that(1) show thesis by (auto simp: parse_and_dispatch_def)
  qed
qed

lemma recv_full_cases:
  assumes run: "recv_full recv_fails k s = Some out" and k: "k < 100000"
  obtains t where "out = Inr t" "idle s t"
  | t where "\<not> recv_fails" "socket_rx s \<noteq> []" "idle s t" "length (take k (snd (hd (socket_rx s)))) = k"
      "pid_of_addr (fst (hd (socket_rx s))) (peers s) \<noteq> UINT16_MAX" "mem t = mem s"
      "out = parse_and_dispatch (take k (snd (hd (socket_rx s)))) (pid_of_addr (fst (hd (socket_rx s))) (peers s)) t"
proof -
  obtain n bs a u where tk: "c_recvfrom recv_fails k False s = Some (n, bs, a, u)"
    using run by (cases "c_recvfrom recv_fails k False s") (auto simp: recv_full_def)
  have tl: "idle s (s\<lparr>socket_rx := drop n (socket_rx s), mem := m, lock_trace := tr\<rparr>)"
    if "alloc_ok m = alloc_ok (mem s)" for n m tr
    by (rule idleI [OF refl that])
  show thesis
  proof (cases rule: take_cases [OF tk k])
    case 1
    have "out = Inr (u\<lparr>mem := c_free 1 (mem u)\<rparr>)"
      using run tk 1(1) by (auto simp: recv_full_def)
    moreover have "idle s (u\<lparr>mem := c_free 1 (mem u)\<rparr>)"
      using 1(2) tl [of "c_free 1 (mem s)" "lock_trace s" 0]
        tl [of "c_free 1 (mem s)" "lock_trace s" 1] by (auto simp: drop_Suc)
    ultimately show thesis by (rule that(1))
  next
    case 2
    let ?p = "pid_of_addr (fst (hd (socket_rx s))) (peers s)"
    let ?w = "mutex_unlock PEER_LOCK (mutex_lock PEER_LOCK u)"
    have fa: "cbc_peer_find_by_addr (the a) u = (?p, ?w)" using 2 by (simp add: cbc_peer_find_by_addr_eq)
    have wi: "idle s (?w\<lparr>mem := m\<rparr>)" if "alloc_ok m = alloc_ok (mem s)" for m
      by (rule idleI [where n = 1 and m = m
            and tr = "lock_trace s @ [Lock PEER_LOCK, Unlock PEER_LOCK]"])
        (simp_all add: that 2(3) mutex_lock_def mutex_unlock_def drop_Suc)
    have out: "out = (if ?p = UINT16_MAX then Inr (?w\<lparr>mem := c_free 1 (mem ?w)\<rparr>) else parse_and_dispatch bs ?p ?w)"
      using run tk fa 2(4) by (auto simp: recv_full_def split: if_splits)
    show thesis
    proof (cases "?p = UINT16_MAX")
      case True
      with out wi show thesis by (intro that(1) [of "?w\<lparr>mem := c_free 1 (mem ?w)\<rparr>"]) (auto simp: 2(3))
    next
      case False
      have "idle s ?w"
        by (rule idleI [where n = 1 and m = "mem s"
              and tr = "lock_trace s @ [Lock PEER_LOCK, Unlock PEER_LOCK]"])
          (simp_all add: 2(3) mutex_lock_def mutex_unlock_def drop_Suc)
      with False out 2 show thesis by (intro that(2) [of ?w]) (auto simp: 2(3))
    qed
  qed
qed

text \<open>When the peek worked, the bytes taken are those the header announces.\<close>

lemma peeked_bytes:
  assumes pk: "c_recvfrom False hdr_size True s = Some (n, bs, a, t)" and n: "\<not> n < of_nat hdr_size"
    and k: "k = hdr_size + unat (len (hdr_of_bytes (bs @ xs)))"
    and l: "length (take k (snd (hd (socket_rx s)))) = k"
  shows "take k (snd (hd (socket_rx s))) = received_bytes (snd (hd (socket_rx s)))
    \<and> parseable (take k (snd (hd (socket_rx s))))"
proof (cases rule: peek_cases [OF pk])
  case 1
  then show ?thesis by simp
next
  case 2
  let ?d = "snd (hd (socket_rx s))" and ?full = "take k (snd (hd (socket_rx s)))"
  have "hdr_size \<le> length ?d" using 2(5) n by auto
  then have h: "hdr_of_bytes (bs @ xs) = hdr_of_bytes ?d" using hdr_of_bytes_prefix 2(4) by simp
  have "?full = received_bytes ?d" using k h by (simp add: received_bytes_def)
  moreover have "parseable ?full"
  proof -
    have "hdr_size \<le> length ?full" using k l by simp
    then have "hdr_of_bytes ?full = hdr_of_bytes (take hdr_size ?full @ drop hdr_size ?d)"
      using hdr_of_bytes_prefix by metis
    also have "take hdr_size ?full = take hdr_size ?d" using k by (simp add: min_def)
    finally have "hdr_of_bytes ?full = hdr_of_bytes ?d" by simp
    then show ?thesis using k l h by (simp add: parseable_def)
  qed
  ultimately show ?thesis by blast
qed

lemma idle_trans: "idle s t \<Longrightarrow> idle t u \<Longrightarrow> idle s u"
  by (clarsimp simp: idle_def) (metis drop_drop)

lemma hdr_of_take:
  assumes "hdr_size \<le> k" "hdr_size \<le> length d"
  shows "hdr_of_bytes (take k d) = hdr_of_bytes d"
  using assms hdr_of_bytes_prefix [of "take k d" "drop hdr_size d"] hdr_of_bytes_prefix [of d "drop hdr_size d"]
  by (simp add: min_def)

lemma deserialize_prefix:
  assumes "cbc_msg_deserialize (take k d) m = Inr (result_new_ok msg, m')" "k \<le> length d" "hdr_size \<le> k"
  shows "msg = parsed_msg d"
proof -
  have h: "hdr_of_bytes (take k d) = hdr_of_bytes d" using hdr_of_take assms(2,3) by simp
  have "take (unat (len (hdr_of_bytes d))) (drop hdr_size (take k d)) = take (unat (len (hdr_of_bytes d))) (drop hdr_size d)"
    if "hdr_size + unat (len (hdr_of_bytes d)) \<le> k"
    using that by (simp add: drop_take min_def)
  with assms h show ?thesis
    by (auto simp: cbc_msg_deserialize_def calloc_def Let_def parsed_msg_def header_only_def split: if_splits)
qed

lemma recv_iteration_cases:
  assumes run: "cbc_recv_iteration peek_fails recv_fails hdr_buf s = Some out"
  obtains hb t where "out = Inr (hb, t)" "idle s t"
  | t bs e where "idle s t" "cbc_msg_deserialize bs (mem t) = Inl e" "out = Inl e"
      "peek_fails" "\<not> parseable bs"
  | hb t bs msg p m m' where "idle s t" "socket_rx s \<noteq> []" "p = pid_of_addr (fst (hd (socket_rx s))) (peers s)"
      "p \<noteq> UINT16_MAX" "cbc_msg_deserialize bs m = Inr (result_new_ok msg, m')"
      "msg = parsed_msg (snd (hd (socket_rx s)))"
      "hdr_size \<le> length (snd (hd (socket_rx s)))"
      "peek_fails \<or> bs = received_bytes (snd (hd (socket_rx s))) \<and> parseable bs"
      "out = andthen (dispatch_msg msg p t) (\<lambda>s. Inr (hb, s))"
proof -
  obtain n bs a t0 where pk: "c_recvfrom peek_fails hdr_size True s = Some (n, bs, a, t0)"
    using run by (cases "c_recvfrom peek_fails hdr_size True s") (auto simp: cbc_recv_iteration_def)
  have ts: "t0 = s" by (rule peek_cases [OF pk]) auto
  let ?hb = "bs @ drop (length bs) hdr_buf" and ?m = "snd (calloc (mem s))"
  let ?k = "hdr_size + unat (len (hdr_of_bytes ?hb))" and ?s = "s\<lparr>mem := snd (calloc (mem s))\<rparr>"
  have i: "idle s ?s" by (rule idle_self) (simp add: calloc_def)
  show thesis
  proof (cases "n < of_nat hdr_size \<or> \<not> fst (calloc (mem s))")
    case True
    have "out = Inr (?hb, if n < of_nat hdr_size then s else ?s)"
      using run pk ts True by (auto simp: cbc_recv_iteration_def Let_def split: prod.splits if_splits)
    then show thesis by (rule that(1)) (use i in auto)
  next
    case False
    obtain o2 where fu: "recv_full recv_fails ?k ?s = Some o2" and out: "out = andthen o2 (\<lambda>s. Inr (?hb, s))"
      using run pk ts False by (auto simp: cbc_recv_iteration_def Let_def split: prod.splits if_splits)
    let ?full = "take ?k (snd (hd (socket_rx s)))"
    show thesis
    proof (cases rule: recv_full_cases [OF fu full_size_bound])
      case (1 t)
      with out that(1) idle_trans [OF i] show thesis by auto
    next
      case (2 t)
      have rx: "socket_rx s \<noteq> []" using 2(2) by simp
      have k: "?k \<le> length (snd (hd (socket_rx s)))" using 2(4) by simp
      have full: "peek_fails \<or> ?full = received_bytes (snd (hd (socket_rx s))) \<and> parseable ?full"
      proof (cases peek_fails)
        case peeked: False
        then have "c_recvfrom False hdr_size True s = Some (n, bs, a, t0)" using pk by simp
        moreover have "length ?full = ?k" using 2(4) by simp
        ultimately show ?thesis using peeked_bytes [OF _ _ refl] False by blast
      qed simp
      note it = idle_trans [OF i 2(3)]
      show thesis
      proof (cases rule: parse_and_dispatch_cases [OF 2(7) [symmetric]])
        case (1 u)
        with out that(1) idle_trans [OF it] show thesis by auto
      next
        case (2 e)
        with out full it that(2) show thesis by auto
      next
        case (3 u msg m')
        show thesis
          by (rule that(3) [OF idle_trans [OF it 3(1)] rx refl _ _ _ _ full])
            (use 2(5) 3(2,3) out k deserialize_prefix [OF _ k] in auto)
      qed
    qed
  qed
qed

text \<open>A whole message from a peer, with enough memory, is always dispatched.\<close>

lemma recv_iteration_dispatch:
  assumes pl: "plenty (mem s)" and rx: "socket_rx s = (a, wire_bytes msg) # rest" and wf: "msg_wf msg"
    and p: "pid_of_addr a (peers s) \<noteq> UINT16_MAX"
  shows "\<exists>hb t. idle s t \<and> socket_rx t = rest
     \<and> cbc_recv_iteration False False hdr_buf s
       = Some (andthen (dispatch_msg msg (pid_of_addr a (peers s)) t) (\<lambda>s. Inr (hb, s)))"
proof -
  let ?d = "wire_bytes msg" and ?p = "pid_of_addr a (peers s)"
  let ?k = "hdr_size + unat (len (header msg))" and ?hb = "take hdr_size ?d @ drop hdr_size hdr_buf"
  have l: "?k \<le> length ?d" using length_wire_bytes [OF wf] wf by (auto simp: msg_wf_def)
  have h: "hdr_of_bytes ?d = header msg" "hdr_of_bytes ?hb = header msg"
    using hdr_of_wire_bytes [OF wf] hdr_of_bytes_prefix [of ?d] l by simp_all
  have r: "take ?k ?d = received_bytes ?d" by (simp add: received_bytes_def h)
  have n: "\<not> (of_nat (min hdr_size (length ?d)) :: u64) < of_nat hdr_size" using l by simp
  have lh: "length (take hdr_size ?d) = hdr_size" using l by simp
  let ?m = "snd (calloc (mem s))"
  let ?u = "mutex_unlock PEER_LOCK (mutex_lock PEER_LOCK (s\<lparr>mem := ?m, socket_rx := rest\<rparr>))"
  have "plenty (mem ?u)" using pl by (simp add: calloc_def plenty_def)
  then obtain m2 where des: "cbc_msg_deserialize (received_bytes ?d) (mem ?u) = Inr (result_new_ok msg, m2)"
      "alloc_ok m2 = alloc_ok (mem ?u)"
  proof (cases rule: cbc_msg_deserialize_cases [OF parsed_wire_bytes(2) [OF wf], of "mem ?u"])
    case (1 m') with that parsed_wire_bytes(1) [OF wf] show ?thesis by simp
  next
    case (2 e m')
    have "hdr_of_bytes (received_bytes ?d) = header msg"
      using arg_cong [OF parsed_wire_bytes(1) [OF wf], of header] by (simp add: parsed_msg_def)
    with 2(4) \<open>plenty (mem ?u)\<close> wf have False by (auto simp: msg_wf_def payload_wf_def)
    then show ?thesis ..
  qed
  let ?t = "?u\<lparr>mem := c_free 1 m2\<rparr>"
  have "cbc_recv_iteration False False hdr_buf s =
      Some (andthen (parse_and_dispatch (take ?k ?d) ?p ?u) (\<lambda>s. Inr (?hb, s)))"
    using pl rx p n lh l h(2)
    by (simp add: cbc_recv_iteration_def c_recvfrom_def recv_full_def cbc_peer_find_by_addr_eq calloc_def
        Let_def min_def)
  moreover have "parse_and_dispatch (take ?k ?d) ?p ?u = dispatch_msg msg ?p ?t"
    unfolding r parse_and_dispatch_def using des(1) by simp
  moreover have "idle s ?t"
    by (rule idleI [where n = 1 and m = "c_free 1 m2" and tr = "lock_trace s @ [Lock PEER_LOCK, Unlock PEER_LOCK]"])
      (simp_all add: rx mutex_lock_def mutex_unlock_def des(2) calloc_def)
  ultimately show ?thesis by (intro exI [of _ ?hb] exI [of _ ?t]) simp
qed

lemma recv_iteration_inv:
  assumes inv: "proc_inv s" and run: "cbc_recv_iteration peek_fails recv_fails hdr_buf s = Some (Inr (hb, s'))"
  shows "proc_inv s'"
proof (cases rule: recv_iteration_cases [OF run])
  case (1 hb' t)
  with inv show ?thesis using idle_views(1) by auto
next
  case (3 hb' t bs msg p m m')
  have "known p s" using known_sender [of s] inv 3(3,4) by (simp add: proc_inv_def)
  then have "proc_inv t" "known p t" using idle_views(1,2) [OF 3(1)] inv by simp_all
  moreover obtain u where "dispatch_msg msg p t = Inr u" "s' = u" using 3(9) [symmetric] by auto
  ultimately show ?thesis using dispatch_msg_inv by blast
qed simp

section \<open>When the receive thread gives up\<close>

text \<open>
  The messages on which \<open>handle_data_msg\<close> ends the process: a data message or a
  retransmission with the clock 65535, and a data message that is not new.
\<close>

definition gives_up :: "cbcast_msg \<Rightarrow> u16 \<Rightarrow> node \<Rightarrow> bool" where
  "gives_up msg p s \<longleftrightarrow>
     (kind (header msg) = CBC_DATA \<or> kind (header msg) = CBC_RETRANSMIT)
     \<and> (clock (header msg) = UINT16_MAX
        \<or> kind (header msg) = CBC_DATA \<and> classify p (clock (header msg)) s = CAUSALITY_ERROR)"

lemma ack_safe:
  "plenty (mem s) \<Longrightarrow> c \<noteq> UINT16_MAX \<Longrightarrow> \<exists>t. ack_received_message c p s = Inr t"
  using send_answer_safe [of CBC_ACK s c p] by (simp add: ack_received_message_eq header_only_def)

lemma plenty_classified: "plenty (mem s) \<Longrightarrow> plenty (mem (classified s))"
  by (simp add: calloc_def plenty_def)

lemma hold_branch_safe:
  assumes ok: "vc_wf (vclock s)" and tr: "tracked p s" and p: "p \<noteq> UINT16_MAX" and pl: "plenty (mem s)"
    and c: "clock (header msg) \<noteq> UINT16_MAX"
  shows "\<exists>s'. hold_branch msg p s = Inr s'"
proof -
  obtain t where t: "ack_received_message (clock (header msg)) p s = Inr t" using ack_safe [OF pl c] by blast
  note a = ack_received_message_Inr [OF t]
  let ?u = "mutex_unlock RECV_LOCK (if held_already p (clock (header msg)) (mutex_lock RECV_LOCK t)
        then (mutex_lock RECV_LOCK t)\<lparr>mem := cbc_received_msg_free (rcvd_of msg p) (mem (mutex_lock RECV_LOCK t))\<rparr>
        else (mutex_lock RECV_LOCK t)\<lparr>held_msg_buffer := arrput (held_msg_buffer (mutex_lock RECV_LOCK t)) (rcvd_of msg p)\<rparr>)"
  have run: "hold_branch msg p s = request_retransmission p ?u"
    using t by (simp add: hold_branch_def Let_def)
  have "plenty (mem t)" using a(3) pl plenty_cong by blast
  then have "plenty (mem ?u)" by (simp add: cbc_received_msg_free_def cbc_msg_free_def)
  moreover have "vclock ?u = vclock s" using quiet_views(4) [OF a(1)] by simp
  ultimately show ?thesis
    unfolding run request_retransmission_eq
    using p tr send_answer_safe [of CBC_RETRANSMIT_REQ "mutex_unlock VCLOCK_MTX (mutex_lock VCLOCK_MTX ?u)"]
    by (simp add: vc_read_def tracked_def header_only_def)
qed

lemma handle_data_msg_safe:
  assumes inv: "proc_inv s" and p: "known p s" and pl: "plenty (mem s)"
    and k: "kind (header msg) = CBC_DATA \<or> kind (header msg) = CBC_RETRANSMIT" and g: "\<not> gives_up msg p s"
  shows "\<exists>s'. handle_data_msg msg p s = Inr s'"
proof -
  have ok: "fifo_ok s" "ucast p \<noteq> pid s" "p \<noteq> UINT16_MAX"
    using inv knownD [OF p] by (simp_all add: proc_inv_def)
  have c: "clock (header msg) \<noteq> UINT16_MAX" using g k by (auto simp: gives_up_def)
  note pc = plenty_classified [OF pl] and q = classified_quiet [of s]
  have okc: "fifo_ok (classified s)" and cl: "classify p c (classified s) = classify p c s" for c
    using ok(1) quiet_vclk [OF q] by auto
  obtain t where t: "ack_received_message (clock (header msg)) p (classified s) = Inr t"
    using ack_safe [OF pc c] by blast
  show ?thesis
  proof (cases "classify p (clock (header msg)) s")
    case CAUSALITY_ERROR
    then have "kind (header msg) = CBC_RETRANSMIT" using g k by (auto simp: gives_up_def)
    with t CAUSALITY_ERROR pl show ?thesis
      unfolding handle_data_msg_branches [OF ok(1,2)] by (simp add: error_branch_def)
  next
    case CAUSALITY_DELIVER
    with deliver_branch_spec(2) [OF okc _ t] cl pl show ?thesis
      unfolding handle_data_msg_branches [OF ok(1,2)] by simp
  next
    case CAUSALITY_HOLD
    then have "tracked p (classified s)" using classify_tracked [of p "clock (header msg)" s] quiet_vclk(2) [OF q] by simp
    moreover have "vc_wf (vclock (classified s))" using okc by (simp add: fifo_ok_def)
    ultimately have "\<exists>s'. hold_branch msg p (classified s) = Inr s'"
      using hold_branch_safe ok(3) pc c by blast
    with CAUSALITY_HOLD pl show ?thesis
      unfolding handle_data_msg_branches [OF ok(1,2)] by simp
  qed
qed

lemma handle_data_msg_gives_up:
  assumes inv: "proc_inv s" and p: "known p s" and g: "gives_up msg p s"
  shows "\<exists>why. handle_data_msg msg p s = Inl (Exit_failure why)"
proof -
  have ok: "fifo_ok s" "ucast p \<noteq> pid s" using inv knownD [OF p] by (simp_all add: proc_inv_def)
  have "ack_received_message UINT16_MAX p u = Inl (Exit_failure ''Unreachable'')" for u
    by (simp add: ack_received_message_eq RESULT_UNREACHABLE_exit)
  with g show ?thesis
    unfolding handle_data_msg_branches [OF ok] gives_up_def
    by (auto simp: error_branch_def deliver_branch_eq hold_branch_def RESULT_UNREACHABLE_exit
        split: causality_t.split)
qed

lemma dispatch_msg_safe:
  assumes inv: "proc_inv s" and p: "known p s" and pl: "plenty (mem s)" and g: "\<not> gives_up msg p s"
  shows "\<exists>s'. dispatch_msg msg p s = Inr s'"
proof (cases "kind (header msg)")
  case CBC_ACK
  have "sent_ok (mutex_lock SEND_LOCK s)" using inv by (simp add: proc_inv_def sent_ok_def)
  from register_ack_refines [OF this CBC_ACK] p CBC_ACK show ?thesis
    by (auto simp: dispatch_msg_def known_def)
next
  case CBC_RETRANSMIT_REQ
  have pids: "pids_ok s" and ok: "sent_ok s" using inv by (simp_all add: proc_inv_def)
  from queue_retransmission_safe [OF ok knownD(3) [OF p pids] pl knownD(4) [OF p pids]] CBC_RETRANSMIT_REQ
  show ?thesis by (auto simp: dispatch_msg_def)
qed (use handle_data_msg_safe [OF inv p pl _ g] in \<open>auto simp: dispatch_msg_def\<close>)

text \<open>
  The message the receive thread finds in the first waiting datagram, if it parses.
\<close>

definition first_msg :: "node \<Rightarrow> cbcast_msg" where
  "first_msg s = parsed_msg (snd (hd (socket_rx s)))"

definition first_sender :: "node \<Rightarrow> u16" where
  "first_sender s = pid_of_addr (fst (hd (socket_rx s))) (peers s)"

lemma gives_up_idle: "idle s t \<Longrightarrow> gives_up msg p t = gives_up msg p s"
  by (simp add: gives_up_def classify_def delivery_view_cong [OF idle_views(4)])

lemma recv_iteration_safe:
  assumes inv: "proc_inv s" and pl: "plenty (mem s)"
    and g: "first_sender s \<noteq> UINT16_MAX \<Longrightarrow> \<not> gives_up (first_msg s) (first_sender s) s"
    and run: "cbc_recv_iteration False recv_fails hdr_buf s = Some out"
  shows "\<exists>hb s'. out = Inr (hb, s')"
proof (cases rule: recv_iteration_cases [OF run])
  case (2 t bs e)
  then show ?thesis by simp
next
  case (3 hb t bs msg p m m')
  have p: "p = first_sender s" "msg = first_msg s"
    using 3(3,6) by (auto simp: first_sender_def first_msg_def)
  have "known p s" using known_sender [of s] inv 3(3,4) by (simp add: proc_inv_def)
  then have "proc_inv t" "known p t" "plenty (mem t)" "\<not> gives_up msg p t"
    using idle_views [OF 3(1)] inv pl g p 3(4) gives_up_idle [OF 3(1)] by simp_all
  from dispatch_msg_safe [OF this] 3(9) show ?thesis by auto
qed auto

section \<open>Properties\<close>

text \<open>A process that has just started satisfies the invariant.\<close>

lemma initial_proc_inv:
  assumes "n < 65536" "unat p < n" "small_pids ps" "p \<notin> peer_pid ` set ps"
  shows "proc_inv (new_node m rs p n ps)"
  using assms initial_fifo_ok [of n m rs p ps]
  by (simp add: proc_inv_def held_ok_def sent_ok_def queue_ok_def pids_ok_def)

lemma example_proc_inv [simp]: "proc_inv (initial_node 0 5 [worker_peer 1, worker_peer 2])"
  by (rule initial_proc_inv) (simp_all add: small_pids_def)

lemma example_known [simp]: "known 1 (initial_node 0 5 [worker_peer 1, worker_peer 2])"
  by (simp add: known_def)

text \<open>
  C3: handle_data_msg, in every state of a process with enough memory, for every data message
  and retransmission of a known peer: it ends the process exactly on the messages listed in
  gives_up (a clock of 65535, or a data message that is not new); otherwise it acknowledges and keeps
  the invariant, and either delivers the message, or holds it and asks for the missing one, or
  ignores an old retransmission. A data message is delivered alone: the held buffer stays as it
  is, even when it has the messages that follow. Only a retransmission that is delivered also
  delivers the held messages of its sender that follow it.
\<close>

theorem handle_data_msg_spec:
  assumes "proc_inv s" "known p s" "plenty (mem s)"
    and "kind (header msg) = CBC_DATA \<or> kind (header msg) = CBC_RETRANSMIT"
  shows "case handle_data_msg msg p s of
      Inl e \<Rightarrow> gives_up msg p s \<and> (\<exists>why. e = Exit_failure why)
    | Inr s' \<Rightarrow> \<not> gives_up msg p s \<and> proc_inv s' \<and>
        (case classify p (clock (header msg)) s of
           CAUSALITY_ERROR \<Rightarrow> quiet s s' \<and> kind (header msg) = CBC_RETRANSMIT
             \<and> send_queue s' = send_queue s @ answer CBC_ACK (clock (header msg)) p (peers s)
         | CAUSALITY_DELIVER \<Rightarrow> delivered_by msg p s s'
         | CAUSALITY_HOLD \<Rightarrow> held_by msg p s s')"
proof (cases "gives_up msg p s")
  case True
  with handle_data_msg_gives_up [OF assms(1,2) True] show ?thesis by auto
next
  case False
  then obtain s' where r: "handle_data_msg msg p s = Inr s'"
    using handle_data_msg_safe [OF assms] by blast
  have "fifo_ok s" "ucast p \<noteq> pid s" using assms(1) knownD [OF assms(2)] by (simp_all add: proc_inv_def)
  from handle_data_msg_Inr [OF this r] handle_data_msg_inv [OF assms(1,2) r] False r
  show ?thesis by simp
qed

theorem handle_data_msg_spec_witness:
  "\<exists>s'. handle_data_msg (one_byte CBC_DATA 1) 1 (initial_node 0 5 [worker_peer 1, worker_peer 2]) = Inr s'
     \<and> map clk_of (delivery_queue s') = [1]"
proof -
  let ?s = "initial_node 0 5 [worker_peer 1, worker_peer 2]" and ?m = "one_byte CBC_DATA 1"
  have c: "classify 1 1 ?s = CAUSALITY_DELIVER" by (simp add: classify_def tracked_def vclk_def)
  then have "\<not> gives_up ?m 1 ?s" by (simp add: gives_up_def UINT16_MAX_def)
  with handle_data_msg_spec [of ?s 1 ?m] obtain s' where
    "handle_data_msg ?m 1 ?s = Inr s'" "delivered_by ?m 1 ?s s'"
    by (cases "handle_data_msg ?m 1 ?s") (simp_all add: c)
  then show ?thesis by (auto simp: delivered_by_def advanced_def)
qed

text \<open>
  C15: A request for a retransmission, in every state of a process with enough memory: it is
  answered with exactly the first sent message that has the requested clock, as a
  retransmission to the address of the process that asked, or not at all when no such message
  is kept; nothing but the send queue changes and the invariant is kept.
\<close>

theorem queue_retransmission_spec:
  assumes "proc_inv s" "known p s" "plenty (mem s)"
  shows "\<exists>s'. queue_retransmission msg p s = Inr s' \<and> quiet s s' \<and> proc_inv s'
     \<and> send_queue s' = send_queue s @ requested (clock (header msg)) p s"
proof -
  have inv: "sent_ok s" "pids_ok s" using assms(1) by (simp_all add: proc_inv_def)
  obtain s' where r: "queue_retransmission msg p s = Inr s'"
    using queue_retransmission_safe [OF inv(1) knownD(3) [OF assms(2) inv(2)] assms(3) knownD(4) [OF assms(2) inv(2)]]
    by blast
  with queue_retransmission_Inr [OF inv(1) r] queue_retransmission_inv [OF assms(1) r] show ?thesis by blast
qed

lemma sent_example_inv: "proc_inv (sent_example c ts)"
proof -
  let ?s = "initial_node 0 5 [worker_peer 1, worker_peer 2]"
  have v: "delivery_view (sent_example c ts) = delivery_view ?s"
    by (simp add: delivery_view_def sent_example_def)
  have i: "proc_inv ?s" by simp
  show ?thesis
    using i delivery_view_cong(1,2) [OF v] sent_example_ok [of c ts] unfolding proc_inv_def
    by (simp add: queue_ok_def pids_ok_def sent_example_def)
qed

theorem queue_retransmission_spec_witness:
  "\<exists>s'. queue_retransmission \<lparr>header = \<lparr>kind = CBC_RETRANSMIT_REQ, clock = 7, len = 0\<rparr>, payload = None\<rparr> 1
        (sent_example 7 [1, 2]) = Inr s'
     \<and> send_queue s' = [\<lparr>out_message = one_byte CBC_RETRANSMIT 7, out_addr = Some (worker_addr 1), socket_flags = 0\<rparr>]"
proof -
  have f: "peers (sent_example 7 [1, 2]) = [worker_peer 1, worker_peer 2]" "send_queue (sent_example 7 [1, 2]) = []"
      "mem (sent_example 7 [1, 2]) = fresh_memory" by (simp_all add: sent_example_def)
  have "requested 7 1 (sent_example 7 [1, 2])
      = [\<lparr>out_message = one_byte CBC_RETRANSMIT 7, out_addr = Some (worker_addr 1), socket_flags = 0\<rparr>]"
    by (simp add: requested_def sent_example_list sent_clock_def retransmission_to_def retransmission_def f one_byte_def)
  then show ?thesis
    using queue_retransmission_spec [OF sent_example_inv, of 1 7 "[1, 2]"
        "\<lparr>header = \<lparr>kind = CBC_RETRANSMIT_REQ, clock = 7, len = 0\<rparr>, payload = None\<rparr>"]
    by (auto simp: f known_def)
qed

lemma recv_iteration_ready:
  "socket_rx s \<noteq> [] \<Longrightarrow> \<exists>out. cbc_recv_iteration pf rf hb s = Some out"
  by (cases "socket_rx s")
    (auto simp: cbc_recv_iteration_def c_recvfrom_def recv_full_def Let_def split: prod.splits)

text \<open>
  C5: The receive thread survives: with a datagram waiting and enough memory, a round of the
  receive thread in which the first recvfrom, the one that peeks at the header, does not fail
  (the second one may) returns, and neither ends the process nor has undefined behaviour, whatever
  bytes the datagram holds and whoever sent it, unless it holds one of the messages on which
  handle_data_msg gives up; the invariant of the process is kept. The condition on the peek is
  needed: \<open>failed_peek_overread\<close> below is a round with undefined behaviour after a failed peek.
\<close>

theorem recv_thread_survives:
  assumes "proc_inv s" "plenty (mem s)" "socket_rx s \<noteq> []"
    and "first_sender s \<noteq> UINT16_MAX \<Longrightarrow> \<not> gives_up (first_msg s) (first_sender s) s"
  shows "\<exists>hb s'. cbc_recv_iteration False recv_fails hdr_buf s = Some (Inr (hb, s')) \<and> proc_inv s'"
proof -
  obtain out where r: "cbc_recv_iteration False recv_fails hdr_buf s = Some out"
    using recv_iteration_ready [OF assms(3)] by blast
  obtain hb s' where "out = Inr (hb, s')" using recv_iteration_safe [OF assms(1,2,4) r] by blast
  with recv_iteration_inv [OF assms(1)] r show ?thesis by blast
qed

text \<open>Process 0 of 5 with datagrams waiting.\<close>

definition waiting :: "datagram list \<Rightarrow> node" where
  "waiting ds = (initial_node 0 5 [worker_peer 1, worker_peer 2])\<lparr>socket_rx := ds\<rparr>"

lemma waiting_simps [simp]:
  "proc_inv (waiting ds)" "mem (waiting ds) = fresh_memory" "socket_rx (waiting ds) = ds"
  "peers (waiting ds) = [worker_peer 1, worker_peer 2]" "tracked p (waiting ds) = (unat p < 5)"
  "vclk p (waiting ds) = unat (replicate 5 (0 :: u64) ! unat p)"
  by (simp_all add: waiting_def tracked_def vclk_def)

lemma sender_of_worker_1: "pid_of_addr (worker_addr 1) [worker_peer 1, worker_peer 2] = 1"
  using pid_of_addr_member [of "[worker_peer 1, worker_peer 2]" "worker_peer 1"]
  by (simp add: worker_addr_def BASE_PORT_def htons_def)

theorem recv_thread_survives_witness:
  "\<exists>hb s'. cbc_recv_iteration False False [0, 0, 0, 0, 0, 0, 0, 0]
       (waiting [(worker_addr 1, wire_bytes (one_byte CBC_RETRANSMIT 3))]) = Some (Inr (hb, s')) \<and> proc_inv s'"
  by (rule recv_thread_survives)
    (simp_all add: gives_up_def first_msg_def parsed_wire UINT16_MAX_def)

text \<open>The first \<open>n\<close> rounds of the loop; \<open>None\<close> when one of them blocks.\<close>

fun recv_rounds :: "nat \<Rightarrow> u8 list \<Rightarrow> node \<Rightarrow> (u8 list \<times> node) res option" where
  "recv_rounds 0 hb s = Some (Inr (hb, s))"
| "recv_rounds (Suc n) hb s =
     (case cbc_recv_iteration False False hb s of
        Some (Inr (hb, s)) \<Rightarrow> recv_rounds n hb s
      | r \<Rightarrow> r)"

text \<open>
  C21: A datagram shorter than a header stops the receive thread for good, as long as recvfrom
  does not fail: the thread peeks at it and never takes it off the socket, so after any number of rounds the process is exactly in
  the state it was in, the datagram still first and everything behind it unread.
\<close>

theorem short_datagram_blocks:
  assumes "socket_rx s = (a, d) # rest" "length d < hdr_size"
  shows "\<exists>hb. recv_rounds n hdr_buf s = Some (Inr (hb, s))"
proof (induction n arbitrary: hdr_buf)
  case (Suc n)
  have "(of_nat (min hdr_size (length d)) :: u64) < of_nat hdr_size"
    using assms(2) of_nat_u64_less [of "min hdr_size (length d)" hdr_size] by (simp add: hdr_size_def)
  then have "\<exists>hb. cbc_recv_iteration False False hdr_buf s = Some (Inr (hb, s))"
    using assms(1) by (simp add: cbc_recv_iteration_def c_recvfrom_def Let_def)
  with Suc show ?case by auto
qed simp

theorem short_datagram_blocks_witness:
  "\<exists>hb. recv_rounds 1000 [0, 0, 0, 0, 0, 0, 0, 0]
       (waiting [(worker_addr 1, []), (worker_addr 1, wire_bytes (one_byte CBC_DATA 1))])
     = Some (Inr (hb, waiting [(worker_addr 1, []), (worker_addr 1, wire_bytes (one_byte CBC_DATA 1))]))"
  by (rule short_datagram_blocks [where a = "worker_addr 1" and d = "[]"]) (simp_all add: hdr_size_def)

text \<open>
  When the first recvfrom of a round fails, its result -1 is taken for a large length and
  the header of an earlier datagram is used: if the datagram that the second recvfrom takes is
  from a peer, at least as long as that header says, and announces a longer payload itself,
  parsing reads past the end of the receive buffer.
\<close>

theorem failed_peek_overread:
  assumes "plenty (mem s)" "length hdr_buf = hdr_size" "socket_rx s = (a, d) # rest"
    and "pid_of_addr a (peers s) \<noteq> UINT16_MAX"
    and "hdr_size + unat (len (hdr_of_bytes hdr_buf)) \<le> length d"
    and "unat (len (hdr_of_bytes hdr_buf)) < unat (len (hdr_of_bytes d))"
    and "kind (hdr_of_bytes d) = CBC_DATA"
  shows "cbc_recv_iteration True False hdr_buf s = Some (Inl (Undefined_behaviour ''memcpy past the datagram''))"
proof -
  let ?k = "hdr_size + unat (len (hdr_of_bytes hdr_buf))"
  have d8: "hdr_size \<le> length d" using assms(5) by simp
  then have h: "hdr_of_bytes (take ?k d) = hdr_of_bytes d"
    using hdr_of_bytes_prefix [of "take ?k d" "drop hdr_size d"] hdr_of_bytes_prefix [of d "drop hdr_size d"]
    by simp
  have nz: "len (hdr_of_bytes d) \<noteq> 0" using assms(6) by auto
  have des: "cbc_msg_deserialize (take ?k d) m = Inl (Undefined_behaviour ''memcpy past the datagram'')"
    if "plenty m" for m
    using that assms(5-7) nz d8 by (simp add: cbc_msg_deserialize_def calloc_def h Let_def)
  let ?m = "snd (calloc (mem s))"
  let ?u = "mutex_unlock PEER_LOCK (mutex_lock PEER_LOCK (s\<lparr>mem := ?m, socket_rx := rest\<rparr>))"
  have "cbc_recv_iteration True False hdr_buf s =
      Some (andthen (parse_and_dispatch (take ?k d) (pid_of_addr a (peers s)) ?u) (\<lambda>s. Inr (hdr_buf, s)))"
    using assms(1-5) minus_one_u64(2) [of hdr_size]
    by (simp add: cbc_recv_iteration_def c_recvfrom_def recv_full_def cbc_peer_find_by_addr_eq calloc_def
        hdr_size_def Let_def min_def)
  moreover have "plenty (mem ?u)" using assms(1) by (simp add: calloc_def plenty_def)
  ultimately show ?thesis using des [of "mem ?u"] by (simp add: parse_and_dispatch_def)
qed

theorem failed_peek_overread_witness:
  "cbc_recv_iteration True False (bytes_of_hdr \<lparr>kind = CBC_ACK, clock = 4, len = 0\<rparr>)
       (waiting [(worker_addr 1, wire_bytes (one_byte CBC_DATA 1))])
     = Some (Inl (Undefined_behaviour ''memcpy past the datagram''))"
  by (rule failed_peek_overread [where a = "worker_addr 1" and d = "wire_bytes (one_byte CBC_DATA 1)" and rest = "[]"])
    (simp_all add: sender_of_worker_1 UINT16_MAX_def hdrc.enc_length hdrc.dec_enc_exact hdr_of_wire_bytes
      length_wire_bytes kind_ok_def header_only_def)

end
