(* ===== verification/Process.thy ===== *)
theory Process
  imports RecvThread
begin

text \<open>
  A whole process: the application thread (\<open>cbc_send\<close>, \<open>cbc_receive\<close>, the peer
  functions), the send thread and the receive thread, driven by arbitrary datagrams from the
  network, arbitrary allocation failures and arbitrary values of \<open>rand\<close>.

  Every operation keeps \<open>proc_inv\<close>, so it holds in every reachable state, and with enough
  memory no operation fails except on the messages \<open>handle_data_msg\<close> itself gives up on.
\<close>

section \<open>The application thread keeps the invariant\<close>

lemma cbc_receive_eq:
  "cbc_receive s =
     (case delivery_queue s of
        [] \<Rightarrow> (None, mutex_unlock RECV_LOCK (mutex_lock RECV_LOCK s))
      | m # ms \<Rightarrow> (Some m, s\<lparr>delivery_queue := ms, delivered := delivered s @ [m],
          stats := (stats s)\<lparr>delivered_msg_count := delivered_msg_count (stats s) + 1\<rparr>,
          lock_trace := lock_trace s @ [Lock RECV_LOCK, Unlock RECV_LOCK, Lock STATS_LOCK, Unlock STATS_LOCK]\<rparr>))"
  by (simp add: cbc_receive_def with_lock_def mutex_lock_def mutex_unlock_def Let_def split: list.split)

lemma cbc_receive_inv:
  assumes inv: "proc_inv s" and run: "cbc_receive s = (r, s')"
  shows "proc_inv s'" "history_from p s' = history_from p s" "delivered s' = delivered s @ (case r of None \<Rightarrow> [] | Some m \<Rightarrow> [m])"
proof -
  have *: "history_from p s' = history_from p s \<and> delivered s' = delivered s @ (case r of None \<Rightarrow> [] | Some m \<Rightarrow> [m])
    \<and> pid s' = pid s \<and> vclock s' = vclock s \<and> held_msg_buffer s' = held_msg_buffer s
    \<and> sent_view s' = sent_view s \<and> peers s' = peers s \<and> send_queue s' = send_queue s" for p
    using run by (auto simp: cbc_receive_eq history_from_def sent_view_def split: list.splits)
  then show "history_from p s' = history_from p s" "delivered s' = delivered s @ (case r of None \<Rightarrow> [] | Some m \<Rightarrow> [m])"
    by blast+
  have "fifo_ok s' = fifo_ok s" "held_ok s' = held_ok s"
    using * by (simp_all add: fifo_ok_def held_ok_def tracked_def vclk_def)
  moreover have "sent_ok s' = sent_ok s" "pids_ok s' = pids_ok s" "queue_ok s' = queue_ok s"
    using * sent_view_cong(1) [of s' s] pids_ok_cong [of s' s] by (simp_all add: queue_ok_def)
  ultimately show "proc_inv s'" using inv by (simp add: proc_inv_def)
qed

lemma swept_inv:
  assumes sw: "swept s s'" and inv: "proc_inv s" shows "proc_inv s'"
proof -
  obtain t ds where b: "buried ds s t" and q: "quiet t s'"
    and sq: "send_queue s' = send_queue s @ retransmissions t (still_old (own_clock s) s)"
    using sw by (auto simp: swept_def)
  have ok: "sent_ok s" and sp: "small_pids (peers s)" using inv by (simp_all add: proc_inv_def pids_ok_def)
  note bf = buried_frames [OF b]
  have "proc_inv t"
    using inv buried_sent_ok [OF b ok] delivery_view_cong(1,2) [OF bf(1)] pids_ok_cong [OF bf(4)] bf
    by (simp add: proc_inv_def queue_ok_def)
  moreover have "msg_wf (out_message out)" if out: "out \<in> set (retransmissions t (still_old (own_clock s) s))" for out
  proof -
    obtain p where "p \<in> set (still_old (own_clock s) s)" "out_message out = retransmission (sent_at t p)"
      using out by (auto simp: retransmissions_def retransmission_to_def dest: set_takeWhileD)
    moreover have "live_msgs t (still_old (own_clock s) s)" using buried_live [OF b still_old_live [OF ok]] .
    ultimately show ?thesis using retransmission_wf by (auto simp: live_msgs_def)
  qed
  ultimately show ?thesis
    using quiet_queue_inv [OF q] sq bf(3) by auto
qed

lemma own_clock_inv:
  assumes inv: "proc_inv s" and vc: "vc_inc (vclock s) (unat (pid s)) = Inr vc"
  shows "proc_inv (s\<lparr>vclock := vc\<rparr>)"
proof -
  let ?s = "s\<lparr>vclock := vc\<rparr>"
  have v: "vc = (vclock s)\<lparr>vc_clock := (vc_clock (vclock s))[unat (pid s) := vc_clock (vclock s) ! unat (pid s) + 1]\<rparr>"
    using vc by simp
  have "vclk p ?s = vclk p s" if "ucast p \<noteq> pid s" for p
  proof -
    have "unat p \<noteq> unat (pid s)" using that by (metis unat_ucast_u16_u64 word_unat_eq_iff)
    then show ?thesis by (simp add: vclk_def v)
  qed
  moreover have "tracked p ?s = tracked p s" "history_from p ?s = history_from p s" for p
    by (simp_all add: tracked_def v history_from_def)
  moreover have "vc_wf vc = vc_wf (vclock s)" using v by (simp add: vc_wf_def)
  ultimately have "fifo_ok ?s = fifo_ok s" unfolding fifo_ok_def by simp
  then show ?thesis
    using inv by (simp add: proc_inv_def held_ok_def sent_ok_def queue_ok_def pids_ok_def v)
qed

text \<open>The message \<open>cbc_send\<close> puts on the queue, and the state in which it then sweeps.\<close>

definition data_msg :: "u8 list \<Rightarrow> u64 \<Rightarrow> u64 \<Rightarrow> cbcast_msg" where
  "data_msg bytes n c = set_clock (ucast c) (created_msg CBC_DATA (Some bytes) (ucast n))"

definition next_own :: "node \<Rightarrow> u64" where
  "next_own s = vc_clock (vclock s) ! unat (pid s) + 1"

definition bumped :: "node \<Rightarrow> node" where
  "bumped s = s\<lparr>vclock := (vclock s)\<lparr>vc_clock := (vc_clock (vclock s))[unat (pid s) := next_own s]\<rparr>\<rparr>"

definition queued_data :: "u8 list \<Rightarrow> u64 \<Rightarrow> node \<Rightarrow> node \<Rightarrow> bool" where
  "queued_data bytes n s u \<longleftrightarrow> quiet (bumped s) u \<and> alloc_ok (mem u) = alloc_ok (mem s)
     \<and> send_queue u = send_queue s @ [\<lparr>out_message = data_msg bytes n (next_own s), out_addr = None, socket_flags = 0\<rparr>]"

lemma cbc_msg_create_alloc:
  "cbc_msg_create k pl n m = Inr (r, m') \<Longrightarrow> alloc_ok m' = alloc_ok m"
proof (cases "header_only k")
  case True
  assume r: "cbc_msg_create k pl n m = Inr (r, m')"
  with True have "create_msg_with_header k m = (r, m')" by (auto simp: cbc_msg_create_def header_only_def)
  then show ?thesis by (cases rule: create_msg_with_header_cases [of k m]) auto
next
  case False
  assume r: "cbc_msg_create k pl n m = Inr (r, m')"
  with False have "create_msg_with_payload k pl n m = Inr (r, m')"
    by (auto simp: cbc_msg_create_def split: cbcast_msg_kind.splits)
  then show ?thesis by (rule create_msg_with_payload_alloc)
qed

text \<open>
  \<open>cbc_send\<close> either leaves everything but the allocator as it was, or queues the message
  and sweeps.
\<close>

lemma cbc_send_cases:
  assumes run: "cbc_send pl n s = out"
  obtains e m where "out = Inr (result_new_err e, s\<lparr>mem := m\<rparr>)" "alloc_ok m = alloc_ok (mem s)"
      "plenty (mem s) \<Longrightarrow> pl = None \<or> (ucast n :: u16) = 0 \<or> peers s = []"
  | e where "out = Inl e" "plenty (mem s) \<Longrightarrow> \<not> payload_readable pl (ucast n) \<or> length (vc_clock (vclock s)) \<le> unat (pid s)"
  | bytes u where "pl = Some bytes" "n \<noteq> 0" "(ucast n :: u16) \<noteq> 0" "unat (ucast n :: u16) \<le> length bytes" "peers s \<noteq> []"
      "queued_data bytes n s u" "unat (pid s) < length (vc_clock (vclock s))"
      "out = andthen (handle_old_messages u) (\<lambda>s. Inr (result_new_ok (), s))"
proof (cases "pl = None \<or> n = 0 \<or> peers s = []")
  case True
  have "\<exists>e. out = Inr (result_new_err e, s\<lparr>mem := mem s\<rparr>)"
    unfolding run [symmetric]
    by (cases "pl = None \<or> n = 0") (use True in \<open>simp_all add: cbc_send_def, blast?\<close>)
  then obtain e where e: "out = Inr (result_new_err e, s\<lparr>mem := mem s\<rparr>)" by blast
  show thesis by (rule that(1) [OF e]) (use True in auto)
next
  case False
  then obtain bytes where pl: "pl = Some bytes" and n: "n \<noteq> 0" and ne: "peers s \<noteq> []" by auto
  note guards = pl n ne
  show thesis
  proof (cases "cbc_msg_create CBC_DATA pl (ucast n) (mem s)")
    case (Inl e)
    have "\<not> payload_readable pl (ucast n)"
      using create_msg_with_payload_safe [of pl "ucast n" CBC_DATA "mem s"] Inl by (auto simp: cbc_msg_create_def)
    moreover have "out = Inl e" unfolding run [symmetric] using guards Inl by (simp add: cbc_send_def)
    ultimately show thesis by (intro that(2)) auto
  next
    case (Inr rm)
    obtain r m where rm: "rm = (r, m)" by fastforce
    note c = Inr [unfolded rm]
    have am: "alloc_ok m = alloc_ok (mem s)" using cbc_msg_create_alloc [OF c] .
    show thesis
    proof (cases r rule: result_cases)
      case (Err e)
      have "out = Inr (result_new_err e, s\<lparr>mem := m\<rparr>)"
        unfolding run [symmetric] using guards c Err by (simp add: cbc_send_def result_new_err_def)
      moreover have "(ucast n :: u16) = 0" if "plenty (mem s)"
      proof (rule ccontr)
        assume nz: "(ucast n :: u16) \<noteq> 0"
        show False using c Err nz that pl
          by (auto simp: cbc_msg_create_def create_msg_with_payload_def create_msg_with_header_def
              calloc_def Let_def split: if_splits)
      qed
      ultimately show thesis using am by (intro that(1) [of e m]) simp_all
    next
      case (Ok msg)
      note cr = cbc_msg_create_Inr [OF c] and w = cbc_msg_create_wf [OF c [unfolded Ok]]
      have nz: "(ucast n :: u16) \<noteq> 0" "unat (ucast n :: u16) \<le> length bytes"
        using cr Ok pl by (auto simp: header_only_def)
      show thesis
      proof (cases "unat (pid s) < length (vc_clock (vclock s))")
        case oob: False
        have "\<exists>e. out = Inl e" unfolding run [symmetric] using guards c Ok oob
          by (simp add: cbc_send_def vc_inc_def result_new_ok_def result_expect_def)
        with oob show thesis by (auto intro: that(2))
      next
        case True
        let ?s = "mutex_unlock VCLOCK_MTX ((mutex_lock VCLOCK_MTX (s\<lparr>mem := m\<rparr>))\<lparr>vclock := (vclock s)\<lparr>vc_clock := (vc_clock (vclock s))[unat (pid s) := next_own s]\<rparr>\<rparr>)"
        obtain r2 m2 where o: "cbc_outgoing_msg_create (data_msg bytes n (next_own s)) None m = (r2, m2)" by fastforce
        have kd: "kind (header (data_msg bytes n (next_own s))) = CBC_DATA"
          by (simp add: data_msg_def created_msg_def header_only_def)
        have out: "out = andthen (result_expect r2 ''[cbc_send] Failed to create outgoing message'') (\<lambda>outgoing.
            andthen (handle_old_messages (enqueue_outgoing outgoing (?s\<lparr>mem := m2\<rparr>))) (\<lambda>s. Inr (result_new_ok (), s)))"
          unfolding run [symmetric] using guards c Ok True o w
          by (simp add: cbc_send_def vc_inc_def next_own_def data_msg_def result_new_ok_def result_expect_def)
        show thesis
        proof (cases r2 rule: result_cases)
          case (Err e)
          have "\<not> plenty (mem s)"
            using o Err cbc_outgoing_msg_create_plenty [of m None "data_msg bytes n (next_own s)"] kd am
              plenty_cong [OF am] by auto
          moreover obtain e' where "out = Inl e'" using out Err by (simp add: result_expect_def result_new_err_def)
          ultimately show thesis by (intro that(2)) auto
        next
          case (Ok og)
          note oo = cbc_outgoing_msg_create_Inr [OF o [unfolded Ok]]
          let ?u = "enqueue_outgoing og (?s\<lparr>mem := m2\<rparr>)"
          have "quiet (bumped s) ?s"
            by (rule quietI [where q = "send_queue s" and m = m and t = "lock_trace s @ [Lock VCLOCK_MTX, Unlock VCLOCK_MTX]"])
              (simp add: bumped_def mutex_lock_def mutex_unlock_def)
          then have "quiet (bumped s) ?u"
            by (rule quiet_trans [OF quiet_trans [OF _ quiet_steps(3)] quiet_steps(4)])
          then have "queued_data bytes n s ?u"
            using oo am by (simp add: queued_data_def)
          with True nz n ne pl out Ok show thesis by (intro that(3) [of bytes ?u]) simp_all
        qed
      qed
    qed
  qed
qed

lemma bumped_inv:
  assumes "proc_inv s" "unat (pid s) < length (vc_clock (vclock s))" shows "proc_inv (bumped s)"
  unfolding bumped_def by (rule own_clock_inv [OF assms(1)]) (use assms(2) in \<open>simp add: next_own_def\<close>)

lemma bumped_simps [simp]:
  "peers (bumped s) = peers s" "send_queue (bumped s) = send_queue s" "sent_view (bumped s) = sent_view s"
  "pid (bumped s) = pid s" "mem (bumped s) = mem s" "delivered (bumped s) = delivered s"
  "delivery_queue (bumped s) = delivery_queue s" "held_msg_buffer (bumped s) = held_msg_buffer s"
  "length (vc_clock (vclock (bumped s))) = length (vc_clock (vclock s))"
  by (simp_all add: bumped_def sent_view_def)

lemma data_msg_wf:
  "(ucast n :: u16) \<noteq> 0 \<Longrightarrow> unat (ucast n :: u16) \<le> length bytes \<Longrightarrow> msg_wf (data_msg bytes n c)"
  by (simp add: data_msg_def created_msg_wf)

lemma queued_data_inv:
  assumes "queued_data bytes n s u" "(ucast n :: u16) \<noteq> 0" "unat (ucast n :: u16) \<le> length bytes"
    and inv: "proc_inv s"
  shows "proc_inv u" "peers u = peers s" "plenty (mem u) = plenty (mem s)"
proof -
  have q: "quiet (bumped s) u" and sq: "send_queue u = send_queue (bumped s)
      @ [\<lparr>out_message = data_msg bytes n (next_own s), out_addr = None, socket_flags = 0\<rparr>]"
    using assms(1) by (simp_all add: queued_data_def)
  have "unat (pid s) < length (vc_clock (vclock s))" using inv by (simp add: proc_inv_def pids_ok_def)
  then show "proc_inv u"
    using quiet_queue_inv [OF q sq] data_msg_wf [OF assms(2,3)] bumped_inv [OF inv] by simp
  show "peers u = peers s" using quiet_views(3) [OF q] by simp
  show "plenty (mem u) = plenty (mem s)" using assms(1) plenty_cong by (simp add: queued_data_def plenty_def)
qed

lemma proc_inv_sweep:
  assumes "proc_inv u" "peers u \<noteq> []"
  shows "handle_old_messages u = Inr s' \<Longrightarrow> swept u s'" "plenty (mem u) \<Longrightarrow> \<exists>s'. handle_old_messages u = Inr s'"
  using handle_old_messages_spec [of u] assms by (auto simp: proc_inv_def pids_ok_def)

lemma cbc_send_inv:
  assumes inv: "proc_inv s" and run: "cbc_send pl n s = Inr (r, s')"
  shows "proc_inv s'"
proof (cases rule: cbc_send_cases [OF run])
  case (3 bytes u)
  note u = queued_data_inv [OF 3(6,3,4) inv]
  have "handle_old_messages u = Inr s'" using 3(8) [symmetric] by auto
  then show ?thesis using proc_inv_sweep(1) [OF u(1)] u(2) 3(5) swept_inv [OF _ u(1)] by simp
qed (use inv in auto)

lemma cbc_send_safe:
  assumes inv: "proc_inv s" and pl: "plenty (mem s)" and rd: "payload_readable pl (ucast n)"
  shows "\<exists>r s'. cbc_send pl n s = Inr (r, s')"
proof (cases rule: cbc_send_cases [OF refl, of pl n s])
  case (2 e)
  with inv pl rd show ?thesis by (simp add: proc_inv_def pids_ok_def)
next
  case (3 bytes u)
  note u = queued_data_inv [OF 3(6,3,4) inv]
  obtain s' where "handle_old_messages u = Inr s'" using proc_inv_sweep(2) [OF u(1)] u(2,3) 3(5) pl by auto
  then show ?thesis using 3(8) by auto
qed auto

section \<open>The send thread keeps the invariant\<close>

lemma broadcast_loop_frames:
  "broadcast_loop bs n qs tg d k s = Inr (tg', d', k', s') \<Longrightarrow>
     delivery_view s' = delivery_view s \<and> sent_view s' = sent_view s \<and> peers s' = peers s
     \<and> send_queue s' = send_queue s \<and> mem s' = mem s"
proof (induction bs n qs tg d k s rule: broadcast_loop.induct)
  case (2 bs n q qs tg d k s)
  then show ?case by (auto simp: c_rand_def Let_def split: if_splits)
qed simp

lemma broadcast_frames:
  assumes "broadcast bs n s = Inr (tg, s')"
  shows "delivery_view s' = delivery_view s" "sent_view s' = sent_view s" "peers s' = peers s"
    "send_queue s' = send_queue s" "mem s' = mem s"
  using assms broadcast_loop_frames
  by (fastforce simp: broadcast_def with_lock_def Let_def)+

lemma count_stat_frames [simp]:
  "delivery_view (count_stat f s) = delivery_view s" "sent_view (count_stat f s) = sent_view s"
  "peers (count_stat f s) = peers s" "send_queue (count_stat f s) = send_queue s" "mem (count_stat f s) = mem s"
  by (simp_all add: count_stat_def with_lock_def)

lemma send_single_frames [simp]:
  "delivery_view (send_single w f g bs n out s) = delivery_view s" "sent_view (send_single w f g bs n out s) = sent_view s"
  "peers (send_single w f g bs n out s) = peers s" "send_queue (send_single w f g bs n out s) = send_queue s"
  "mem (send_single w f g bs n out s) = mem s"
  by (simp_all add: send_single_def)

lemma record_sent_inv:
  assumes inv: "proc_inv s" and ok: "sent_msg_ok m" shows "proc_inv (record_sent m s)"
proof -
  let ?t = "record_sent m s"
  have t: "sent_msg_buffer ?t = sent_msg_buffer s @ [next_ptr s]" "sent_heap ?t = (sent_heap s)(next_ptr s \<mapsto> m)"
      "next_ptr ?t = Suc (next_ptr s)" "delivery_view ?t = delivery_view s" "peers ?t = peers s"
      "send_queue ?t = send_queue s"
    by (simp_all add: record_sent_def with_lock_def mutex_lock_def mutex_unlock_def arrput_def delivery_view_def)
  have s: "sent_ok s" using inv by (simp add: proc_inv_def)
  then have "next_ptr s \<notin> set (sent_msg_buffer s)" by (auto simp: sent_ok_def)
  with s ok have "sent_ok ?t" by (auto simp: sent_ok_def t less_Suc_eq)
  then show ?thesis
    using inv delivery_view_cong(1,2) [OF t(4)] pids_ok_cong [of ?t s] delivery_view_fields [OF t(4)] t
    by (simp add: proc_inv_def queue_ok_def)
qed

lemma view_inv:
  assumes "delivery_view s' = delivery_view s" "sent_view s' = sent_view s" "peers s' = peers s"
    "send_queue s' = send_queue s" "proc_inv s"
  shows "proc_inv s'"
  by (rule proc_inv_cong [OF assms(1,2) _ _ assms(5)]) (simp_all add: assms queue_ok_def)

lemma send_by_kind_inv:
  assumes inv: "proc_inv s" and wf: "msg_wf (out_message out)"
    and run: "send_by_kind w bs n out s = Inr (r, s')"
  shows "proc_inv s'"
proof (cases "kind (header (out_message out))")
  case CBC_DATA
  with run obtain tg t where b: "broadcast bs n s = Inr (tg, t)"
    and rest: "(let (r, m) = cbc_sent_msg_create (out_message out) (ucast tg) (mem t) in
          andthen (result_expect r ''conversion between outgoing message and sent message should not fail'') (\<lambda>sent.
          Inr (None, record_sent sent (t\<lparr>mem := m\<rparr>)))) = Inr (r, s')"
    by (auto simp: send_by_kind_def)
  have "proc_inv t" by (rule view_inv [OF broadcast_frames(1-4) [OF b] inv])
  obtain r2 m where c: "cbc_sent_msg_create (out_message out) (ucast tg) (mem t) = (r2, m)" by fastforce
  then obtain sent where "r2 = result_new_ok sent" and s': "s' = record_sent sent (t\<lparr>mem := m\<rparr>)"
    using rest by auto
  then have "sent = \<lparr>sent_message = out_message out, ack_target = ucast (ucast tg :: u16), ack_bitmap = 0\<rparr>"
    using c by (auto simp: cbc_sent_msg_create_def Let_def split: prod.splits if_splits)
  then have "sent_msg_ok sent" using wf CBC_DATA by (simp add: sent_msg_ok_def)
  with s' \<open>proc_inv t\<close> record_sent_inv show ?thesis by simp
qed (use run inv in \<open>auto simp: send_by_kind_def Let_def intro: view_inv [of _ s]\<close>)

lemma send_iteration_inv:
  assumes inv: "proc_inv s" and run: "cbc_send_iteration s = Some (Inr s')"
  shows "proc_inv s'"
proof -
  obtain out rest where q: "send_queue s = out # rest" using run by (cases "send_queue s") (auto simp: cbc_send_iteration_def)
  let ?t = "with_lock SEND_LOCK (\<lambda>s. s\<lparr>send_queue := arrdel (send_queue s) 0\<rparr>) s"
  have wf: "msg_wf (out_message out)" using inv q by (simp add: proc_inv_def queue_ok_def)
  have t: "proc_inv ?t"
    by (rule proc_inv_cong [OF _ _ _ _ inv]) (auto simp: with_lock_def queue_ok_def q)
  obtain bs n m where s: "cbc_msg_serialize (out_message out) (mem ?t) = Inr (bs, n, m)"
    using run q by (auto simp: cbc_send_iteration_def Let_def)
  let ?u = "?t\<lparr>mem := m, rand_pos := Suc (rand_pos ?t)\<rparr>"
  have u: "proc_inv ?u" by (rule view_inv [OF _ _ _ _ t]) simp_all
  obtain r v where k: "send_by_kind (sim_drops (rands ?t (rand_pos ?t))) bs n out ?u = Inr (r, v)"
    and s': "s' = v\<lparr>mem := cbc_outgoing_msg_free r (out_addr out) (if bs = None then mem v else c_free 1 (mem v))\<rparr>"
    using run q s by (auto simp: cbc_send_iteration_def c_rand_def Let_def)
  have "proc_inv v" by (rule send_by_kind_inv [OF u wf k])
  with s' show ?thesis by simp
qed

lemma broadcast_loop_total:
  "small_pids qs \<Longrightarrow> bs \<noteq> None \<Longrightarrow> \<exists>r. broadcast_loop bs n qs tg d k s = Inr r"
proof (induction bs n qs tg d k s rule: broadcast_loop.induct)
  case (2 bs n q qs tg d k s)
  have "small_pids qs" "unat (peer_pid q) < 31" using "2.prems"(1) by (simp_all add: small_pids_def)
  with 2 show ?case by (auto simp: shl1_def c_rand_def Let_def)
qed simp

lemma broadcast_total:
  assumes "small_pids (peers s)" "bs \<noteq> None"
  shows "\<exists>tg s'. broadcast bs n s = Inr (tg, s')"
proof -
  obtain a b c t where "broadcast_loop bs n (peers s) 0 0 0 (mutex_lock PEER_LOCK s) = Inr (a, b, c, t)"
    using broadcast_loop_total [OF assms, of n 0 0 0 "mutex_lock PEER_LOCK s"] by auto
  then show ?thesis by (simp add: broadcast_def)
qed

lemma send_iteration_safe:
  assumes inv: "proc_inv s" and pl: "plenty (mem s)" and run: "cbc_send_iteration s = Some out"
  shows "\<exists>s'. out = Inr s'"
proof -
  obtain o1 rest where q: "send_queue s = o1 # rest" using run by (cases "send_queue s") (auto simp: cbc_send_iteration_def)
  let ?t = "with_lock SEND_LOCK (\<lambda>s. s\<lparr>send_queue := arrdel (send_queue s) 0\<rparr>) s"
  have wf: "msg_wf (out_message o1)" using inv q by (simp add: proc_inv_def queue_ok_def)
  have mt: "mem ?t = mem s" "peers ?t = peers s" by (simp_all add: with_lock_def)
  obtain bs n m where s: "cbc_msg_serialize (out_message o1) (mem s) = Inr (Some bs, n, m)"
    and pm: "plenty m"
    using cbc_msg_serialize_cases [OF wf, of "mem s"] pl plenty_cong by metis
  let ?u = "?t\<lparr>mem := m, rand_pos := Suc (rand_pos ?t)\<rparr>"
  have "\<exists>r v. send_by_kind (sim_drops (rands ?t (rand_pos ?t))) (Some bs) n o1 ?u = Inr (r, v)"
  proof (cases "kind (header (out_message o1))")
    case CBC_DATA
    have "small_pids (peers ?u)" using inv mt by (simp add: proc_inv_def pids_ok_def)
    then obtain tg t where b: "broadcast (Some bs) n ?u = Inr (tg, t)" using broadcast_total by blast
    have "plenty (mem t)" using broadcast_frames(5) [OF b] pm by simp
    with b CBC_DATA show ?thesis
      by (simp add: send_by_kind_def cbc_sent_msg_create_def calloc_def Let_def)
  qed (simp_all add: send_by_kind_def Let_def)
  then show ?thesis
    using run q s mt by (auto simp: cbc_send_iteration_def c_rand_def Let_def)
qed

section \<open>Steps of a process\<close>

text \<open>
  One step: a call of the application, a round of one of the two threads, or a datagram that
  the network puts in front of the socket. Each is atomic here; the code runs the rounds
  concurrently, under the locks that \<open>lock_trace\<close> records.
\<close>

inductive cbc_step :: "node \<Rightarrow> node \<Rightarrow> bool" where
  step_send: "cbc_send pl n s = Inr (r, s') \<Longrightarrow> cbc_step s s'"
| step_receive: "cbc_receive s = (r, s') \<Longrightarrow> cbc_step s s'"
| step_send_thread: "cbc_send_iteration s = Some (Inr s') \<Longrightarrow> cbc_step s s'"
| step_recv_thread: "cbc_recv_iteration peek_fails recv_fails hdr_buf s = Some (Inr (hb, s')) \<Longrightarrow> cbc_step s s'"
| step_arrival: "cbc_step s (s\<lparr>socket_rx := socket_rx s @ [(a, d)]\<rparr>)"
| step_add_peer: "cbc_add_peer inet_addr p ipv4 port s = Inr (r, s') \<Longrightarrow> unat p < 31 \<Longrightarrow> p \<noteq> pid s \<Longrightarrow> cbc_step s s'"
| step_remove_peer: "cbc_step s (cbc_remove_peer p s)"

inductive_cases cbc_stepE: "cbc_step s s'"

inductive cbc_reachable :: "node \<Rightarrow> node \<Rightarrow> bool" where
  reach_refl: "cbc_reachable s s"
| reach_step: "cbc_reachable s t \<Longrightarrow> cbc_step t u \<Longrightarrow> cbc_reachable s u"

lemma cbc_add_peer_inv:
  assumes inv: "proc_inv s" and run: "cbc_add_peer inet_addr p ipv4 port s = Inr (r, s')"
    and p: "unat p < 31" "p \<noteq> pid s"
  shows "proc_inv s'"
proof -
  have frames: "delivery_view s' = delivery_view s \<and> sent_view s' = sent_view s \<and> send_queue s' = send_queue s
     \<and> (peers s' = peers s \<or> (\<exists>q. peers s' = peers s @ [q] \<and> peer_pid q = ucast (ucast p :: u32)))"
    using run
    by (auto simp: cbc_add_peer_def create_peer_def Let_def with_lock_def result_new_ok_def result_new_err_def
        result_expect_def arrput_def split: option.splits if_splits prod.splits sum.splits)
  have "(ucast (ucast p :: u32) :: u64) = p"
    using p(1) by (simp add: word_unat_eq_iff unsigned_ucast_eq unsigned_take_bit_eq take_bit_nat_eq_self)
  then have "small_pids (peers s')" "pid s' \<notin> peer_pid ` set (peers s')"
    using frames inv p delivery_view_fields(1) [of s' s] by (auto simp: proc_inv_def pids_ok_def small_pids_def)
  then have "pids_ok s'" using frames inv delivery_view_fields [of s' s] by (simp add: proc_inv_def pids_ok_def)
  then show ?thesis
    using frames inv delivery_view_cong(1,2) [of s' s] sent_view_cong(1) [of s' s]
    by (simp add: proc_inv_def queue_ok_def)
qed

lemma cbc_remove_peer_inv:
  assumes inv: "proc_inv s" shows "proc_inv (cbc_remove_peer p s)"
proof -
  let ?t = "cbc_remove_peer p s"
  have frames: "delivery_view ?t = delivery_view s" "sent_view ?t = sent_view s" "send_queue ?t = send_queue s"
     and ps: "set (peers ?t) \<subseteq> set (peers s)"
    using set_arrdel_subset [of "peers s"]
    by (auto simp: cbc_remove_peer_def with_lock_def split: option.splits dest: subsetD)
  have "pids_ok ?t" using inv ps delivery_view_fields [OF frames(1)]
    by (auto simp: proc_inv_def pids_ok_def small_pids_def)
  then show ?thesis
    using frames inv delivery_view_cong(1,2) [OF frames(1)] sent_view_cong(1) [OF frames(2)]
    by (simp add: proc_inv_def queue_ok_def)
qed

lemma cbc_step_inv: "cbc_step s s' \<Longrightarrow> proc_inv s \<Longrightarrow> proc_inv s'"
  by (induction rule: cbc_step.induct)
    (auto intro: cbc_send_inv cbc_receive_inv(1) send_iteration_inv recv_iteration_inv cbc_add_peer_inv
      cbc_remove_peer_inv)

lemma reachable_inv: "cbc_reachable s s' \<Longrightarrow> proc_inv s \<Longrightarrow> proc_inv s'"
  by (induction rule: cbc_reachable.induct) (auto intro: cbc_step_inv)

section \<open>Properties\<close>

text \<open>
  C10: The invariant of a process holds in every state it can reach from its start, by calls of
  the application, rounds of the two threads, arbitrary arriving datagrams and, as
  the allocator \<open>m\<close> and the values \<open>rs\<close> of \<open>rand\<close> are arbitrary, with any allocations
  failing and any datagrams dropped: queued messages are well-formed, the sent buffer holds distinct live pointers
  to data messages, the held buffer has no duplicates, the process is not its own peer, and the
  histories are in order.
\<close>

theorem reachable_proc_inv:
  assumes "cbc_reachable (new_node m rs p n ps) s"
    and "n < 65536" "unat p < n" "small_pids ps" "p \<notin> peer_pid ` set ps"
  shows "proc_inv s"
  using reachable_inv [OF assms(1) initial_proc_inv [OF assms(2-5)]] .

lemma arrival_reachable:
  "cbc_reachable (initial_node 0 5 [worker_peer 1, worker_peer 2]) (waiting [(a, d)])"
  using reach_step [OF reach_refl step_arrival [of "initial_node 0 5 [worker_peer 1, worker_peer 2]" a d]]
  by (simp add: waiting_def)

theorem reachable_proc_inv_witness: "proc_inv (waiting [(worker_addr 1, [1, 2, 3])])"
  by (rule reachable_proc_inv [OF arrival_reachable]) (simp_all add: small_pids_def)

end
