(* ===== verification/Effects.thy ===== *)
theory Effects
  imports Process
begin

text \<open>
  What one step of a process can put where, as a frame condition on message contents:
  \<open>effect B R s s'\<close> says that the step took received messages only from \<open>R\<close>, queued
  only data messages of \<open>B\<close>, header-only answers and retransmissions of sent messages,
  recorded as sent only what was queued, and put on the wire only the bytes of queued
  messages (or an empty datagram). Every step of a process has an effect of this form. The
  broadcasting network of the next theory is proved over it.
\<close>

section \<open>Effects\<close>

definition inbox :: "node \<Rightarrow> cbcast_received_msg set" where
  "inbox s = set (delivered s @ delivery_queue s @ held_msg_buffer s)"

definition outbox :: "node \<Rightarrow> cbcast_msg set" where
  "outbox s = out_message ` set (send_queue s)"

definition sent_msgs :: "node \<Rightarrow> cbcast_msg set" where
  "sent_msgs s = sent_message ` set (sent_list s)"

definition as_retransmission :: "cbcast_msg \<Rightarrow> cbcast_msg" where
  "as_retransmission msg = msg\<lparr>header := (header msg)\<lparr>kind := CBC_RETRANSMIT\<rparr>\<rparr>"

definition own_count :: "node \<Rightarrow> u64" where
  "own_count s = vc_clock (vclock s) ! unat (pid s)"

definition answers :: "cbcast_msg set" where
  "answers = {m. header_only (kind (header m))}"

definition effect :: "cbcast_msg set \<Rightarrow> cbcast_received_msg set \<Rightarrow> node \<Rightarrow> node \<Rightarrow> bool" where
  "effect B R s s' \<longleftrightarrow>
     pid s' = pid s
     \<and> inbox s' \<subseteq> inbox s \<union> R
     \<and> outbox s' \<subseteq> outbox s \<union> B \<union> answers \<union> as_retransmission ` sent_msgs s
     \<and> sent_msgs s' \<subseteq> sent_msgs s \<union> outbox s
     \<and> set (socket_tx s') \<subseteq> set (socket_tx s) \<union> UNIV \<times> insert [] (wire_bytes ` outbox s)
     \<and> set (socket_rx s') \<subseteq> set (socket_rx s)"

lemma retransmission_as: "retransmission m = as_retransmission (sent_message m)"
  by (simp add: retransmission_def as_retransmission_def)

lemma inbox_cong: "delivery_view s' = delivery_view s \<Longrightarrow> inbox s' = inbox s"
  by (simp add: inbox_def delivery_view_def)

lemma sent_msgs_cong: "sent_view s' = sent_view s \<Longrightarrow> sent_msgs s' = sent_msgs s"
  using sent_view_cong(2) [of s' s] by (simp add: sent_msgs_def)

lemma own_count_cong: "delivery_view s' = delivery_view s \<Longrightarrow> own_count s' = own_count s"
  by (simp add: own_count_def delivery_view_def)

section \<open>The application\<close>

lemma cbc_receive_effect:
  assumes run: "cbc_receive s = (r, s')"
  shows "effect {} {} s s'" "own_count s' = own_count s"
proof -
  have "pid s' = pid s" "vclock s' = vclock s" "set (delivered s' @ delivery_queue s') = set (delivered s @ delivery_queue s)"
    "held_msg_buffer s' = held_msg_buffer s" "send_queue s' = send_queue s" "sent_view s' = sent_view s"
    "socket_tx s' = socket_tx s" "socket_rx s' = socket_rx s"
    using run by (auto simp: cbc_receive_eq sent_view_def split: list.splits)
  then show "effect {} {} s s'" "own_count s' = own_count s"
    using sent_msgs_cong [of s' s] by (auto simp: effect_def inbox_def outbox_def own_count_def)
qed

lemma retransmissions_msgs:
  assumes "set ps \<subseteq> set (sent_msg_buffer s)" "\<forall>p \<in> set ps. sent_message (sent_at t p) = sent_message (sent_at s p)"
  shows "out_message ` set (retransmissions t ps) \<subseteq> as_retransmission ` sent_msgs s"
proof
  fix m assume "m \<in> out_message ` set (retransmissions t ps)"
  then obtain p where p: "p \<in> set ps" "m = retransmission (sent_at t p)"
    by (auto simp: retransmissions_def retransmission_to_def dest: set_takeWhileD)
  then have "m = as_retransmission (sent_message (sent_at s p))" using assms(2) by (simp add: retransmission_as)
  moreover have "sent_message (sent_at s p) \<in> sent_msgs s"
    using p assms(1) by (auto simp: sent_msgs_def sent_list_def)
  ultimately show "m \<in> as_retransmission ` sent_msgs s" by blast
qed

lemma buried_msgs:
  assumes b: "buried ds s t" and ok: "sent_ok s" and p: "p \<in> set (sent_msg_buffer s)"
  shows "sent_message (sent_at t p) = sent_message (sent_at s p)"
proof (cases "ds = []")
  case True
  then show ?thesis using b locks_only_views(6) [of s t p] by (simp add: buried_def)
next
  case False
  then have "sent_heap t = heap_acked ds (sent_msg_buffer s) (sent_heap s)"
    using b by (auto simp: buried_def Let_def)
  then have "sent_heap t p = Some (ack_all ds (sent_at s p))"
    using p by (simp add: heap_acked_live [OF sent_ok_live [OF ok p]])
  then show ?thesis by (simp add: sent_at_def)
qed

lemma buried_buffer:
  assumes "buried ds s t" shows "set (sent_msg_buffer t) \<subseteq> set (sent_msg_buffer s)"
proof (cases "ds = []")
  case True
  then show ?thesis using assms locks_only_views(8) [of s t] by (simp add: buried_def)
next
  case False
  then show ?thesis using assms by (auto simp: buried_def Let_def)
qed

lemma buried_sent_msgs:
  assumes "buried ds s t" "sent_ok s" shows "sent_msgs t \<subseteq> sent_msgs s"
proof
  fix m assume "m \<in> sent_msgs t"
  then obtain p where p: "p \<in> set (sent_msg_buffer t)" "m = sent_message (sent_at t p)"
    by (auto simp: sent_msgs_def sent_list_def)
  have "p \<in> set (sent_msg_buffer s)"
    using p(1) buried_buffer [OF assms(1)] by blast
  with buried_msgs [OF assms this] p show "m \<in> sent_msgs s" by (auto simp: sent_msgs_def sent_list_def)
qed

lemma swept_effect:
  assumes sw: "swept s s'" and ok: "sent_ok s"
  shows "effect {} {} s s'" "delivery_view s' = delivery_view s"
proof -
  let ?old = "still_old (own_clock s) s"
  obtain t ds where b: "buried ds s t" and q: "quiet t s'"
    and sq: "send_queue s' = send_queue s @ retransmissions t ?old"
    using sw by (auto simp: swept_def)
  note bf = buried_frames [OF b] and qv = quiet_views [OF q]
  have "set ?old \<subseteq> set (sent_msg_buffer s)" by (auto simp: still_old_def)
  then have "out_message ` set (retransmissions t ?old) \<subseteq> as_retransmission ` sent_msgs s"
    using buried_msgs [OF b ok] by (intro retransmissions_msgs) auto
  then have "outbox s' \<subseteq> outbox s \<union> as_retransmission ` sent_msgs s" using sq by (auto simp: outbox_def)
  moreover have "sent_msgs s' \<subseteq> sent_msgs s"
    using buried_sent_msgs [OF b ok] sent_msgs_cong [OF qv(2)] by simp
  moreover show dv: "delivery_view s' = delivery_view s" using bf(1) qv(1) by simp
  ultimately show "effect {} {} s s'"
    using inbox_cong [OF dv] bf qv by (auto simp: effect_def)
qed

definition broadcasts :: "u8 list option \<Rightarrow> u64 \<Rightarrow> node \<Rightarrow> unit Result \<Rightarrow> cbcast_msg list" where
  "broadcasts pl n s r = (if result_is_ok r then [data_msg (the pl) n (next_own s)] else [])"

lemma queued_data_effect:
  assumes q: "queued_data bytes n s u"
  shows "effect {data_msg bytes n (next_own s)} {} s u" "sent_view u = sent_view s" "send_queue u = send_queue s
     @ [\<lparr>out_message = data_msg bytes n (next_own s), out_addr = None, socket_flags = 0\<rparr>]"
    "vclock u = vclock (bumped s)" "pid u = pid s" "socket_tx u = socket_tx s" "socket_rx u = socket_rx s"
    "inbox u = inbox s"
proof -
  have qt: "quiet (bumped s) u" and sq: "send_queue u = send_queue s
     @ [\<lparr>out_message = data_msg bytes n (next_own s), out_addr = None, socket_flags = 0\<rparr>]"
    using q by (simp_all add: queued_data_def)
  note v = quiet_views [OF qt]
  show sv: "sent_view u = sent_view s" using v(2) by simp
  show "send_queue u = send_queue s
     @ [\<lparr>out_message = data_msg bytes n (next_own s), out_addr = None, socket_flags = 0\<rparr>]" by (rule sq)
  show f: "vclock u = vclock (bumped s)" "pid u = pid s" "socket_tx u = socket_tx s" "socket_rx u = socket_rx s"
    using v by (simp_all add: bumped_def)
  show i: "inbox u = inbox s" using v by (simp add: inbox_def)
  show "effect {data_msg bytes n (next_own s)} {} s u"
    using sent_msgs_cong [OF sv] f i sq by (auto simp: effect_def outbox_def)
qed

lemma cbc_send_effect:
  assumes inv: "proc_inv s" and run: "cbc_send pl n s = Inr (r, s')"
  shows "effect (set (broadcasts pl n s r)) {} s s'"
    "own_count s' = own_count s + (if result_is_ok r then 1 else 0)"
    "result_is_ok r \<Longrightarrow> \<exists>bytes. pl = Some bytes \<and> (ucast n :: u16) \<noteq> 0 \<and> unat (ucast n :: u16) \<le> length bytes"
proof -
  have *: "effect (set (broadcasts pl n s r)) {} s s' \<and> own_count s' = own_count s + (if result_is_ok r then 1 else 0)
    \<and> (result_is_ok r \<longrightarrow> (\<exists>bytes. pl = Some bytes \<and> (ucast n :: u16) \<noteq> 0 \<and> unat (ucast n :: u16) \<le> length bytes))"
  proof (cases rule: cbc_send_cases [OF run])
    case (1 e m)
    then have "r = result_new_err e" "s' = s\<lparr>mem := m\<rparr>" by auto
    then show ?thesis
      using sent_msgs_cong [of s' s] by (auto simp: effect_def broadcasts_def inbox_def outbox_def own_count_def)
  next
    case (2 e)
    then show ?thesis by simp
  next
    case (3 bytes u)
    note u = queued_data_inv(1,2) [OF 3(6,3,4) inv] and e = queued_data_effect [OF 3(6)]
    have h: "handle_old_messages u = Inr s'" and r: "r = result_new_ok ()" using 3(8) [symmetric] by auto
    have sw: "swept u s'" using proc_inv_sweep(1) [OF u(1) _ h] u(2) 3(5) by simp
    have "sent_ok u" using u(1) by (simp add: proc_inv_def)
    note se = swept_effect [OF sw this]
    have ob: "outbox u = insert (data_msg bytes n (next_own s)) (outbox s)" and sm: "sent_msgs u = sent_msgs s"
      using e(3) sent_msgs_cong [OF e(2)] by (simp_all add: outbox_def)
    have "outbox s' \<subseteq> outbox s \<union> {data_msg bytes n (next_own s)} \<union> answers \<union> as_retransmission ` sent_msgs s"
      "inbox s' \<subseteq> inbox s" "set (socket_rx s') \<subseteq> set (socket_rx s)" "pid s' = pid s"
      using se(1) ob sm e(5,7,8) by (auto simp: effect_def)
    moreover have "sent_msgs s' \<subseteq> sent_msgs s \<and> socket_tx s' = socket_tx s"
    proof -
      obtain t ds where b: "buried ds u t" and q: "quiet t s'" using sw by (auto simp: swept_def)
      have "sent_msgs s' \<subseteq> sent_msgs u"
        using buried_sent_msgs [OF b \<open>sent_ok u\<close>] sent_msgs_cong [OF quiet_views(2) [OF q]] by simp
      moreover have "socket_tx s' = socket_tx u" using buried_frames(7) [OF b] quiet_views(14) [OF q] by simp
      ultimately show ?thesis using sm e(6) by simp
    qed
    ultimately have "effect (set (broadcasts pl n s r)) {} s s'"
      using 3(1) r by (auto simp: effect_def broadcasts_def)
    moreover have "own_count s' = own_count s + 1"
      using own_count_cong [OF se(2)] e(4,5) 3(7) by (simp add: own_count_def bumped_def next_own_def)
    ultimately show ?thesis using 3(1,3,4) r by auto
  qed
  then show "effect (set (broadcasts pl n s r)) {} s s'"
    "own_count s' = own_count s + (if result_is_ok r then 1 else 0)"
    "result_is_ok r \<Longrightarrow> \<exists>bytes. pl = Some bytes \<and> (ucast n :: u16) \<noteq> 0 \<and> unat (ucast n :: u16) \<le> length bytes"
    by blast+
qed

section \<open>The send thread\<close>

text \<open>The bytes one call of \<open>sendto\<close> puts on the wire.\<close>

definition sent_bytes :: "u8 list option \<Rightarrow> nat \<Rightarrow> u8 list" where
  "sent_bytes bs n = (case bs of None \<Rightarrow> [] | Some b \<Rightarrow> take n b)"

lemma c_sendto_tx: "set (socket_tx (c_sendto bs n a s)) \<subseteq> set (socket_tx s) \<union> UNIV \<times> {sent_bytes bs n}"
  by (auto simp: c_sendto_def sent_bytes_def split: option.splits)

lemma c_sendto_rx [simp]: "socket_rx (c_sendto bs n a s) = socket_rx s"
  by (simp add: c_sendto_def split: option.splits)

lemma c_sendto_rands [simp]: "rands (c_sendto bs n a s) = rands s"
  by (simp add: c_sendto_def split: option.splits)

definition alive :: "cbcast_peer list \<Rightarrow> cbcast_peer list" where
  "alive = filter (\<lambda>q. peer_status q = CBC_PEER_ALIVE)"

lemma broadcast_loop_effect:
  "broadcast_loop bs n qs tg d k s = Inr (tg', d', k', s') \<Longrightarrow>
     tg' = tg OR pid_bits (map peer_pid (alive qs)) \<and> socket_rx s' = socket_rx s \<and> rands s' = rands s
     \<and> set (socket_tx s') \<subseteq> set (socket_tx s) \<union> peer_addr ` set (alive qs) \<times> {sent_bytes bs n}"
proof (induction bs n qs tg d k s rule: broadcast_loop.induct)
  case (2 bs n q qs tg d k s)
  show ?case
  proof (cases "peer_status q = CBC_PEER_ALIVE")
    case False
    with "2.IH"(1) "2.prems" show ?thesis by (simp add: alive_def)
  next
    case True
    let ?s = "s\<lparr>rand_pos := Suc (rand_pos s)\<rparr>"
    have q: "unat (peer_pid q) < 31" using "2.prems" True by auto
    have tx: "set (socket_tx (c_sendto bs n (Some (peer_addr q)) ?s)) \<subseteq> set (socket_tx s) \<union> {(peer_addr q, sent_bytes bs n)}"
      by (auto simp: c_sendto_def sent_bytes_def split: option.splits)
    show ?thesis
    proof (cases "sim_drops (rands s (rand_pos s))")
      case drop: True
      have "broadcast_loop bs n qs (tg OR pid_bit (peer_pid q)) (d + 1) k ?s = Inr (tg', d', k', s')"
        using "2.prems" True q drop by (auto simp: c_rand_def Let_def pid_bit_def split: if_splits)
      moreover have "bs \<noteq> None" using "2.prems" True q drop by (auto simp: c_rand_def Let_def split: if_splits)
      ultimately have "tg' = (tg OR pid_bit (peer_pid q)) OR pid_bits (map peer_pid (alive qs)) \<and>
          socket_rx s' = socket_rx s \<and> rands s' = rands s
          \<and> set (socket_tx s') \<subseteq> set (socket_tx s) \<union> peer_addr ` set (alive qs) \<times> {sent_bytes bs n}"
        using "2.IH"(2) True q drop by (simp add: c_rand_def pid_bit_def)
      with True show ?thesis by (auto simp: alive_def or.assoc)
    next
      case send: False
      have "broadcast_loop bs n qs (tg OR pid_bit (peer_pid q)) d (k + 1) (c_sendto bs n (Some (peer_addr q)) ?s)
          = Inr (tg', d', k', s')"
        using "2.prems" True q send by (auto simp: c_rand_def Let_def pid_bit_def)
      then have "tg' = (tg OR pid_bit (peer_pid q)) OR pid_bits (map peer_pid (alive qs)) \<and>
          socket_rx s' = socket_rx s \<and> rands s' = rands s
          \<and> set (socket_tx s') \<subseteq> set (socket_tx (c_sendto bs n (Some (peer_addr q)) ?s))
            \<union> peer_addr ` set (alive qs) \<times> {sent_bytes bs n}"
        using "2.IH"(3) True q send by (simp add: c_rand_def pid_bit_def)
      with tx True show ?thesis by (auto simp: alive_def or.assoc)
    qed
  qed
qed (simp add: alive_def)

lemma broadcast_loop_no_drops:
  "broadcast_loop (Some b) n qs tg d k s = Inr (tg', d', k', s') \<Longrightarrow> \<forall>i. \<not> sim_drops (rands s i) \<Longrightarrow>
     socket_tx s' = socket_tx s @ map (\<lambda>q. (peer_addr q, take n b)) (alive qs)"
proof (induction "Some b" n qs tg d k s rule: broadcast_loop.induct)
  case (2 n q qs tg d k s)
  show ?case
  proof (cases "peer_status q = CBC_PEER_ALIVE")
    case False
    with 2 show ?thesis by (simp add: alive_def)
  next
    case True
    let ?s = "c_sendto (Some b) n (Some (peer_addr q)) (s\<lparr>rand_pos := Suc (rand_pos s)\<rparr>)"
    have q: "unat (peer_pid q) < 31" using "2.prems" True by auto
    have "broadcast_loop (Some b) n qs (tg OR pid_bit (peer_pid q)) d (k + 1) ?s = Inr (tg', d', k', s')"
      using "2.prems" True q by (auto simp: c_rand_def Let_def pid_bit_def)
    then have "socket_tx s' = socket_tx ?s @ map (\<lambda>q. (peer_addr q, take n b)) (alive qs)"
      using "2.hyps"(3) True q "2.prems"(2) by (simp add: c_rand_def pid_bit_def)
    with True show ?thesis by (simp add: alive_def c_sendto_def)
  qed
qed (simp add: alive_def)

lemma broadcast_no_drops:
  assumes "broadcast (Some b) n s = Inr (tg, s')" "\<forall>i. \<not> sim_drops (rands s i)"
  shows "socket_tx s' = socket_tx s @ map (\<lambda>q. (peer_addr q, take n b)) (alive (peers s))"
proof -
  obtain d k t where l: "broadcast_loop (Some b) n (peers s) 0 0 0 (mutex_lock PEER_LOCK s) = Inr (tg, d, k, t)"
    and s': "socket_tx s' = socket_tx t"
    using assms(1) by (auto simp: broadcast_def with_lock_def Let_def)
  from broadcast_loop_no_drops [OF l] assms(2) s' show ?thesis by simp
qed

lemma broadcast_effect:
  assumes "broadcast bs n s = Inr (tg, s')"
  shows "tg = pid_bits (map peer_pid (alive (peers s)))" "socket_rx s' = socket_rx s" "rands s' = rands s"
    "set (socket_tx s') \<subseteq> set (socket_tx s) \<union> peer_addr ` set (alive (peers s)) \<times> {sent_bytes bs n}"
proof -
  obtain d k t where l: "broadcast_loop bs n (peers s) 0 0 0 (mutex_lock PEER_LOCK s) = Inr (tg, d, k, t)"
    and s': "socket_tx s' = socket_tx t" "socket_rx s' = socket_rx t" "rands s' = rands t"
    using assms by (auto simp: broadcast_def with_lock_def Let_def)
  from broadcast_loop_effect [OF l] s'
  show "tg = pid_bits (map peer_pid (alive (peers s)))" "socket_rx s' = socket_rx s" "rands s' = rands s"
    "set (socket_tx s') \<subseteq> set (socket_tx s) \<union> peer_addr ` set (alive (peers s)) \<times> {sent_bytes bs n}"
    by auto
qed

text \<open>The record of a data message that was broadcast: the target loses the bits from 16 on.\<close>

definition recorded :: "cbcast_msg \<Rightarrow> cbcast_peer list \<Rightarrow> cbcast_sent_msg" where
  "recorded msg ps = \<lparr>sent_message = msg,
     ack_target = pid_bits (filter (\<lambda>p. unat p < 16) (map peer_pid (alive ps))), ack_bitmap = 0\<rparr>"

lemma pid_bits_16: "(ucast (ucast (pid_bits ts) :: u16) :: u64) = pid_bits (filter (\<lambda>p. unat p < 16) ts)"
  by (rule bit_word_eqI) (auto simp: bit_pid_bits bit_simps)

lemma record_sent_list:
  assumes "sent_ok s" shows "sent_list (record_sent m s) = sent_list s @ [m]"
proof -
  have "next_ptr s \<notin> set (sent_msg_buffer s)" using assms by (auto simp: sent_ok_def)
  then have "map (sent_at (record_sent m s)) (sent_msg_buffer s) = map (sent_at s) (sent_msg_buffer s)"
    by (auto simp: record_sent_def with_lock_def sent_at_def mutex_lock_def mutex_unlock_def)
  moreover have "sent_msg_buffer (record_sent m s) = sent_msg_buffer s @ [next_ptr s]"
    "sent_at (record_sent m s) (next_ptr s) = m"
    by (simp_all add: record_sent_def with_lock_def arrput_def sent_at_def)
  ultimately show ?thesis by (simp add: sent_list_def)
qed

lemma record_sent_frames [simp]:
  "delivery_view (record_sent m s) = delivery_view s" "send_queue (record_sent m s) = send_queue s"
  "socket_tx (record_sent m s) = socket_tx s" "socket_rx (record_sent m s) = socket_rx s"
  "rands (record_sent m s) = rands s"
  "peers (record_sent m s) = peers s" "mem (record_sent m s) = mem s"
  by (simp_all add: record_sent_def with_lock_def delivery_view_def)

lemma send_by_kind_effect:
  assumes ok: "sent_ok s" and run: "send_by_kind w bs n out s = Inr (r, s')"
  shows "delivery_view s' = delivery_view s" "send_queue s' = send_queue s" "socket_rx s' = socket_rx s"
    "peers s' = peers s" "rands s' = rands s"
    "sent_list s' = sent_list s @ (if kind (header (out_message out)) = CBC_DATA
       then [recorded (out_message out) (peers s)] else [])"
    "set (socket_tx s') \<subseteq> set (socket_tx s) \<union> UNIV \<times> {sent_bytes bs n}"
proof -
  have *: "delivery_view s' = delivery_view s \<and> send_queue s' = send_queue s \<and> socket_rx s' = socket_rx s
    \<and> peers s' = peers s \<and> rands s' = rands s
    \<and> sent_list s' = sent_list s @ (if kind (header (out_message out)) = CBC_DATA
       then [recorded (out_message out) (peers s)] else [])
    \<and> set (socket_tx s') \<subseteq> set (socket_tx s) \<union> UNIV \<times> {sent_bytes bs n}"
  proof (cases "kind (header (out_message out)) = CBC_DATA")
    case True
    with run obtain tg t where b: "broadcast bs n s = Inr (tg, t)"
      and rest: "(let (r, m) = cbc_sent_msg_create (out_message out) (ucast tg) (mem t) in
          andthen (result_expect r ''conversion between outgoing message and sent message should not fail'') (\<lambda>sent.
          Inr (None, record_sent sent (t\<lparr>mem := m\<rparr>)))) = Inr (r, s')"
      by (auto simp: send_by_kind_def)
    obtain r2 m where c: "cbc_sent_msg_create (out_message out) (ucast tg) (mem t) = (r2, m)" by fastforce
    then obtain sent where r2: "r2 = result_new_ok sent" and s': "s' = record_sent sent (t\<lparr>mem := m\<rparr>)"
      using rest by auto
    have "sent = \<lparr>sent_message = out_message out, ack_target = ucast (ucast tg :: u16), ack_bitmap = 0\<rparr>"
      using c r2 by (auto simp: cbc_sent_msg_create_def Let_def split: prod.splits if_splits)
    then have sent: "sent = recorded (out_message out) (peers s)"
      by (simp add: broadcast_effect(1) [OF b] pid_bits_16 recorded_def)
    note f = broadcast_frames [OF b] and e = broadcast_effect(2-4) [OF b]
    have "sent_view (t\<lparr>mem := m\<rparr>) = sent_view s" using f(2) by simp
    then have "sent_ok (t\<lparr>mem := m\<rparr>)" "sent_list (t\<lparr>mem := m\<rparr>) = sent_list s"
      using sent_view_cong(1,2) [of "t\<lparr>mem := m\<rparr>" s] ok by simp_all
    then have "sent_list s' = sent_list s @ [sent]" using record_sent_list s' by metis
    with True sent f e show ?thesis by (auto simp: s')
  next
    case False
    have tx: "set (socket_tx (send_single w f g bs n out s)) \<subseteq> set (socket_tx s) \<union> UNIV \<times> {sent_bytes bs n}
        \<and> socket_rx (send_single w f g bs n out s) = socket_rx s
        \<and> rands (send_single w f g bs n out s) = rands s" for f g
      using c_sendto_tx [of bs n "out_addr out" "count_stat g s"]
      by (simp add: send_single_def count_stat_def with_lock_def)
    have sl: "sent_list (send_single w f g bs n out s) = sent_list s" for f g
      by (rule sent_view_cong(2)) simp
    show ?thesis
      using run False tx sl by (cases "kind (header (out_message out))") (auto simp: send_by_kind_def Let_def)
  qed
  then show "delivery_view s' = delivery_view s" "send_queue s' = send_queue s" "socket_rx s' = socket_rx s"
    "peers s' = peers s" "rands s' = rands s"
    "sent_list s' = sent_list s @ (if kind (header (out_message out)) = CBC_DATA
       then [recorded (out_message out) (peers s)] else [])"
    "set (socket_tx s') \<subseteq> set (socket_tx s) \<union> UNIV \<times> {sent_bytes bs n}" by blast+
qed

lemma send_by_kind_alloc:
  "send_by_kind w bs n out s = Inr (r, s') \<Longrightarrow> alloc_ok (mem s') = alloc_ok (mem s)"
proof (cases "kind (header (out_message out)) = CBC_DATA")
  case True
  assume "send_by_kind w bs n out s = Inr (r, s')"
  with True obtain tg t r2 m sent where b: "broadcast bs n s = Inr (tg, t)"
    and c: "cbc_sent_msg_create (out_message out) (ucast tg) (mem t) = (r2, m)"
    and s': "s' = record_sent sent (t\<lparr>mem := m\<rparr>)"
    by (cases "broadcast bs n s")
      (auto simp: send_by_kind_def Let_def split: prod.splits)
  have "alloc_ok m = alloc_ok (mem t)" using c by (auto simp: cbc_sent_msg_create_def calloc_def Let_def split: if_splits)
  then show ?thesis using broadcast_frames(5) [OF b] by (simp add: s')
next
  case False
  assume "send_by_kind w bs n out s = Inr (r, s')"
  with False show ?thesis
    by (cases "kind (header (out_message out))") (auto simp: send_by_kind_def Let_def)
qed

lemma send_iteration_run:
  assumes inv: "proc_inv s" and run: "cbc_send_iteration s = Some (Inr s')" and q: "send_queue s = out # rest"
  shows "delivery_view s' = delivery_view s" "send_queue s' = rest" "socket_rx s' = socket_rx s" "peers s' = peers s"
    "alloc_ok (mem s') = alloc_ok (mem s)"  "rands s' = rands s"
    "sent_list s' = sent_list s @ (if kind (header (out_message out)) = CBC_DATA
       then [recorded (out_message out) (peers s)] else [])"
    "set (socket_tx s') \<subseteq> set (socket_tx s) \<union> UNIV \<times> {[], wire_bytes (out_message out)}"
    "plenty (mem s) \<Longrightarrow> set (socket_tx s') \<subseteq> set (socket_tx s) \<union> UNIV \<times> {wire_bytes (out_message out)}"
    "plenty (mem s) \<Longrightarrow> \<forall>i. \<not> sim_drops (rands s i) \<Longrightarrow> kind (header (out_message out)) = CBC_DATA \<Longrightarrow>
       socket_tx s' = socket_tx s @ map (\<lambda>q. (peer_addr q, wire_bytes (out_message out))) (alive (peers s))"
proof -
  let ?t = "with_lock SEND_LOCK (\<lambda>s. s\<lparr>send_queue := arrdel (send_queue s) 0\<rparr>) s"
  have wf: "msg_wf (out_message out)" using inv q by (simp add: proc_inv_def queue_ok_def)
  obtain bs n m where ser: "cbc_msg_serialize (out_message out) (mem ?t) = Inr (bs, n, m)"
    using run q by (auto simp: cbc_send_iteration_def Let_def)
  let ?u = "?t\<lparr>mem := m, rand_pos := Suc (rand_pos ?t)\<rparr>"
  obtain r v where k: "send_by_kind (sim_drops (rands ?t (rand_pos ?t))) bs n out ?u = Inr (r, v)"
    and s': "s' = v\<lparr>mem := cbc_outgoing_msg_free r (out_addr out) (if bs = None then mem v else c_free 1 (mem v))\<rparr>"
    using run q ser by (auto simp: cbc_send_iteration_def c_rand_def Let_def)
  have u: "sent_view ?u = sent_view s" "delivery_view ?u = delivery_view s" "send_queue ?u = rest"
      "socket_rx ?u = socket_rx s" "socket_tx ?u = socket_tx s" "peers ?u = peers s" "mem ?t = mem s"
      "rands ?u = rands s"
    using q by (simp_all add: with_lock_def sent_view_def delivery_view_def)
  have sv: "sent_ok ?u = sent_ok s" "sent_list ?u = sent_list s" by (rule sent_view_cong [OF u(1)])+
  have "sent_ok ?u" using inv sv by (simp add: proc_inv_def)
  note e = send_by_kind_effect [OF this k]
  show "delivery_view s' = delivery_view s" "send_queue s' = rest" "socket_rx s' = socket_rx s" "peers s' = peers s"
    "rands s' = rands s"
    using e u s' by simp_all
  have "sent_list s' = sent_list v" unfolding s' by (rule sent_view_cong(2)) simp
  then show "sent_list s' = sent_list s @ (if kind (header (out_message out)) = CBC_DATA
       then [recorded (out_message out) (peers s)] else [])"
    using e(6) sv(2) u(6) by simp
  have tx: "set (socket_tx s') \<subseteq> set (socket_tx s) \<union> UNIV \<times> {sent_bytes bs n}" using e(7) u(5) s' by simp
  have sb: "sent_bytes bs n \<in> {[], wire_bytes (out_message out)}"
    "plenty (mem s) \<Longrightarrow> sent_bytes bs n = wire_bytes (out_message out)" "alloc_ok m = alloc_ok (mem s)"
    using cbc_msg_serialize_cases [OF wf, of "mem s"] ser u(7) by (force simp: sent_bytes_def)+
  show "set (socket_tx s') \<subseteq> set (socket_tx s) \<union> UNIV \<times> {[], wire_bytes (out_message out)}"
    "plenty (mem s) \<Longrightarrow> set (socket_tx s') \<subseteq> set (socket_tx s) \<union> UNIV \<times> {wire_bytes (out_message out)}"
    using tx sb(1,2) by blast+
  show "socket_tx s' = socket_tx s @ map (\<lambda>q. (peer_addr q, wire_bytes (out_message out))) (alive (peers s))"
    if pl: "plenty (mem s)" and nd: "\<forall>i. \<not> sim_drops (rands s i)" and kd: "kind (header (out_message out)) = CBC_DATA"
  proof -
    obtain b where b: "bs = Some b" "take n b = wire_bytes (out_message out)"
      using cbc_msg_serialize_plenty [OF wf pl] ser u(7) by auto
    obtain tg t where t: "broadcast bs n ?u = Inr (tg, t)" "socket_tx v = socket_tx t"
      using k kd by (cases "broadcast bs n ?u") (auto simp: send_by_kind_def Let_def split: prod.splits)
    have "socket_tx t = socket_tx ?u @ map (\<lambda>q. (peer_addr q, take n b)) (alive (peers ?u))"
      using broadcast_no_drops [of b n ?u tg t] t(1) b(1) nd u(8) by simp
    then show ?thesis using s' t(2) u(5,6) b(2) by simp
  qed
  have "alloc_ok (mem v) = alloc_ok m" using send_by_kind_alloc [OF k] by simp
  then show "alloc_ok (mem s') = alloc_ok (mem s)"
    using sb(3) by (simp add: s' cbc_outgoing_msg_free_def cbc_msg_free_def Let_def split: option.split)
qed

lemma send_iteration_effect:
  assumes inv: "proc_inv s" and run: "cbc_send_iteration s = Some (Inr s')"
  shows "effect {} {} s s'" "own_count s' = own_count s"
proof -
  obtain out rest where q: "send_queue s = out # rest" using run by (cases "send_queue s") (auto simp: cbc_send_iteration_def)
  note r = send_iteration_run [OF inv run q]
  have "sent_msgs s' \<subseteq> sent_msgs s \<union> outbox s"
    using r(7) q by (auto simp: sent_msgs_def outbox_def recorded_def split: if_splits)
  moreover have "UNIV \<times> {[], wire_bytes (out_message out)} \<subseteq> UNIV \<times> insert [] (wire_bytes ` outbox s)"
    using q by (auto simp: outbox_def)
  ultimately show "effect {} {} s s'"
    using r(2,3,8) q inbox_cong [OF r(1)] delivery_view_fields(1) [OF r(1)]
    unfolding effect_def by (auto simp: outbox_def)
  show "own_count s' = own_count s" using own_count_cong [OF r(1)] .
qed

section \<open>The receive thread\<close>

lemma answer_msgs: "header_only k \<Longrightarrow> out_message ` set (answer k c p ps) \<subseteq> answers"
  by (auto simp: answer_def answers_def split: option.splits)

lemma quiet_effect:
  assumes "quiet s s'" "outbox s' \<subseteq> outbox s \<union> answers \<union> as_retransmission ` sent_msgs s"
  shows "effect {} R s s'" "own_count s' = own_count s"
proof -
  note v = quiet_views [OF assms(1)]
  show "effect {} R s s'"
    using assms(2) v inbox_cong [OF v(1)] sent_msgs_cong [OF v(2)] by (auto simp: effect_def)
  show "own_count s' = own_count s" using own_count_cong [OF v(1)] .
qed

lemma own_other: "known p s \<Longrightarrow> pids_ok s \<Longrightarrow> unat p \<noteq> unat (pid s)"
  using knownD(2) by (metis unat_ucast_u16_u64 word_unat_eq_iff)

lemma handle_data_msg_effect:
  assumes inv: "proc_inv s" and p: "known p s" and run: "handle_data_msg msg p s = Inr s'"
  shows "effect {} {rcvd_of msg p} s s' \<and> own_count s' = own_count s"
proof -
  have ok: "fifo_ok s" "ucast p \<noteq> pid s" "pids_ok s" using inv knownD [OF p] by (simp_all add: proc_inv_def)
  note e = handle_data_msg_Inr [OF ok(1,2) run] and other = own_other [OF p ok(3)]
  show ?thesis
  proof (cases "classify p (clock (header msg)) s")
    case CAUSALITY_ERROR
    with e have q: "quiet s s'" and sq: "send_queue s' = send_queue s @ answer CBC_ACK (clock (header msg)) p (peers s)"
      by simp_all
    have "outbox s' \<subseteq> outbox s \<union> answers \<union> as_retransmission ` sent_msgs s"
      using answer_msgs [of CBC_ACK "clock (header msg)" p "peers s"] sq by (auto simp: outbox_def)
    with quiet_effect [OF q] show ?thesis by blast
  next
    case CAUSALITY_DELIVER
    with e obtain ms where adv: "advanced p s (rcvd_of msg p # ms) s'"
      and h: "mset (held_msg_buffer s) = mset (held_msg_buffer s') + mset ms"
      and sq: "send_queue s' = send_queue s @ answer CBC_ACK (clock (header msg)) p (peers s)"
      by (auto simp: delivered_by_def)
    have hs: "set (held_msg_buffer s) = set (held_msg_buffer s') \<union> set ms"
      using arg_cong [OF h, of set_mset] by simp
    have "inbox s' \<subseteq> inbox s \<union> {rcvd_of msg p}" using adv hs by (auto simp: inbox_def advanced_def)
    moreover have "outbox s' \<subseteq> outbox s \<union> answers"
      using answer_msgs [of CBC_ACK "clock (header msg)" p "peers s"] sq by (auto simp: outbox_def)
    moreover have "sent_msgs s' = sent_msgs s" using adv by (intro sent_msgs_cong) (simp add: advanced_def)
    moreover have "own_count s' = own_count s" using adv other by (simp add: advanced_def own_count_def)
    ultimately show ?thesis using adv by (auto simp: effect_def advanced_def)
  next
    case CAUSALITY_HOLD
    with e have h: "held_by msg p s s'" by simp
    have "inbox s' \<subseteq> inbox s \<union> {rcvd_of msg p}" using h by (auto simp: inbox_def held_by_def split: if_splits)
    moreover have "outbox s' \<subseteq> outbox s \<union> answers"
      using answer_msgs [of CBC_ACK "clock (header msg)" p "peers s"]
        answer_msgs [of CBC_RETRANSMIT_REQ "ucast (vc_clock (vclock s) ! unat p + 1)" p "peers s"] h
      by (auto simp: outbox_def held_by_def)
    moreover have "sent_msgs s' = sent_msgs s" using h by (intro sent_msgs_cong) (simp add: held_by_def)
    moreover have "own_count s' = own_count s" using h by (simp add: held_by_def own_count_def)
    ultimately show ?thesis using h by (auto simp: effect_def held_by_def)
  qed
qed

lemma ack_list_msgs: "sent_message ` set (ack_list c b ms) \<subseteq> sent_message ` set ms"
  by (induction ms) (auto simp: ack_list_simps)

lemma requested_msgs: "out_message ` set (requested c p s) \<subseteq> as_retransmission ` sent_msgs s"
proof (cases "find_clock c (sent_list s)")
  case (Some m)
  then have "m \<in> set (sent_list s)" by (auto simp: find_clock_def dest: first_index_lt)
  with Some show ?thesis
    by (auto simp: requested_def retransmission_to_def retransmission_as sent_msgs_def)
qed (simp add: requested_def)

lemma mem_effect [simp]:
  "effect B R s (s'\<lparr>mem := m\<rparr>) = effect B R s s'" "own_count (s\<lparr>mem := m\<rparr>) = own_count s"
  "effect B R (mutex_lock l s) s' = effect B R s s'" "own_count (mutex_lock l s) = own_count s"
  "effect B R s (mutex_unlock l s') = effect B R s s'" "own_count (mutex_unlock l s) = own_count s"
proof -
  have i: "inbox (s\<lparr>mem := m\<rparr>) = inbox s" "inbox (mutex_lock l s) = inbox s" "inbox (mutex_unlock l s) = inbox s"
    for s m l by (rule inbox_cong; simp)+
  have t: "sent_msgs (s\<lparr>mem := m\<rparr>) = sent_msgs s" "sent_msgs (mutex_lock l s) = sent_msgs s"
    "sent_msgs (mutex_unlock l s) = sent_msgs s" for s m l by (rule sent_msgs_cong; simp)+
  show "effect B R s (s'\<lparr>mem := m\<rparr>) = effect B R s s'" "effect B R (mutex_lock l s) s' = effect B R s s'"
    "effect B R s (mutex_unlock l s') = effect B R s s'"
    by (simp_all add: effect_def i t outbox_def)
  show "own_count (s\<lparr>mem := m\<rparr>) = own_count s" "own_count (mutex_lock l s) = own_count s"
    "own_count (mutex_unlock l s) = own_count s" by (rule own_count_cong; simp)+
qed

lemma dispatch_msg_effect:
  assumes inv: "proc_inv s" and p: "known p s" and run: "dispatch_msg msg p s = Inr s'"
  shows "effect {} (if header_only (kind (header msg)) then {} else {rcvd_of msg p}) s s' \<and> own_count s' = own_count s"
proof (cases "kind (header msg)")
  case CBC_ACK
  with run obtain t where t: "register_ack msg p (mutex_lock SEND_LOCK s) = Inr t"
    and s': "s' = (mutex_unlock SEND_LOCK t)\<lparr>mem := cbc_msg_free (Some msg) (mem (mutex_unlock SEND_LOCK t))\<rparr>"
    by (auto simp: dispatch_msg_def Let_def)
  let ?l = "mutex_lock SEND_LOCK s"
  have ok: "sent_ok ?l" "unat p < 31" using inv p by (simp_all add: proc_inv_def sent_ok_def known_def)
  have so: "sent_only ?l t" and sl: "sent_list t = ack_list (clock (header msg)) (push_bit (unat p) 1) (sent_list ?l)"
    using register_ack_refines [OF ok(1) CBC_ACK ok(2)] t by auto
  note v = sent_only_views [OF so]
  have "sent_msgs t \<subseteq> sent_msgs ?l" using ack_list_msgs sl by (simp add: sent_msgs_def)
  then have "effect {} {} ?l t"
    using v inbox_cong [OF v(1)] by (auto simp: effect_def outbox_def)
  moreover have "own_count t = own_count ?l" by (rule own_count_cong [OF v(1)])
  ultimately show ?thesis using CBC_ACK by (simp add: s')
next
  case CBC_RETRANSMIT_REQ
  with run obtain t where t: "queue_retransmission msg p s = Inr t"
    and s': "s' = t\<lparr>mem := cbc_msg_free (Some msg) (mem t)\<rparr>" by (auto simp: dispatch_msg_def)
  have "sent_ok s" using inv by (simp add: proc_inv_def)
  from queue_retransmission_Inr [OF this t] have q: "quiet s t"
    "send_queue t = send_queue s @ requested (clock (header msg)) p s" by blast+
  have "outbox t \<subseteq> outbox s \<union> answers \<union> as_retransmission ` sent_msgs s"
    using requested_msgs [of "clock (header msg)" p s] q(2) by (auto simp: outbox_def)
  with quiet_effect [OF q(1)] CBC_RETRANSMIT_REQ show ?thesis by (simp add: s')
next
  case (CBC_OTHER w)
  with run have "s' = s" by (simp add: dispatch_msg_def)
  then show ?thesis by (auto simp: effect_def)
qed (use run handle_data_msg_effect [OF inv p] in \<open>auto simp: dispatch_msg_def\<close>)

text \<open>The messages waiting at the socket, with their senders.\<close>

definition arrivals :: "node \<Rightarrow> cbcast_received_msg set" where
  "arrivals s = {rcvd_of (parsed_msg d) (pid_of_addr a (peers s)) |a d.
     (a, d) \<in> set (socket_rx s) \<and> hdr_size \<le> length d \<and> \<not> header_only (kind (header (parsed_msg d)))
     \<and> pid_of_addr a (peers s) \<noteq> UINT16_MAX}"

lemma effect_mono: "effect B R s s' \<Longrightarrow> B \<subseteq> B' \<Longrightarrow> R \<subseteq> R' \<Longrightarrow> effect B' R' s s'"
  unfolding effect_def by blast

lemma idle_effect:
  assumes "idle s t" shows "effect B R s t" "own_count t = own_count s" "effect B R t u \<Longrightarrow> effect B R s u"
proof -
  note v = idle_views [OF assms]
  have "set (socket_rx t) \<subseteq> set (socket_rx s)" using v(9) set_drop_subset by metis
  moreover have "pid t = pid s" using v(4) by (rule delivery_view_fields)
  moreover note sent_msgs_cong [OF v(5)] inbox_cong [OF v(4)]
  ultimately show "effect B R s t" "effect B R t u \<Longrightarrow> effect B R s u"
    using v(7,8) by (auto simp: effect_def outbox_def)
  show "own_count t = own_count s" by (rule own_count_cong [OF v(4)])
qed

lemma recv_iteration_effect:
  assumes inv: "proc_inv s" and run: "cbc_recv_iteration peek_fails recv_fails hdr_buf s = Some (Inr (hb, s'))"
  shows "effect {} (arrivals s) s s'" "own_count s' = own_count s"
proof -
  have "effect {} (arrivals s) s s' \<and> own_count s' = own_count s"
  proof (cases rule: recv_iteration_cases [OF run])
    case (1 hb' t)
    then show ?thesis using idle_effect by auto
  next
    case (3 hb' t bs msg p m m')
    have "known p s" using known_sender [of s] inv 3(3,4) by (simp add: proc_inv_def)
    then have t: "proc_inv t" "known p t" using idle_views(1,2) [OF 3(1)] inv by simp_all
    have "dispatch_msg msg p t = Inr s'" using 3(9) [symmetric] by auto
    note e = dispatch_msg_effect [OF t this]
    have "(if header_only (kind (header msg)) then {} else {rcvd_of msg p}) \<subseteq> arrivals s"
      using 3(2-4,6,7) hd_in_set [OF 3(2)] unfolding arrivals_def
      by (cases "hd (socket_rx s)") auto
    with e idle_effect(2,3) [OF 3(1)] effect_mono [OF _ empty_subsetI] show ?thesis by metis
  qed simp
  then show "effect {} (arrivals s) s s'" "own_count s' = own_count s" by blast+
qed

section \<open>Every step\<close>

lemma add_peer_effect:
  assumes "cbc_add_peer inet_addr p ipv4 port s = Inr (r, s')"
  shows "effect {} {} s s'" "own_count s' = own_count s"
proof -
  have f: "delivery_view s' = delivery_view s" "sent_view s' = sent_view s" "send_queue s' = send_queue s"
      "socket_tx s' = socket_tx s" "socket_rx s' = socket_rx s"
    using assms
    by (auto simp: cbc_add_peer_def create_peer_def Let_def with_lock_def result_new_ok_def result_new_err_def
        result_expect_def arrput_def split: option.splits if_splits prod.splits sum.splits)
  show "effect {} {} s s'"
    using f(3-5) inbox_cong [OF f(1)] sent_msgs_cong [OF f(2)] delivery_view_fields(1) [OF f(1)]
    by (auto simp: effect_def outbox_def)
  show "own_count s' = own_count s" using own_count_cong [OF f(1)] .
qed

lemma remove_peer_effect: "effect {} {} s (cbc_remove_peer p s)" "own_count (cbc_remove_peer p s) = own_count s"
proof -
  let ?t = "cbc_remove_peer p s"
  have f: "delivery_view ?t = delivery_view s" "sent_view ?t = sent_view s" "send_queue ?t = send_queue s"
      "socket_tx ?t = socket_tx s" "socket_rx ?t = socket_rx s"
    by (auto simp: cbc_remove_peer_def with_lock_def split: option.splits)
  show "effect {} {} s ?t"
    using f(3-5) inbox_cong [OF f(1)] sent_msgs_cong [OF f(2)] delivery_view_fields(1) [OF f(1)]
    by (auto simp: effect_def outbox_def)
  show "own_count ?t = own_count s" using own_count_cong [OF f(1)] .
qed

lemma cbc_step_pid: "cbc_step s s' \<Longrightarrow> proc_inv s \<Longrightarrow> pid s' = pid s"
proof (cases rule: cbc_stepE)
  fix pl n r assume "proc_inv s" "cbc_send pl n s = Inr (r, s')"
  then show "pid s' = pid s" using cbc_send_effect(1) by (simp add: effect_def)
next
  fix r assume "cbc_receive s = (r, s')"
  then show "pid s' = pid s" using cbc_receive_effect(1) by (simp add: effect_def)
next
  assume "proc_inv s" "cbc_send_iteration s = Some (Inr s')"
  then show "pid s' = pid s" using send_iteration_effect(1) by (simp add: effect_def)
next
  fix pf rf hb hb' assume "proc_inv s" "cbc_recv_iteration pf rf hb s = Some (Inr (hb', s'))"
  then show "pid s' = pid s" using recv_iteration_effect(1) by (simp add: effect_def)
next
  fix ia p ip port r assume "cbc_add_peer ia p ip port s = Inr (r, s')"
  then show "pid s' = pid s" using add_peer_effect(1) by (simp add: effect_def)
next
  fix p assume "s' = cbc_remove_peer p s"
  then show "pid s' = pid s" using remove_peer_effect(1) by (simp add: effect_def)
qed auto

lemma reachable_pid: "cbc_reachable s s' \<Longrightarrow> proc_inv s \<Longrightarrow> pid s' = pid s"
  by (induction rule: cbc_reachable.induct) (auto dest: cbc_step_pid reachable_inv)

lemma delivered_clocks:
  assumes "proc_inv s" "ucast q \<noteq> pid s"
  shows "map clk_of (filter (\<lambda>m. sender_pid m = q) (delivered s))
     = [1..<Suc (length (filter (\<lambda>m. sender_pid m = q) (delivered s)))]"
proof -
  have "\<exists>k. map clk_of (history_from q s) = [1..<Suc k]"
    using assms by (auto simp: proc_inv_def fifo_ok_def split: if_splits intro: exI [of _ 0])
  then obtain k where k: "map clk_of (history_from q s) = [1..<Suc k]" by blast
  let ?d = "filter (\<lambda>m. sender_pid m = q) (delivered s)"
  have "map clk_of ?d = take (length ?d) (map clk_of (history_from q s))"
    by (simp add: history_from_def)
  moreover have "length ?d \<le> k" using arg_cong [OF k, of length] by (simp add: history_from_def del: upt_Suc)
  ultimately show ?thesis using k by (simp add: take_upt del: upt_Suc)
qed

section \<open>A calm environment\<close>

text \<open>Enough memory, and a simulated network that drops nothing.\<close>

definition calm :: "node \<Rightarrow> bool" where
  "calm s \<longleftrightarrow> proc_inv s \<and> plenty (mem s) \<and> (\<forall>i. \<not> sim_drops (rands s i))"

text \<open>In it, a round of the receive thread delivers the next data message of a peer.\<close>

lemma recv_delivers:
  assumes calm: "calm s" and rx: "socket_rx s = (a, wire_bytes msg) # rest" and wf: "msg_wf msg"
    and k: "kind (header msg) = CBC_DATA" and p: "pid_of_addr a (peers s) = p" "p \<noteq> UINT16_MAX"
    and c: "classify p (clock (header msg)) s = CAUSALITY_DELIVER" "clock (header msg) \<noteq> UINT16_MAX"
  shows "\<exists>hb s'. cbc_recv_iteration False False hdr_buf s = Some (Inr (hb, s')) \<and> calm s' \<and> socket_rx s' = rest
     \<and> delivery_queue s' = delivery_queue s @ [rcvd_of msg p] \<and> delivered s' = delivered s
     \<and> send_queue s' = send_queue s @ answer CBC_ACK (clock (header msg)) p (peers s)
     \<and> peers s' = peers s \<and> sent_view s' = sent_view s \<and> socket_tx s' = socket_tx s"
proof -
  have pl: "plenty (mem s)" and inv: "proc_inv s" using calm by (simp_all add: calm_def)
  obtain hb t where t: "idle s t" "socket_rx t = rest"
      "cbc_recv_iteration False False hdr_buf s = Some (andthen (dispatch_msg msg p t) (\<lambda>s. Inr (hb, s)))"
    using recv_iteration_dispatch [OF pl rx wf, of hdr_buf] p by auto
  note v = idle_views [OF t(1)]
  have "known p s" using known_sender [of s a] inv p by (auto simp: proc_inv_def)
  then have i: "proc_inv t" "known p t" "plenty (mem t)" using v(1-3) inv pl by simp_all
  have ct: "classify p (clock (header msg)) t = CAUSALITY_DELIVER"
    using delivery_view_cong(4,5) [OF v(4), of p] c(1) by (simp add: classify_def split: if_splits)
  then have "\<not> gives_up msg p t" using c(2) k by (simp add: gives_up_def)
  then obtain u where u: "handle_data_msg msg p t = Inr u" using handle_data_msg_safe [OF i, of msg] k by auto
  have "fifo_ok t" "ucast p \<noteq> pid t" using i(1) knownD(2) [OF i(2)] by (simp_all add: proc_inv_def)
  from handle_data_msg_Inr [OF this u] ct k
  have d: "advanced p t [rcvd_of msg p] u" "alloc_ok (mem u) = alloc_ok (mem t)"
      "send_queue u = send_queue t @ answer CBC_ACK (clock (header msg)) p (peers t)"
    by (auto simp: delivered_by_def)
  have run: "cbc_recv_iteration False False hdr_buf s = Some (Inr (hb, u))"
    using t(3) u k by (simp add: dispatch_msg_def)
  have pu: "plenty (mem u)" using d(2) i(3) by (simp add: plenty_def)
  have iu: "proc_inv u" using handle_data_msg_inv [OF i(1,2) u] .
  have "rands u = rands s" using d(1) v(10) by (simp add: advanced_def)
  then have "calm u" using pu iu calm by (simp add: calm_def)
  moreover have "delivery_queue t = delivery_queue s" "delivered t = delivered s"
    using v(4) by (simp_all add: delivery_view_def)
  ultimately show ?thesis
    using run d v(5-8) t(2) by (intro exI [of _ hb] exI [of _ u]) (simp add: advanced_def)
qed

text \<open>A round of the send thread keeps the calm.\<close>

lemma send_calm:
  assumes calm: "calm s" and q: "send_queue s = out # rest"
  shows "\<exists>s'. cbc_send_iteration s = Some (Inr s') \<and> calm s' \<and> send_queue s' = rest \<and> delivery_view s' = delivery_view s
     \<and> peers s' = peers s \<and> socket_rx s' = socket_rx s
     \<and> (kind (header (out_message out)) = CBC_DATA \<longrightarrow>
        socket_tx s' = socket_tx s @ map (\<lambda>q. (peer_addr q, wire_bytes (out_message out))) (alive (peers s)))"
proof -
  have c: "proc_inv s" "plenty (mem s)" "\<forall>i. \<not> sim_drops (rands s i)" using calm by (simp_all add: calm_def)
  obtain r where "cbc_send_iteration s = Some r" using q by (simp add: cbc_send_iteration_def)
  then obtain s' where s': "cbc_send_iteration s = Some (Inr s')" using send_iteration_safe [OF c(1,2)] by blast
  note e = send_iteration_run [OF c(1) s' q]
  have "calm s'" using send_iteration_inv [OF c(1) s'] e(5,6) c by (simp add: calm_def plenty_def)
  with s' e c show ?thesis by (intro exI [of _ s']) simp
qed

section \<open>Properties\<close>

text \<open>
  C2: Delivery order: in every state that a process can reach, whatever datagrams the network
  delivers (forged, duplicated, reordered or lost ones included), whichever allocations fail
  (\<open>m\<close> is any state of the allocator) and whatever the network simulation drops (\<open>rs\<close> are
  any values of \<open>rand\<close>), the messages the application has received from any other process have exactly the
  clocks 1, 2, 3, and so on: none skipped, none repeated, none out of order.
\<close>

theorem reachable_fifo:
  assumes "cbc_reachable (new_node m rs p n ps) s"
    and "n < 65536" "unat p < n" "small_pids ps" "p \<notin> peer_pid ` set ps" "ucast q \<noteq> p"
  shows "map clk_of (filter (\<lambda>m. sender_pid m = q) (delivered s))
     = [1..<Suc (length (filter (\<lambda>m. sender_pid m = q) (delivered s)))]"
proof -
  note i = initial_proc_inv [OF assms(2-5)]
  have inv: "proc_inv s" by (rule reachable_inv [OF assms(1) i])
  have "pid s = p" using reachable_pid [OF assms(1) i] by simp
  then show ?thesis using delivered_clocks [OF inv] assms(6) by simp
qed

text \<open>
  A run in which the application of process 0 receives a message of process 1: a datagram
  arrives, the receive thread takes it, and \<open>cbc_receive\<close> returns it.
\<close>

lemma example_run:
  "\<exists>s. cbc_reachable (initial_node 0 5 [worker_peer 1, worker_peer 2]) s
     \<and> delivered s = [rcvd_of (one_byte CBC_DATA 1) 1]"
proof -
  let ?s = "waiting [(worker_addr 1, wire_bytes (one_byte CBC_DATA 1))]" and ?m = "one_byte CBC_DATA 1"
  have p: "pid_of_addr (worker_addr 1) (peers ?s) = 1" by (simp add: sender_of_worker_1)
  have "rands ?s = (\<lambda>_. 50)" by (simp add: waiting_def new_node_def)
  then have "calm ?s" by (simp add: calm_def sim_drops_def NETWORK_SIMULATION_DROP_def)
  moreover have "classify 1 1 ?s = CAUSALITY_DELIVER" by (simp add: classify_def)
  ultimately obtain hb u where u: "cbc_recv_iteration False False [] ?s = Some (Inr (hb, u))"
      "delivery_queue u = delivery_queue ?s @ [rcvd_of ?m 1]" "delivered u = delivered ?s"
    using recv_delivers [of ?s "worker_addr 1" ?m "[]" 1 "[]"] p by (auto simp: UINT16_MAX_def)
  have ru: "cbc_reachable (initial_node 0 5 [worker_peer 1, worker_peer 2]) u"
    by (rule reach_step [OF arrival_reachable step_recv_thread [OF u(1)]])
  obtain r v where v: "cbc_receive u = (r, v)" by fastforce
  have "cbc_reachable (initial_node 0 5 [worker_peer 1, worker_peer 2]) v"
    by (rule reach_step [OF ru step_receive [OF v]])
  moreover have "delivered v = [rcvd_of ?m 1]"
    using v u(2,3) by (auto simp: cbc_receive_eq waiting_def)
  ultimately show ?thesis by blast
qed

theorem reachable_fifo_witness:
  "\<exists>s :: node. delivered s = [rcvd_of (one_byte CBC_DATA 1) 1]
     \<and> map clk_of (filter (\<lambda>m. sender_pid m = 1) (delivered s))
       = [1..<Suc (length (filter (\<lambda>m. sender_pid m = 1) (delivered s)))]"
proof -
  obtain s where s: "cbc_reachable (initial_node 0 5 [worker_peer 1, worker_peer 2]) s"
      "delivered s = [rcvd_of (one_byte CBC_DATA 1) 1]" using example_run by blast
  have "map clk_of (filter (\<lambda>m. sender_pid m = 1) (delivered s))
       = [1..<Suc (length (filter (\<lambda>m. sender_pid m = 1) (delivered s)))]"
    by (rule reachable_fifo [OF s(1)]) (simp_all add: small_pids_def)
  show ?thesis by (intro exI [where x = s] conjI) fact+
qed

end
