(* ===== verification/Sending.thy ===== *)
theory Sending
  imports Effects
begin

text \<open>
  The properties of the sending side: what a call of \<open>cbc_send\<close> and a round of the send
  thread do, that the send thread works off its queue, and the limits of the 16-bit header
  clock, the 16-bit payload length and the 16-bit target.
\<close>

section \<open>Rounds of the send thread\<close>

text \<open>\<open>n\<close> rounds in a row; \<open>None\<close> when the thread waits for a message before the last one.\<close>

fun send_rounds :: "nat \<Rightarrow> node \<Rightarrow> node res option" where
  "send_rounds 0 s = Some (Inr s)"
| "send_rounds (Suc n) s =
     (case cbc_send_iteration s of
        Some (Inr s) \<Rightarrow> send_rounds n s
      | r \<Rightarrow> r)"

lemma send_rounds_drain:
  "proc_inv s \<Longrightarrow> plenty (mem s) \<Longrightarrow>
     \<exists>s'. send_rounds (length (send_queue s)) s = Some (Inr s') \<and> send_queue s' = [] \<and> proc_inv s'
       \<and> sent_list s' = sent_list s @ map (\<lambda>out. recorded (out_message out) (peers s))
           (filter (\<lambda>out. kind (header (out_message out)) = CBC_DATA) (send_queue s))
       \<and> set (socket_tx s') \<subseteq> set (socket_tx s) \<union> UNIV \<times> wire_bytes ` outbox s
       \<and> delivery_view s' = delivery_view s"
proof (induction "length (send_queue s)" arbitrary: s)
  case 0
  then show ?case by (intro exI [of _ s]) simp
next
  case (Suc n)
  then obtain out rest where q: "send_queue s = out # rest" by (cases "send_queue s") auto
  then obtain r where r: "cbc_send_iteration s = Some r" by (simp add: cbc_send_iteration_def)
  then obtain t where t: "cbc_send_iteration s = Some (Inr t)" using send_iteration_safe [OF Suc.prems] by blast
  note e = send_iteration_run [OF Suc.prems(1) t q] and i = send_iteration_inv [OF Suc.prems(1) t]
  have "plenty (mem t)" using e(5) Suc.prems(2) plenty_cong by blast
  moreover have "n = length (send_queue t)" using Suc.hyps(2) q e(2) by simp
  ultimately obtain s' where s': "send_rounds n t = Some (Inr s')" "send_queue s' = []" "proc_inv s'"
      "sent_list s' = sent_list t @ map (\<lambda>out. recorded (out_message out) (peers t))
           (filter (\<lambda>out. kind (header (out_message out)) = CBC_DATA) (send_queue t))"
      "set (socket_tx s') \<subseteq> set (socket_tx t) \<union> UNIV \<times> wire_bytes ` outbox t" "delivery_view s' = delivery_view t"
    using Suc.hyps(1) [of t] i by blast
  have "send_rounds (length (send_queue s)) s = Some (Inr s')"
    using t s'(1) Suc.hyps(2) by (simp flip: Suc.hyps(2))
  moreover have "set (socket_tx s') \<subseteq> set (socket_tx s) \<union> UNIV \<times> wire_bytes ` outbox s"
    using s'(5) e(2) e(9) [OF Suc.prems(2)] q by (auto simp: outbox_def)
  ultimately show ?case
    using s'(2-4,6) e(1,2,4,7) q by (intro exI [of _ s']) auto
qed

section \<open>Properties\<close>

text \<open>
  C11: cbc_send of n bytes, in every state of a process with peers and enough memory: when the
  low 16 bits of n are 0 it returns an error and changes nothing; otherwise it succeeds, queues
  one data message that carries the first n mod 65536 bytes and the next own clock cut to 16
  bits, sweeps the old messages, and keeps the invariant.
\<close>

theorem cbc_send_spec:
  assumes "proc_inv s" "plenty (mem s)" "peers s \<noteq> []" "unat n \<le> length bytes"
  shows "if (ucast n :: u16) = 0
    then \<exists>e m. cbc_send (Some bytes) n s = Inr (result_new_err e, s\<lparr>mem := m\<rparr>)
    else \<exists>u s'. cbc_send (Some bytes) n s = Inr (result_new_ok (), s')
      \<and> queued_data bytes n s u \<and> swept u s' \<and> proc_inv s'"
proof -
  have le: "unat (ucast n :: u16) \<le> length bytes"
  proof -
    have "unat (ucast n :: u16) \<le> unat n"
      by (simp add: unsigned_ucast_eq take_bit_nat_less_eq_self)
    then show ?thesis using assms(4) by simp
  qed
  then have rd: "payload_readable (Some bytes) (ucast n)" by (simp add: payload_readable_def)
  obtain r s' where run: "cbc_send (Some bytes) n s = Inr (r, s')" using cbc_send_safe [OF assms(1,2) rd] by blast
  show ?thesis
  proof (cases rule: cbc_send_cases [OF run])
    case (1 e m)
    with assms(2,3) have "(ucast n :: u16) = 0" by simp
    with 1(1) run show ?thesis by auto
  next
    case (3 bs u)
    note u = queued_data_inv(1,2) [OF 3(6,3,4) assms(1)]
    have h: "handle_old_messages u = Inr s'" "r = result_new_ok ()" using 3(8) [symmetric] by auto
    have "swept u s'" using proc_inv_sweep(1) [OF u(1) _ h(1)] u(2) assms(3) by simp
    with 3(1,3,6) h run cbc_send_inv [OF assms(1) run] show ?thesis by auto
  qed simp
qed

theorem cbc_send_spec_witness:
  "(\<exists>e m. cbc_send (Some (replicate 65536 65)) 65536 (initial_node 0 5 [worker_peer 1, worker_peer 2])
      = Inr (result_new_err e, (initial_node 0 5 [worker_peer 1, worker_peer 2])\<lparr>mem := m\<rparr>))
   \<and> (\<exists>(u :: node) s'. cbc_send (Some (replicate 65537 65)) 65537 (initial_node 0 5 [worker_peer 1, worker_peer 2])
      = Inr (result_new_ok (), s') \<and> map out_message (send_queue u) = [one_byte CBC_DATA 1])"
proof
  let ?s = "initial_node 0 5 [worker_peer 1, worker_peer 2]"
  show "\<exists>e m. cbc_send (Some (replicate 65536 65)) 65536 ?s = Inr (result_new_err e, ?s\<lparr>mem := m\<rparr>)"
    using cbc_send_spec [of ?s 65536 "replicate 65536 65"] by simp
  have "take 1 (replicate 65537 65) = [65 :: u8]" by (simp only: take_replicate min_def) simp
  then have "data_msg (replicate 65537 65) 65537 (next_own ?s) = one_byte CBC_DATA 1"
    by (simp add: data_msg_def created_msg_def next_own_def one_byte_def set_clock_def)
  then have q: "map out_message (send_queue u) = [one_byte CBC_DATA 1]"
    if "queued_data (replicate 65537 65) 65537 ?s u" for u
    using that by (simp add: queued_data_def)
  show "\<exists>(u :: node) s'. cbc_send (Some (replicate 65537 65)) 65537 ?s = Inr (result_new_ok (), s')
      \<and> map out_message (send_queue u) = [one_byte CBC_DATA 1]"
    using cbc_send_spec [of ?s 65537 "replicate 65537 65"] by (simp, elim exE conjE) (intro exI conjI, assumption, rule q)
qed

text \<open>
  C16: The 16-bit header clock limits a process to 65534 messages: the data message made when
  the own clock reaches 65535 (or 65535 more than a multiple of 65536) ends every process that
  handles it, in whatever state, and so does the one made at a multiple of 65536, whose header
  clock is 0.
\<close>

theorem message_limit:
  assumes "unat (next_own s) mod 65536 \<in> {0, 65535}" "proc_inv r" "known p r"
  shows "\<exists>why. handle_data_msg (data_msg bytes n (next_own s)) p r = Inl (Exit_failure why)"
proof (rule handle_data_msg_gives_up [OF assms(2,3)])
  let ?c = "ucast (next_own s) :: u16"
  have c: "unat ?c = unat (next_own s) mod 65536"
    by (simp add: unsigned_ucast_eq unsigned_take_bit_eq take_bit_eq_mod)
  have "?c = UINT16_MAX \<or> ?c = 0"
    using assms(1) c by (auto simp: UINT16_MAX_def word_unat_eq_iff)
  then show "gives_up (data_msg bytes n (next_own s)) p r"
    by (auto simp: gives_up_def data_msg_def created_msg_def header_only_def classify_def)
qed

text \<open>Process 0 when it has broadcast \<open>n\<close> messages, all of them acknowledged.\<close>

definition after_broadcasts :: "nat \<Rightarrow> node" where
  "after_broadcasts n = (initial_node 0 5 [worker_peer 1, worker_peer 2])\<lparr>vclock :=
     \<lparr>vc_clock = [of_nat n, 0, 0, 0, 0], vc_len = 5\<rparr>\<rparr>"

theorem message_limit_witness:
  "\<exists>why. handle_data_msg (data_msg [65] 1 (next_own (after_broadcasts 65534))) 1
     (initial_node 0 5 [worker_peer 1, worker_peer 2]) = Inl (Exit_failure why)"
  by (rule message_limit) (simp_all add: next_own_def after_broadcasts_def)

text \<open>
  C14: The send thread works off its queue: with enough memory, as many rounds as there are
  queued messages return, leave the queue empty, record every data message among them as sent,
  in order, put only the bytes of queued messages on the wire, and leave the receiving side
  alone.
\<close>

theorem send_thread_drains:
  assumes "proc_inv s" "plenty (mem s)"
  shows "\<exists>s'. send_rounds (length (send_queue s)) s = Some (Inr s') \<and> send_queue s' = [] \<and> proc_inv s'
     \<and> sent_list s' = sent_list s @ map (\<lambda>out. recorded (out_message out) (peers s))
         (filter (\<lambda>out. kind (header (out_message out)) = CBC_DATA) (send_queue s))
     \<and> set (socket_tx s') \<subseteq> set (socket_tx s) \<union> UNIV \<times> wire_bytes ` outbox s
     \<and> delivery_view s' = delivery_view s"
  using send_rounds_drain [OF assms] .

text \<open>One data message and one acknowledgement in the send queue.\<close>

definition queue_example :: node where
  "queue_example = (initial_node 0 5 [worker_peer 1, worker_peer 2])\<lparr>send_queue :=
     [\<lparr>out_message = one_byte CBC_DATA 1, out_addr = None, socket_flags = 0\<rparr>,
      \<lparr>out_message = \<lparr>header = \<lparr>kind = CBC_ACK, clock = 3, len = 0\<rparr>, payload = None\<rparr>,
        out_addr = Some (worker_addr 2), socket_flags = 0\<rparr>]\<rparr>"

lemma queue_example_inv: "proc_inv queue_example"
proof -
  let ?s = "initial_node 0 5 [worker_peer 1, worker_peer 2]"
  have i: "proc_inv ?s" by simp
  show ?thesis
    by (rule proc_inv_cong [OF _ _ _ _ i])
      (simp_all add: queue_example_def queue_ok_def msg_wf_def [of "\<lparr>header = h, payload = None\<rparr>" for h])
qed

theorem send_thread_drains_witness:
  "\<exists>s'. send_rounds 2 queue_example = Some (Inr s') \<and> send_queue s' = []
     \<and> sent_list s' = [\<lparr>sent_message = one_byte CBC_DATA 1, ack_target = 6, ack_bitmap = 0\<rparr>]"
proof -
  have q: "mem queue_example = fresh_memory" "sent_list queue_example = []"
      "peers queue_example = [worker_peer 1, worker_peer 2]" "length (send_queue queue_example) = 2"
      "filter (\<lambda>out. kind (header (out_message out)) = CBC_DATA) (send_queue queue_example)
        = [\<lparr>out_message = one_byte CBC_DATA 1, out_addr = None, socket_flags = 0\<rparr>]"
    by (simp_all add: queue_example_def sent_list_def)
  have "recorded (one_byte CBC_DATA 1) [worker_peer 1, worker_peer 2]
      = \<lparr>sent_message = one_byte CBC_DATA 1, ack_target = 6, ack_bitmap = 0\<rparr>"
    by (simp add: recorded_def alive_def pid_bit_def)
  then show ?thesis using send_thread_drains [OF queue_example_inv] by (auto simp: q)
qed

text \<open>
  C20: A round of the send thread on a data message records it with a target of at most the
  processes below 16 (the target is cut to 16 bits when the record is made), so a message with
  an alive peer of id 16 to 30 is recorded without that peer, and any acknowledgement by it
  keeps the message in the sent buffer for good.
\<close>

theorem target_loses_peers:
  assumes "proc_inv s" "cbc_send_iteration s = Some (Inr s')" "send_queue s = out # rest"
    and "kind (header (out_message out)) = CBC_DATA"
    and "q \<in> set (peers s)" "peer_status q = CBC_PEER_ALIVE" "16 \<le> unat (peer_pid q)"
  shows "\<exists>m. sent_list s' = sent_list s @ [m] \<and> \<not> bit (ack_target m) (unat (peer_pid q))
     \<and> (\<forall>b. \<not> acked (set_ack (pid_bit (peer_pid q)) (m\<lparr>ack_bitmap := b\<rparr>)))"
proof -
  have small: "unat (peer_pid q) < 31" using assms(1,5) by (auto simp: proc_inv_def pids_ok_def small_pids_def)
  let ?m = "recorded (out_message out) (peers s)"
  have nb: "\<not> bit (ack_target ?m) (unat (peer_pid q))"
    using assms(7) by (auto simp: recorded_def bit_pid_bits)
  moreover have "\<not> acked (set_ack (pid_bit (peer_pid q)) (?m\<lparr>ack_bitmap := b\<rparr>))" for b
  proof
    assume "acked (set_ack (pid_bit (peer_pid q)) (?m\<lparr>ack_bitmap := b\<rparr>))"
    then have "ack_target ?m = b OR pid_bit (peer_pid q)" by (simp add: acked_def)
    then have "bit (ack_target ?m) (unat (peer_pid q))" using small by (simp add: bit_or_iff bit_pid_bit)
    with nb show False by simp
  qed
  ultimately show ?thesis using send_iteration_run(7) [OF assms(1-3)] assms(4) by (intro exI [of _ ?m]) simp
qed

text \<open>Process 0 of 21 with the peers 1 and 20 and a message to send.\<close>

definition far_example :: node where
  "far_example = (initial_node 0 21 [worker_peer 1, worker_peer 20])\<lparr>send_queue :=
     [\<lparr>out_message = one_byte CBC_DATA 1, out_addr = None, socket_flags = 0\<rparr>]\<rparr>"

theorem target_loses_peers_witness:
  "\<exists>s' m. cbc_send_iteration far_example = Some (Inr s') \<and> sent_list s' = [m] \<and> \<not> bit (ack_target m) 20"
proof -
  have "proc_inv (initial_node 0 21 [worker_peer 1, worker_peer 20])"
    by (rule initial_proc_inv) (simp_all add: small_pids_def)
  then have inv: "proc_inv far_example"
    by (rule proc_inv_cong [rotated 4]) (simp_all add: far_example_def queue_ok_def)
  have f: "plenty (mem far_example)" "send_queue far_example = [\<lparr>out_message = one_byte CBC_DATA 1, out_addr = None, socket_flags = 0\<rparr>]"
      "peers far_example = [worker_peer 1, worker_peer 20]" "sent_list far_example = []"
    by (simp_all add: far_example_def sent_list_def)
  obtain r where "cbc_send_iteration far_example = Some r" using f(2) by (simp add: cbc_send_iteration_def)
  then obtain s' where s': "cbc_send_iteration far_example = Some (Inr s')" using send_iteration_safe [OF inv f(1)] by blast
  from target_loses_peers [OF inv s' f(2), of "worker_peer 20"] s' f(3,4) show ?thesis by auto
qed

text \<open>
  C17: handle_old_messages keeps pointers to sent messages without holding the send lock: when
  the last missing acknowledgement of the last old message arrives between the search for old
  messages and their retransmission, the message is freed and the retransmission reads freed
  memory.
\<close>

theorem retransmit_use_after_free:
  assumes "proc_inv s" "peers s \<noteq> []" "find_old_messages c s = Inr (old, s1)" "old \<noteq> []"
    and "distinct (map sent_clock (sent_list s))" "unat p < 31"
    and "acked (set_ack (push_bit (unat p) 1) (sent_at s (last old)))"
  defines "ack \<equiv> \<lparr>header = \<lparr>kind = CBC_ACK, clock = sent_clock (sent_at s (last old)), len = 0\<rparr>, payload = None\<rparr>"
  shows "\<exists>s2. register_ack ack p s1 = Inr s2
     \<and> retransmit_messages old s2 = Inl (Undefined_behaviour ''use after free'')"
proof -
  let ?q = "last old"
  have ok: "sent_ok s" using assms(1) by (simp add: proc_inv_def)
  have fo: "old = filter (is_old_msg c \<circ> sent_at s) (sent_msg_buffer s)"
      "s1 = mutex_unlock SEND_LOCK (mutex_lock SEND_LOCK s)"
    using find_old_messages_eq [OF ok, of c] assms(3) by auto
  have q: "?q \<in> set (sent_msg_buffer s)" using last_in_set [OF assms(4)] fo(1) by auto
  have ok1: "sent_ok s1" and at1: "sent_at s1 = sent_at s" and b1: "sent_msg_buffer s1 = sent_msg_buffer s"
    and l1: "sent_list s1 = sent_list s" and p1: "peers s1 = peers s"
    using ok fo(2) by (simp_all add: sent_ok_def sent_at_def fun_eq_iff sent_list_def)
  have k: "kind (header ack) = CBC_ACK" "clock (header ack) = sent_clock (sent_at s ?q)" by (simp_all add: ack_def)
  show ?thesis
  proof (cases rule: register_ack_run [OF ok1 k(1) assms(6)])
    case 1
    then have "\<forall>m \<in> set (sent_list s). sent_clock m \<noteq> sent_clock (sent_at s ?q)"
      using k(2) l1 by (simp add: first_index_None)
    with q show ?thesis by (auto simp: sent_list_def)
  next
    case (2 i r m)
    have i: "i < length (sent_msg_buffer s)" "sent_clock (sent_at s (sent_msg_buffer s ! i)) = sent_clock (sent_at s ?q)"
      using 2(1,2) k(2) l1 b1 first_index_sat [OF 2(1)] by (simp_all add: sent_list_def)
    obtain j where j: "j < length (sent_msg_buffer s)" "sent_msg_buffer s ! j = ?q"
      using q by (auto simp: in_set_conv_nth)
    have "i = j"
      using assms(5) i j by (simp add: sent_list_def distinct_conv_nth) metis
    then have r: "r = ?q" using 2(3) b1 j(2) by simp
    then have "acked m" using 2(4) at1 assms(7) by simp
    let ?t = "s1\<lparr>mem := cbc_sent_msg_free m (mem s1), sent_heap := (sent_heap s1)(?q := None),
                sent_msg_buffer := arrdel (sent_msg_buffer s1) i\<rparr>"
    have "register_ack ack p s1 = Inr ?t" using 2(5) \<open>acked m\<close> r by simp
    moreover have "retransmit_messages old ?t = Inl (Undefined_behaviour ''use after free'')"
    proof -
      obtain x xs where "peers s = x # xs" using assms(2) by (cases "peers s") auto
      then show ?thesis
        using assms(4) p1
        by (subst retransmit_messages.simps) (simp add: arrpop_def find_unacked_peers_def read_sent_def Let_def)
    qed
    ultimately show ?thesis by blast
  qed
qed

text \<open>A message that only lacks the acknowledgement of process 1, sent 3 messages ago.\<close>

definition race_example :: node where
  "race_example = (sent_example 7 [1, 2])\<lparr>sent_heap :=
     [0 \<mapsto> \<lparr>sent_message = one_byte CBC_DATA 7, ack_target = 6, ack_bitmap = 4\<rparr>]\<rparr>"

theorem retransmit_use_after_free_witness:
  "\<exists>old s1 s2. find_old_messages 10 race_example = Inr (old, s1)
     \<and> register_ack \<lparr>header = \<lparr>kind = CBC_ACK, clock = 7, len = 0\<rparr>, payload = None\<rparr> 1 s1 = Inr s2
     \<and> retransmit_messages old s2 = Inl (Undefined_behaviour ''use after free'')"
proof -
  have v: "delivery_view race_example = delivery_view (sent_example 7 [1, 2])"
    by (simp add: race_example_def delivery_view_def)
  have ok: "sent_ok race_example"
    by (auto simp: sent_ok_def race_example_def sent_example_def sent_msg_ok_def)
  have inv: "proc_inv race_example"
    using sent_example_inv [of 7 "[1, 2]"] delivery_view_cong(1,2) [OF v] ok
    by (simp add: proc_inv_def queue_ok_def pids_ok_def race_example_def)
  have f: "sent_msg_buffer race_example = [0]" "peers race_example = [worker_peer 1, worker_peer 2]"
      "sent_at race_example 0 = \<lparr>sent_message = one_byte CBC_DATA 7, ack_target = 6, ack_bitmap = 4\<rparr>"
    by (simp_all add: race_example_def sent_example_def sent_at_def)
  have "find_old_messages 10 race_example = Inr ([0], mutex_unlock SEND_LOCK (mutex_lock SEND_LOCK race_example))"
    using find_old_messages_eq [OF ok, of 10] f
    by (simp add: is_old_msg_def sent_clock_def acked_def CBC_OLD_MSG_THRESHOLD_def word_le_nat_alt)
  note old = this
  show ?thesis
    using retransmit_use_after_free [OF inv _ old, of 1] old f
    by (simp add: sent_list_def acked_def sent_clock_def)
qed

text \<open>
  C22: When the serialization of a retransmission runs out of memory, the send thread does not
  notice: unless the simulated network drops the message, it sends an empty datagram in its
  place, the kind of datagram that blocks the receive thread of the process it reaches.
\<close>

theorem out_of_memory_sends_empty:
  assumes "proc_inv s" "send_queue s = out # rest" "kind (header (out_message out)) = CBC_RETRANSMIT"
    and "out_addr out = Some a" "\<not> alloc_ok (mem s) (allocs (mem s))" "\<not> sim_drops (rands s (rand_pos s))"
  shows "\<exists>s'. cbc_send_iteration s = Some (Inr s') \<and> socket_tx s' = socket_tx s @ [(a, [])]"
proof -
  let ?t = "with_lock SEND_LOCK (\<lambda>s. s\<lparr>send_queue := arrdel (send_queue s) 0\<rparr>) s"
  have wf: "msg_wf (out_message out)" using assms(1,2) by (simp add: proc_inv_def queue_ok_def)
  then obtain buf where "payload (out_message out) = Some buf" "len (header (out_message out)) \<noteq> 0"
    using assms(3) by (auto simp: msg_wf_def payload_wf_def)
  then have ser: "cbc_msg_serialize (out_message out) (mem s) = Inr (None, 0, snd (calloc (mem s)))"
    using assms(3,5) by (simp add: cbc_msg_serialize_def serialize_full_def calloc_def)
  have t: "mem ?t = mem s" "rands ?t = rands s" "rand_pos ?t = rand_pos s" "socket_tx ?t = socket_tx s"
    by (simp_all add: with_lock_def)
  show ?thesis
    using assms(2-4,6) ser t
    by (simp add: cbc_send_iteration_def c_rand_def send_by_kind_def send_single_def c_sendto_def count_stat_def
        with_lock_def Let_def)
qed

text \<open>A retransmission in the send queue and an allocator that fails at once.\<close>

definition oom_example :: node where
  "oom_example = (initial_node 0 5 [worker_peer 1, worker_peer 2])\<lparr>mem := \<lparr>alloc_ok = (\<lambda>_. False), allocs = 0, live = 0\<rparr>,
     send_queue := [\<lparr>out_message = one_byte CBC_RETRANSMIT 1, out_addr = Some (worker_addr 2), socket_flags = 0\<rparr>]\<rparr>"

lemma oom_example_inv: "proc_inv oom_example"
proof -
  let ?s = "initial_node 0 5 [worker_peer 1, worker_peer 2]"
  have i: "proc_inv ?s" by simp
  show ?thesis
    by (rule proc_inv_cong [OF _ _ _ _ i]) (simp_all add: oom_example_def queue_ok_def)
qed

theorem out_of_memory_sends_empty_witness:
  "\<exists>s'. cbc_send_iteration oom_example = Some (Inr s') \<and> socket_tx s' = [(worker_addr 2, [])]"
  using out_of_memory_sends_empty [OF oom_example_inv, of _ "[]" "worker_addr 2"]
  by (simp add: oom_example_def new_node_def sim_drops_def NETWORK_SIMULATION_DROP_def)

end
