(* ===== verification/Network.thy ===== *)
theory Network
  imports Sending
begin

text \<open>
  Several processes over an unreliable network. A network state has the state of every process
  and, as history, the data messages each has broadcast. A step is a call of \<open>cbc_send\<close> or
  \<open>cbc_receive\<close> by a process, a round of one of its threads, or the delivery of a datagram
  that some process has sent to the process it is addressed to; a datagram can be delivered at
  any later time, any number of times or never, so the network may lose, duplicate, delay and
  reorder. The processes have the addresses and peers that \<open>main.c\<close> gives them.

  The invariant \<open>net_inv\<close> says that whatever is queued, kept, on the wire or received is a
  message that its sender broadcast (or a retransmission of one); with the order of each
  process' histories this gives reliable FIFO order end to end.
\<close>

section \<open>The peers of a worker\<close>

definition worker_peers :: "nat \<Rightarrow> u64 \<Rightarrow> cbcast_peer list" where
  "worker_peers n p = map worker_peer (filter (\<lambda>q. q \<noteq> p) (map of_nat [0..<n]))"

definition same_peers :: "node \<Rightarrow> node \<Rightarrow> bool" where
  "same_peers s s' \<longleftrightarrow> map peer_pid (peers s') = map peer_pid (peers s)
     \<and> map peer_addr (peers s') = map peer_addr (peers s)"

lemma same_peers_refl [simp]: "peers s' = peers s \<Longrightarrow> same_peers s s'"
  by (simp add: same_peers_def)

lemma same_peers_trans: "same_peers s t \<Longrightarrow> same_peers t u \<Longrightarrow> same_peers s u"
  by (simp add: same_peers_def)

lemma swept_same_peers:
  assumes "swept s s'" shows "same_peers s s'"
proof -
  obtain t ds where b: "buried ds s t" and q: "quiet t s'" using assms by (auto simp: swept_def)
  show ?thesis using buried_frames(4,5) [OF b] quiet_views(3) [OF q] by (simp add: same_peers_def)
qed

lemma cbc_send_same_peers:
  assumes inv: "proc_inv s" and run: "cbc_send pl n s = Inr (r, s')"
  shows "same_peers s s'"
proof (cases rule: cbc_send_cases [OF run])
  case (3 bytes u)
  note u = queued_data_inv(1,2) [OF 3(6,3,4) inv]
  have "handle_old_messages u = Inr s'" using 3(8) [symmetric] by auto
  then have "swept u s'" using proc_inv_sweep(1) [OF u(1)] u(2) 3(5) by simp
  then have "same_peers u s'" by (rule swept_same_peers)
  with u(2) show ?thesis by (simp add: same_peers_def)
qed auto

lemma dispatch_same_peers:
  assumes inv: "proc_inv s" and p: "known p s" and run: "dispatch_msg msg p s = Inr s'"
  shows "peers s' = peers s"
proof -
  have ok: "fifo_ok s" "ucast p \<noteq> pid s" using inv knownD [OF p] by (simp_all add: proc_inv_def)
  have p31: "unat p < 31" using p by (simp add: known_def)
  show ?thesis
  proof (cases "kind (header msg)")
    case CBC_ACK
    with run obtain t where "register_ack msg p (mutex_lock SEND_LOCK s) = Inr t" "peers s' = peers t"
      by (auto simp: dispatch_msg_def Let_def)
    with register_ack_inv(3) [of "mutex_lock SEND_LOCK s", OF _ p31] inv show ?thesis by simp
  next
    case CBC_RETRANSMIT_REQ
    with run obtain t where t: "queue_retransmission msg p s = Inr t" "peers s' = peers t"
      by (auto simp: dispatch_msg_def)
    have "sent_ok s" using inv by (simp add: proc_inv_def)
    with queue_retransmission_Inr [OF this t(1)] t(2) quiet_views(3) show ?thesis by auto
  qed (use run handle_data_msg_keeps(4) [OF ok] in \<open>auto simp: dispatch_msg_def\<close>)
qed

lemma recv_iteration_same_peers:
  assumes inv: "proc_inv s" and run: "cbc_recv_iteration peek_fails recv_fails hdr_buf s = Some (Inr (hb, s'))"
  shows "same_peers s s'"
proof (cases rule: recv_iteration_cases [OF run])
  case (1 hb' t)
  then show ?thesis using idle_views(6) by simp
next
  case (3 hb' t bs msg p m m')
  have "known p s" using known_sender [of s] inv 3(3,4) by (simp add: proc_inv_def)
  then have t: "proc_inv t" "known p t" using idle_views(1,2) [OF 3(1)] inv by simp_all
  have "dispatch_msg msg p t = Inr s'" using 3(9) [symmetric] by auto
  from dispatch_same_peers [OF t this] idle_views(6) [OF 3(1)] show ?thesis by simp
qed simp

section \<open>The network\<close>

record network =
  node_of :: "u64 \<Rightarrow> node"
  log_of :: "u64 \<Rightarrow> cbcast_msg list"

definition with_node :: "u64 \<Rightarrow> node \<Rightarrow> network \<Rightarrow> network" where
  "with_node p s N = N\<lparr>node_of := (node_of N)(p := s)\<rparr>"

definition with_log :: "u64 \<Rightarrow> cbcast_msg list \<Rightarrow> network \<Rightarrow> network" where
  "with_log p ms N = N\<lparr>log_of := (log_of N)(p := log_of N p @ ms)\<rparr>"

definition arrive :: "datagram \<Rightarrow> node \<Rightarrow> node" where
  "arrive d s = s\<lparr>socket_rx := socket_rx s @ [d]\<rparr>"

inductive net_step :: "nat \<Rightarrow> network \<Rightarrow> network \<Rightarrow> bool" for n where
  net_send: "unat p < n \<Longrightarrow> cbc_send pl k (node_of N p) = Inr (r, s') \<Longrightarrow>
     net_step n N (with_log p (broadcasts pl k (node_of N p) r) (with_node p s' N))"
| net_receive: "unat p < n \<Longrightarrow> cbc_receive (node_of N p) = (r, s') \<Longrightarrow> net_step n N (with_node p s' N)"
| net_send_thread: "unat p < n \<Longrightarrow> cbc_send_iteration (node_of N p) = Some (Inr s') \<Longrightarrow>
     net_step n N (with_node p s' N)"
| net_recv_thread: "unat p < n \<Longrightarrow>
     cbc_recv_iteration peek_fails recv_fails hdr_buf (node_of N p) = Some (Inr (hb, s')) \<Longrightarrow>
     net_step n N (with_node p s' N)"
| net_transmit: "unat p < n \<Longrightarrow> unat q < n \<Longrightarrow> (worker_addr q, d) \<in> set (socket_tx (node_of N p)) \<Longrightarrow>
     net_step n N (with_node q (arrive (worker_addr p, d) (node_of N q)) N)"

inductive net_reachable :: "nat \<Rightarrow> network \<Rightarrow> bool" for n where
  net_init: "(\<And>p. unat p < n \<Longrightarrow> node_of N p = new_node (mems p) (rand_values p) p n (worker_peers n p) \<and> log_of N p = []) \<Longrightarrow>
     net_reachable n N"
| net_more: "net_reachable n N \<Longrightarrow> net_step n N M \<Longrightarrow> net_reachable n M"

section \<open>Messages and their broadcasts\<close>

text \<open>A log: the data messages of a process, with the clocks 1, 2, 3, \<dots> cut to 16 bits.\<close>

definition log_ok :: "cbcast_msg list \<Rightarrow> bool" where
  "log_ok L \<longleftrightarrow> (\<forall>i < length L. kind (header (L ! i)) = CBC_DATA \<and> clock (header (L ! i)) = of_nat (Suc i)
     \<and> msg_wf (L ! i))"

definition copies :: "cbcast_msg list \<Rightarrow> cbcast_msg set" where
  "copies L = set L \<union> as_retransmission ` set L"

definition genuine :: "cbcast_msg list \<Rightarrow> cbcast_msg set" where
  "genuine L = answers \<union> copies L"

definition wires :: "cbcast_msg list \<Rightarrow> u8 list set" where
  "wires L = insert [] (wire_bytes ` {m \<in> genuine L. msg_wf m})"

lemma genuine_mono: "copies L \<subseteq> copies (L @ M)" "genuine L \<subseteq> genuine (L @ M)" "wires L \<subseteq> wires (L @ M)"
  by (auto simp: genuine_def copies_def wires_def)

lemma log_ok_data: "log_ok L \<Longrightarrow> m \<in> set L \<Longrightarrow> kind (header m) = CBC_DATA"
  by (auto simp: log_ok_def in_set_conv_nth)

lemma as_retransmission_simps [simp]:
  "kind (header (as_retransmission m)) = CBC_RETRANSMIT" "clock (header (as_retransmission m)) = clock (header m)"
  "payload (as_retransmission m) = payload m"
  by (simp_all add: as_retransmission_def)

lemma genuine_data: "log_ok L \<Longrightarrow> m \<in> genuine L \<Longrightarrow> kind (header m) = CBC_DATA \<Longrightarrow> m \<in> set L"
  by (auto simp: genuine_def copies_def answers_def)

lemma genuine_copies: "m \<in> genuine L \<Longrightarrow> \<not> header_only (kind (header m)) \<Longrightarrow> m \<in> copies L"
  by (auto simp: genuine_def answers_def)

text \<open>What holds of one process, given its own log and everybody's.\<close>

definition node_ok :: "nat \<Rightarrow> (u64 \<Rightarrow> cbcast_msg list) \<Rightarrow> u64 \<Rightarrow> node \<Rightarrow> bool" where
  "node_ok n L p s \<longleftrightarrow>
     proc_inv s \<and> pid s = p \<and> same_peers (initial_node p n (worker_peers n p)) s
     \<and> log_ok (L p) \<and> own_count s = of_nat (length (L p))
     \<and> outbox s \<subseteq> genuine (L p) \<and> sent_msgs s \<subseteq> set (L p)
     \<and> snd ` set (socket_tx s) \<subseteq> wires (L p)
     \<and> (\<forall>(a, d) \<in> set (socket_rx s). \<exists>q. unat q < n \<and> a = worker_addr q \<and> d \<in> wires (L q))
     \<and> (\<forall>m \<in> inbox s. \<exists>q. unat q < n \<and> sender_pid m = ucast q \<and> rcvd_message m \<in> copies (L q))"

lemma node_okD:
  assumes "node_ok n L p s"
  shows "proc_inv s" "pid s = p" "same_peers (initial_node p n (worker_peers n p)) s" "log_ok (L p)"
    "own_count s = of_nat (length (L p))" "outbox s \<subseteq> genuine (L p)" "sent_msgs s \<subseteq> set (L p)"
    "snd ` set (socket_tx s) \<subseteq> wires (L p)"
    "(a, d) \<in> set (socket_rx s) \<Longrightarrow> \<exists>q. unat q < n \<and> a = worker_addr q \<and> d \<in> wires (L q)"
    "m \<in> inbox s \<Longrightarrow> \<exists>q. unat q < n \<and> sender_pid m = ucast q \<and> rcvd_message m \<in> copies (L q)"
  using assms unfolding node_ok_def by auto

lemma node_okI:
  assumes "proc_inv s" "pid s = p" "same_peers (initial_node p n (worker_peers n p)) s" "log_ok (L p)"
    "own_count s = of_nat (length (L p))" "outbox s \<subseteq> genuine (L p)" "sent_msgs s \<subseteq> set (L p)"
    "snd ` set (socket_tx s) \<subseteq> wires (L p)"
    "\<And>a d. (a, d) \<in> set (socket_rx s) \<Longrightarrow> \<exists>q. unat q < n \<and> a = worker_addr q \<and> d \<in> wires (L q)"
    "\<And>m. m \<in> inbox s \<Longrightarrow> \<exists>q. unat q < n \<and> sender_pid m = ucast q \<and> rcvd_message m \<in> copies (L q)"
  shows "node_ok n L p s"
  using assms unfolding node_ok_def by auto

lemma worker_addr_inj:
  assumes "unat x < 65536" "unat y < 65536" "worker_addr x = worker_addr y" shows "x = y"
proof -
  have "htons (BASE_PORT + ucast x) = htons (BASE_PORT + ucast y)"
    using assms(3) by (simp add: worker_addr_def)
  then have "BASE_PORT + ucast x = BASE_PORT + (ucast y :: u16)"
    by (metis htons_htons)
  then have "(ucast x :: u16) = ucast y" by simp
  then show ?thesis using unat_ucast_small(2) [OF assms(1)] unat_ucast_small(2) [OF assms(2)] by metis
qed

lemma unat_of_nat_u64: "i < n \<Longrightarrow> n \<le> 65536 \<Longrightarrow> unat (of_nat i :: u64) = i"
  by (rule unat_of_nat_small) simp

lemma worker_peers_set:
  assumes "n \<le> 65536" shows "set (worker_peers n p) = worker_peer ` {q. unat q < n \<and> q \<noteq> p}"
proof -
  have "(of_nat ` {0..<n} :: u64 set) = {q. unat q < n}"
  proof
    show "(of_nat ` {0..<n} :: u64 set) \<subseteq> {q. unat q < n}" using unat_of_nat_u64 assms by auto
    show "{q. unat q < n} \<subseteq> (of_nat ` {0..<n} :: u64 set)"
    proof
      fix q :: u64 assume "q \<in> {q. unat q < n}"
      then show "q \<in> of_nat ` {0..<n}" by (intro image_eqI [where x = "unat q"]) simp_all
    qed
  qed
  then show ?thesis by (auto simp: worker_peers_def)
qed

lemma worker_peers_ok:
  assumes "n \<le> 31" "unat p < n"
  shows "proc_inv (new_node m rs p n (worker_peers n p))"
  using assms worker_peers_set [of n p]
  by (intro initial_proc_inv) (auto simp: small_pids_def)

lemma peers_are_workers:
  assumes sp: "same_peers (initial_node p n (worker_peers n p)) s" and r: "r \<in> set (peers s)" and n: "n \<le> 65536"
  shows "\<exists>x. unat x < n \<and> x \<noteq> p \<and> peer_pid r = x \<and> peer_addr r = worker_addr x"
proof -
  obtain i where i: "i < length (peers s)" "peers s ! i = r" using r by (auto simp: in_set_conv_nth)
  have m: "map peer_pid (peers s) = map peer_pid (worker_peers n p)"
      "map peer_addr (peers s) = map peer_addr (worker_peers n p)"
    using sp by (simp_all add: same_peers_def)
  have l: "length (peers s) = length (worker_peers n p)" using arg_cong [OF m(1), of length] by simp
  then have "worker_peers n p ! i \<in> set (worker_peers n p)" using i by simp
  then obtain x where x: "unat x < n" "x \<noteq> p" "worker_peers n p ! i = worker_peer x"
    using worker_peers_set [OF n, of p] by auto
  have "peer_pid r = x" "peer_addr r = worker_addr x"
    using arg_cong [OF m(1), of "\<lambda>l. l ! i"] arg_cong [OF m(2), of "\<lambda>l. l ! i"] i l x(3) by simp_all
  with x show ?thesis by blast
qed

lemma node_ok_arrivals:
  assumes ok: "node_ok n L p s" and n: "n \<le> 31" and m: "m \<in> arrivals s"
  shows "\<exists>q. unat q < n \<and> sender_pid m = ucast q \<and> rcvd_message m \<in> copies (L q)"
proof -
  obtain a d where ad: "m = rcvd_of (parsed_msg d) (pid_of_addr a (peers s))" "(a, d) \<in> set (socket_rx s)"
      "hdr_size \<le> length d" "\<not> header_only (kind (header (parsed_msg d)))" "pid_of_addr a (peers s) \<noteq> UINT16_MAX"
    using m by (auto simp: arrivals_def)
  obtain q where q: "unat q < n" "a = worker_addr q" "d \<in> wires (L q)"
    using ok ad(2) by (fastforce simp: node_ok_def)
  have "d \<noteq> []" using ad(3) by (auto simp: hdr_size_def)
  then obtain msg where msg: "d = wire_bytes msg" "msg \<in> genuine (L q)" "msg_wf msg"
    using q(3) by (auto simp: wires_def)
  have pm: "parsed_msg d = msg" using parsed_wire [OF msg(3)] msg(1) by simp
  obtain r where r: "r \<in> set (peers s)" "peer_addr r = a" "pid_of_addr a (peers s) = ucast (peer_pid r)"
    using pid_of_addr_cases [of a "peers s"] ad(5) by blast
  obtain x where x: "unat x < n" "peer_pid r = x" "peer_addr r = worker_addr x"
    using peers_are_workers [OF _ r(1), of p n] ok n by (auto simp: node_ok_def)
  have "x = q" by (rule worker_addr_inj) (use x q n r(2) in simp_all)
  with q(1) ad(1,4) r(3) x(2) pm genuine_copies [OF msg(2)] show ?thesis by auto
qed

lemma node_ok_effect:
  assumes ok: "node_ok n L p s" and n: "n \<le> 31" and eff: "effect (set Bs) R s s'" and R: "R \<subseteq> arrivals s"
    and inv: "proc_inv s'" and sp: "same_peers s s'" and log: "log_ok (L p @ Bs)"
    and own: "own_count s' = own_count s + of_nat (length Bs)"
  shows "node_ok n (L(p := L p @ Bs)) p s'"
proof -
  let ?L = "L(p := L p @ Bs)"
  have mono: "copies (L q) \<subseteq> copies (?L q)" "genuine (L q) \<subseteq> genuine (?L q)" "wires (L q) \<subseteq> wires (?L q)" for q
    using genuine_mono [of "L p" Bs] by (simp_all add: fun_upd_apply)
  note o = node_okD [OF ok]
  have e: "pid s' = pid s" "inbox s' \<subseteq> inbox s \<union> R"
    "outbox s' \<subseteq> outbox s \<union> set Bs \<union> answers \<union> as_retransmission ` sent_msgs s"
    "sent_msgs s' \<subseteq> sent_msgs s \<union> outbox s"
    "set (socket_tx s') \<subseteq> set (socket_tx s) \<union> UNIV \<times> insert [] (wire_bytes ` outbox s)"
    "set (socket_rx s') \<subseteq> set (socket_rx s)"
    using eff unfolding effect_def by blast+
  have wf: "msg_wf m" if "m \<in> outbox s" for m
    using o(1) that by (auto simp: proc_inv_def queue_ok_def outbox_def)
  have new: "set Bs \<union> answers \<union> as_retransmission ` sent_msgs s \<subseteq> genuine (?L p)"
    using o(7) by (auto simp: genuine_def copies_def)
  show ?thesis
  proof (rule node_okI)
    show "outbox s' \<subseteq> genuine (?L p)" using e(3) o(6) mono(2) [of p] new by blast
    show "sent_msgs s' \<subseteq> set (?L p)"
    proof
      fix m assume m: "m \<in> sent_msgs s'"
      obtain x where x: "x \<in> set (sent_msg_buffer s')" "m = sent_message (sent_at s' x)"
        using m by (auto simp: sent_msgs_def sent_list_def)
      have "sent_ok s'" using inv by (simp add: proc_inv_def)
      from sent_ok_msg [OF this x(1)] x(2) have "kind (header m) = CBC_DATA" by (simp add: sent_msg_ok_def)
      moreover have "m \<in> set (L p) \<or> m \<in> genuine (L p)" using subsetD [OF e(4) m] o(6,7) by blast
      ultimately show "m \<in> set (?L p)" using genuine_data [OF o(4)] by auto
    qed
    show "snd ` set (socket_tx s') \<subseteq> wires (?L p)"
    proof
      fix d assume "d \<in> snd ` set (socket_tx s')"
      then obtain a where "(a, d) \<in> set (socket_tx s')" by auto
      then have "(a, d) \<in> set (socket_tx s) \<union> UNIV \<times> insert [] (wire_bytes ` outbox s)" by (rule subsetD [OF e(5)])
      then have "d \<in> snd ` set (socket_tx s) \<or> d = [] \<or> d \<in> wire_bytes ` outbox s" by force
      moreover have "wire_bytes ` outbox s \<subseteq> wires (L p)" using o(6) wf by (auto simp: wires_def)
      ultimately have "d \<in> wires (L p)" using o(8) by (auto simp: wires_def)
      then show "d \<in> wires (?L p)" using mono(3) by blast
    qed
    show "\<exists>q. unat q < n \<and> a = worker_addr q \<and> d \<in> wires (?L q)" if "(a, d) \<in> set (socket_rx s')" for a d
      using o(9) [OF subsetD [OF e(6) that]] mono(3) by blast
    show "\<exists>q. unat q < n \<and> sender_pid m = ucast q \<and> rcvd_message m \<in> copies (?L q)" if "m \<in> inbox s'" for m
    proof -
      have "m \<in> inbox s \<or> m \<in> arrivals s" using subsetD [OF e(2) that] R by blast
      then have "\<exists>q. unat q < n \<and> sender_pid m = ucast q \<and> rcvd_message m \<in> copies (L q)"
        using o(10) node_ok_arrivals [OF ok n] by blast
      then show ?thesis using mono(1) by blast
    qed
    show "same_peers (initial_node p n (worker_peers n p)) s'" using same_peers_trans [OF o(3) sp] .
  qed (use inv e(1) o(2,5) own log in simp_all)
qed

lemma node_ok_other:
  assumes ok: "node_ok n L q s" and qp: "q \<noteq> p"
  shows "node_ok n (L(p := L p @ Bs)) q s"
proof -
  let ?L = "L(p := L p @ Bs)"
  have mono: "copies (L q) \<subseteq> copies (?L q)" "wires (L q) \<subseteq> wires (?L q)" for q
    using genuine_mono [of "L p" Bs] by (simp_all add: fun_upd_apply)
  note o = node_okD [OF ok]
  show ?thesis
  proof (rule node_okI)
    show "\<exists>r. unat r < n \<and> a = worker_addr r \<and> d \<in> wires (?L r)" if "(a, d) \<in> set (socket_rx s)" for a d
      using o(9) [OF that] mono(2) by blast
    show "\<exists>r. unat r < n \<and> sender_pid m = ucast r \<and> rcvd_message m \<in> copies (?L r)" if "m \<in> inbox s" for m
      using o(10) [OF that] mono(1) by blast
  qed (use o qp in simp_all)
qed

section \<open>The invariant of the network\<close>

definition net_inv :: "nat \<Rightarrow> network \<Rightarrow> bool" where
  "net_inv n N \<longleftrightarrow> (\<forall>p. unat p < n \<longrightarrow> node_ok n (log_of N) p (node_of N p))"

lemma net_inv_update:
  assumes inv: "net_inv n N" and ok: "node_ok n ((log_of N)(p := log_of N p @ Bs)) p s'"
  shows "net_inv n (with_log p Bs (with_node p s' N))"
  using inv ok node_ok_other by (simp add: net_inv_def with_log_def with_node_def)

lemma with_log_Nil [simp]: "with_log p [] N = N"
  by (simp add: with_log_def fun_upd_idem)

lemma net_inv_effect:
  assumes inv: "net_inv n N" and n: "n \<le> 31" and p: "unat p < n" and eff: "effect {} R (node_of N p) s'"
    and "R \<subseteq> arrivals (node_of N p)" "proc_inv s'" "same_peers (node_of N p) s'" "own_count s' = own_count (node_of N p)"
  shows "net_inv n (with_node p s' N)"
proof -
  have ok: "node_ok n (log_of N) p (node_of N p)" using inv p by (simp add: net_inv_def)
  have "node_ok n ((log_of N)(p := log_of N p @ [])) p s'"
    by (rule node_ok_effect [OF ok n _ assms(5-7)]) (use eff assms(8) node_okD(4) [OF ok] in simp_all)
  from net_inv_update [OF inv this] show ?thesis by simp
qed

lemma ucast_of_nat_u16: "(ucast (of_nat k :: u64) :: u16) = of_nat k"
  by (simp add: word_unat_eq_iff unsigned_ucast_eq unsigned_of_nat unsigned_take_bit_eq)

lemma broadcasts_log_ok:
  assumes ok: "node_ok n L p s" and run: "cbc_send pl k s = Inr (r, s')"
  shows "log_ok (L p @ broadcasts pl k s r)"
    "own_count s' = own_count s + of_nat (length (broadcasts pl k s r))"
proof -
  note o = node_okD [OF ok] and e = cbc_send_effect [OF node_okD(1) [OF ok] run]
  show "own_count s' = own_count s + of_nat (length (broadcasts pl k s r))"
    using e(2) by (simp add: broadcasts_def)
  show "log_ok (L p @ broadcasts pl k s r)"
  proof (cases "result_is_ok r")
    case False
    with o(4) show ?thesis by (simp add: broadcasts_def)
  next
    case True
    then obtain bytes where b: "pl = Some bytes" "(ucast k :: u16) \<noteq> 0" "unat (ucast k :: u16) \<le> length bytes"
      using e(3) by blast
    have "next_own s = of_nat (Suc (length (L p)))"
      using o(5) by (simp add: own_count_def next_own_def)
    then have "clock (header (data_msg bytes k (next_own s))) = of_nat (Suc (length (L p)))"
      by (simp only: data_msg_def set_clock_simps ucast_of_nat_u16)
    moreover have "kind (header (data_msg bytes k (next_own s))) = CBC_DATA"
      by (simp add: data_msg_def created_msg_def header_only_def)
    ultimately show ?thesis
      using o(4) True b data_msg_wf [OF b(2,3)]
      by (auto simp: log_ok_def broadcasts_def nth_append less_Suc_eq)
  qed
qed

lemma arrive_simps [simp]:
  "proc_inv (arrive d s) = proc_inv s" "pid (arrive d s) = pid s" "peers (arrive d s) = peers s"
  "inbox (arrive d s) = inbox s" "outbox (arrive d s) = outbox s" "sent_msgs (arrive d s) = sent_msgs s"
  "socket_tx (arrive d s) = socket_tx s" "socket_rx (arrive d s) = socket_rx s @ [d]"
  "own_count (arrive d s) = own_count s" "delivered (arrive d s) = delivered s" "mem (arrive d s) = mem s"
  "delivery_view (arrive d s) = delivery_view s" "vclock (arrive d s) = vclock s"
  by (simp_all add: arrive_def inbox_def outbox_def own_count_def sent_msgs_def sent_list_def sent_at_def
      delivery_view_def)

lemma net_step_inv:
  assumes st: "net_step n N M" and inv: "net_inv n N" and n: "n \<le> 31"
  shows "net_inv n M"
  using st
proof cases
  case (net_send p pl k r s')
  have ok: "node_ok n (log_of N) p (node_of N p)" using inv net_send(2) by (simp add: net_inv_def)
  note i = node_okD(1) [OF ok] and b = broadcasts_log_ok [OF ok net_send(3)]
  have "node_ok n ((log_of N)(p := log_of N p @ broadcasts pl k (node_of N p) r)) p s'"
    by (rule node_ok_effect [OF ok n cbc_send_effect(1) [OF i net_send(3)] empty_subsetI
          cbc_send_inv [OF i net_send(3)] cbc_send_same_peers [OF i net_send(3)] b])
  with net_inv_update [OF inv] net_send(1) show ?thesis by simp
next
  case (net_receive p r s')
  have i: "proc_inv (node_of N p)" using inv net_receive(2) node_okD(1) by (auto simp: net_inv_def)
  have "peers s' = peers (node_of N p)" using net_receive(3) by (auto simp: cbc_receive_eq split: list.splits)
  with net_inv_effect [OF inv n net_receive(2) cbc_receive_effect(1) [OF net_receive(3)] empty_subsetI]
    cbc_receive_inv(1) [OF i net_receive(3)] cbc_receive_effect(2) [OF net_receive(3)] net_receive(1)
  show ?thesis by simp
next
  case (net_send_thread p s')
  have i: "proc_inv (node_of N p)" using inv net_send_thread(2) node_okD(1) by (auto simp: net_inv_def)
  obtain out rest where q: "send_queue (node_of N p) = out # rest"
    using net_send_thread(3) by (cases "send_queue (node_of N p)") (auto simp: cbc_send_iteration_def)
  note e = send_iteration_effect [OF i net_send_thread(3)]
  with net_inv_effect [OF inv n net_send_thread(2) e(1) empty_subsetI] send_iteration_inv [OF i net_send_thread(3)]
    send_iteration_run(4) [OF i net_send_thread(3) q] net_send_thread(1)
  show ?thesis by simp
next
  case (net_recv_thread p pf rf hbuf hb s')
  have i: "proc_inv (node_of N p)" using inv net_recv_thread(2) node_okD(1) by (auto simp: net_inv_def)
  note e = recv_iteration_effect [OF i net_recv_thread(3)]
  with net_inv_effect [OF inv n net_recv_thread(2) e(1) subset_refl] recv_iteration_inv [OF i net_recv_thread(3)]
    recv_iteration_same_peers [OF i net_recv_thread(3)] net_recv_thread(1)
  show ?thesis by simp
next
  case (net_transmit p q d)
  have okp: "node_ok n (log_of N) p (node_of N p)" and okq: "node_ok n (log_of N) q (node_of N q)"
    using inv net_transmit(2,3) by (simp_all add: net_inv_def)
  have d: "d \<in> wires (log_of N p)" using node_okD(8) [OF okp] net_transmit(4) by force
  note o = node_okD [OF okq]
  have "node_ok n (log_of N) q (arrive (worker_addr p, d) (node_of N q))"
  proof (rule node_okI)
    show "\<exists>r. unat r < n \<and> a = worker_addr r \<and> e \<in> wires (log_of N r)"
      if "(a, e) \<in> set (socket_rx (arrive (worker_addr p, d) (node_of N q)))" for a e
      using that o(9) [of a e] d net_transmit(2) by auto
  qed (use o in \<open>simp_all add: same_peers_def\<close>)
  then show ?thesis using inv net_transmit(1) by (simp add: net_inv_def with_node_def)
qed

lemma net_reachable_inv:
  assumes "net_reachable n N" "n \<le> 31" shows "net_inv n N"
  using assms
proof (induction rule: net_reachable.induct)
  case (net_init N mems rand_values)
  have "node_ok n (log_of N) p (new_node (mems p) (rand_values p) p n (worker_peers n p))" if p: "unat p < n" for p
    by (rule node_okI)
      (use worker_peers_ok [OF net_init(2) p] net_init(1) [OF p] p in
        \<open>simp_all add: log_ok_def own_count_def outbox_def inbox_def sent_msgs_def sent_list_def\<close>)
  with net_init(1) show ?case by (simp add: net_inv_def)
next
  case (net_more N M)
  then show ?case using net_step_inv by blast
qed

section \<open>Properties\<close>

text \<open>
  C1: Reliable FIFO broadcast, end to end: in a network of up to 31 processes that loses,
  duplicates, delays and reorders datagrams arbitrarily, whatever the schedule of calls and
  threads, whichever allocations fail in which process (every process starts with an arbitrary
  allocator), whatever its network simulation drops and whichever calls of \<open>recvfrom\<close> fail, the
  payloads that the application of
  one process has received from another are, as long as that one has broadcast fewer than 65536
  messages, a prefix of the payloads it broadcast: nothing invented, changed, lost in between,
  repeated or reordered.
\<close>

theorem network_fifo:
  assumes "net_reachable n N" "n \<le> 31" "unat p < n" "unat q < n" "p \<noteq> q" "length (log_of N q) < 65536"
  shows "\<exists>k \<le> length (log_of N q).
     map (payload \<circ> rcvd_message) (filter (\<lambda>m. sender_pid m = ucast q) (delivered (node_of N p)))
     = take k (map payload (log_of N q))"
proof -
  let ?s = "node_of N p" and ?L = "log_of N q"
  let ?ms = "filter (\<lambda>m. sender_pid m = ucast q) (delivered ?s)"
  have inv: "net_inv n N" by (rule net_reachable_inv [OF assms(1,2)])
  then have ok: "node_ok n (log_of N) p ?s" "log_ok ?L"
    using assms(3,4) node_okD(4) by (auto simp: net_inv_def)
  note o = node_okD [OF ok(1)]
  have qq: "(ucast (ucast x :: u16) :: u64) = x" if "unat x < n" for x :: u64
    using that assms(2) by (intro unat_ucast_small(2)) simp
  have "ucast (ucast q :: u16) \<noteq> pid ?s" using qq [OF assms(4)] o(2) assms(5) by simp
  note clocks = delivered_clocks [OF o(1) this]
  have at: "i < length ?L \<and> payload (rcvd_message (?ms ! i)) = payload (?L ! i)" if i: "i < length ?ms" for i
  proof -
    let ?m = "?ms ! i"
    have c: "clk_of ?m = Suc i"
      using arg_cong [OF clocks, of "\<lambda>l. l ! i"] i by (simp del: upt_Suc)
    have "?m \<in> set ?ms" using i by (rule nth_mem)
    then have m: "?m \<in> set (delivered ?s)" "sender_pid ?m = ucast q" by auto
    then obtain x where x: "unat x < n" "sender_pid ?m = ucast x" "rcvd_message ?m \<in> copies (log_of N x)"
      using o(10) [of ?m] by (auto simp: inbox_def)
    have "x = q" using qq [OF x(1)] qq [OF assms(4)] x(2) m(2) by metis
    then obtain j where j: "j < length ?L" "payload (rcvd_message ?m) = payload (?L ! j)"
        "clock (header (rcvd_message ?m)) = clock (header (?L ! j))"
      using x(3) by (auto simp: copies_def in_set_conv_nth)
    then have "clock (header (rcvd_message ?m)) = of_nat (Suc j)" using ok(2) by (simp add: log_ok_def)
    then have "clk_of ?m = Suc j"
      using j(1) assms(6) by (simp add: clk_of_def rcvd_clock_def unsigned_of_nat take_bit_nat_eq_self del: of_nat_Suc)
    with c j show ?thesis by simp
  qed
  have le: "length ?ms \<le> length ?L"
  proof (rule ccontr)
    assume "\<not> length ?ms \<le> length ?L"
    then show False using at [of "length ?L"] by simp
  qed
  moreover have "map (payload \<circ> rcvd_message) ?ms = take (length ?ms) (map payload ?L)"
    using at le by (intro nth_equalityI) simp_all
  ultimately show ?thesis by blast
qed

end
