(* ===== verification/Causal.thy ===== *)
theory Causal
  imports Network
begin

text \<open>
  Causal order across senders. The vector clock of the sender is not part of a message: a
  message carries only its sender's own counter, so a receiver orders each sender's messages
  and nothing else. Here a run of three processes is constructed in which process 2 delivers a
  message of process 1 but not the message of process 0 that process 1 had delivered before it
  sent its own.
\<close>

section \<open>A call of cbc_send in a calm environment\<close>

lemma swept_nothing:
  assumes sw: "swept s s'" and none: "sent_msg_buffer s = []"
  shows "quiet s s'" "send_queue s' = send_queue s" "alloc_ok (mem s') = alloc_ok (mem s)"
proof -
  obtain t ds where b: "buried ds s t" and ds: "set ds = suspects (own_clock s) s" and q: "quiet t s'"
    and sq: "send_queue s' = send_queue s @ retransmissions t (still_old (own_clock s) s)"
    and m: "alloc_ok (mem s') = alloc_ok (mem s)"
    using sw by (auto simp: swept_def)
  have "suspects (own_clock s) s = {}" "still_old (own_clock s) s = []"
    using none by (simp_all add: suspects_def sent_list_def still_old_def)
  then have "locks_only s t" "send_queue s' = send_queue s"
    using b ds sq by (simp_all add: buried_def retransmissions_def)
  with q m show "quiet s s'" "send_queue s' = send_queue s" "alloc_ok (mem s') = alloc_ok (mem s)"
    using quiet_trans [OF locks_only_views(1)] by blast+
qed

lemma send_first:
  assumes calm: "calm s" and ne: "peers s \<noteq> []" and none: "sent_msg_buffer s = []"
    and b: "(ucast n :: u16) \<noteq> 0" "unat (ucast n :: u16) \<le> length bytes"
  shows "\<exists>s'. cbc_send (Some bytes) n s = Inr (result_new_ok (), s') \<and> calm s'
     \<and> send_queue s' = send_queue s @ [\<lparr>out_message = data_msg bytes n (next_own s), out_addr = None, socket_flags = 0\<rparr>]
     \<and> peers s' = peers s \<and> socket_rx s' = socket_rx s \<and> socket_tx s' = socket_tx s
     \<and> delivered s' = delivered s \<and> delivery_queue s' = delivery_queue s"
proof -
  have c: "proc_inv s" "plenty (mem s)" using calm by (simp_all add: calm_def)
  obtain r s' where run: "cbc_send (Some bytes) n s = Inr (r, s')"
    using cbc_send_safe [OF c, of "Some bytes" n] b(2) by (auto simp: payload_readable_def)
  show ?thesis
  proof (cases rule: cbc_send_cases [OF run])
    case (1 e m)
    with c(2) ne b(1) show ?thesis by simp
  next
    case (3 bs u)
    note u = queued_data_inv [OF 3(6,3,4) c(1)] and e = queued_data_effect [OF 3(6)]
    have h: "handle_old_messages u = Inr s'" "r = result_new_ok ()" using 3(8) [symmetric] by auto
    have sw: "swept u s'" using proc_inv_sweep(1) [OF u(1) _ h(1)] u(2) ne by simp
    have "sent_msg_buffer u = []" using e(2) none by (simp add: sent_view_def)
    note n = swept_nothing [OF sw this]
    have "plenty (mem s')" using n(3) u(3) c(2) by (simp add: plenty_def)
    moreover have q: "quiet (bumped s) u" using 3(6) by (simp add: queued_data_def)
    then have "rands s' = rands s" using quiet_views(16) [OF n(1)] quiet_views(16) [OF q] by (simp add: bumped_def)
    ultimately have "calm s'" using cbc_send_inv [OF c(1) run] calm by (simp add: calm_def)
    then show ?thesis
      using run h(2) 3(1) e(3,6,7) n(2) u(2) quiet_views [OF n(1)] quiet_views [OF q] by simp
  qed simp
qed

lemma receive_next:
  assumes "calm s" "delivery_queue s = m # ms"
  shows "\<exists>s'. cbc_receive s = (Some m, s') \<and> calm s' \<and> delivered s' = delivered s @ [m] \<and> send_queue s' = send_queue s
     \<and> peers s' = peers s \<and> sent_msg_buffer s' = sent_msg_buffer s \<and> socket_tx s' = socket_tx s
     \<and> own_count s' = own_count s \<and> pid s' = pid s"
proof -
  obtain r s' where run: "cbc_receive s = (r, s')" by fastforce
  have f: "r = Some m" "delivered s' = delivered s @ [m]" "send_queue s' = send_queue s" "peers s' = peers s"
      "sent_msg_buffer s' = sent_msg_buffer s" "socket_tx s' = socket_tx s" "mem s' = mem s" "rands s' = rands s"
      "pid s' = pid s"
    using run assms(2) by (auto simp: cbc_receive_eq)
  have "calm s'" using cbc_receive_inv(1) [OF _ run] f(7,8) assms(1) by (simp add: calm_def)
  with run f cbc_receive_effect(2) [OF run] show ?thesis by blast
qed

section \<open>Networks\<close>

definition start_net :: "nat \<Rightarrow> network" where
  "start_net n = \<lparr>node_of = (\<lambda>p. initial_node p n (worker_peers n p)), log_of = (\<lambda>_. [])\<rparr>"

lemma start_net_reachable: "net_reachable n (start_net n)"
  by (rule net_init [where mems = "\<lambda>_. fresh_memory" and rand_values = "\<lambda>_ _. 50"]) (simp add: start_net_def)

lemma net_reachable_steps: "(net_step n)\<^sup>*\<^sup>* N M \<Longrightarrow> net_reachable n N \<Longrightarrow> net_reachable n M"
  by (induction rule: rtranclp_induct) (auto intro: net_more)

lemma net_simps [simp]:
  "node_of (with_node p s N) q = (if q = p then s else node_of N q)" "log_of (with_node p s N) = log_of N"
  "node_of (with_log p ms N) = node_of N" "log_of (with_log p ms N) q = (if q = p then log_of N p @ ms else log_of N q)"
  "node_of (start_net n) p = initial_node p n (worker_peers n p)" "log_of (start_net n) p = []"
  by (simp_all add: with_node_def with_log_def start_net_def)

text \<open>The messages of the run, and its three processes.\<close>

definition msg_a :: cbcast_msg where
  "msg_a = \<lparr>header = \<lparr>kind = CBC_DATA, clock = 1, len = 1\<rparr>, payload = Some [65, 0]\<rparr>"

definition msg_b :: cbcast_msg where
  "msg_b = \<lparr>header = \<lparr>kind = CBC_DATA, clock = 1, len = 1\<rparr>, payload = Some [66, 0]\<rparr>"

lemma msg_ab [simp]:
  "msg_wf msg_a" "msg_wf msg_b" "kind (header msg_a) = CBC_DATA" "kind (header msg_b) = CBC_DATA"
  "clock (header msg_a) = 1" "clock (header msg_b) = 1" "data_msg [65] 1 1 = msg_a" "data_msg [66] 1 1 = msg_b"
  by (simp_all add: msg_a_def msg_b_def msg_wf_def payload_wf_def data_msg_def created_msg_def set_clock_def header_only_def)

lemma peers3 [simp]:
  "worker_peers 3 0 = [worker_peer 1, worker_peer 2]" "worker_peers 3 1 = [worker_peer 0, worker_peer 2]"
  "worker_peers 3 2 = [worker_peer 0, worker_peer 1]"
  by (simp_all add: worker_peers_def upt_rec)

lemma calm3 [simp]: "unat p < 3 \<Longrightarrow> calm (initial_node p 3 (worker_peers 3 p))"
proof -
  assume p: "unat p < 3"
  have "rands (initial_node p 3 (worker_peers 3 p)) = (\<lambda>_. 50)" by (simp add: new_node_def)
  then show ?thesis using worker_peers_ok [of 3 p] p by (simp add: calm_def sim_drops_def NETWORK_SIMULATION_DROP_def)
qed

lemma calm_arrive: "calm (arrive d s) = calm s"
  by (simp add: calm_def) (simp add: arrive_def)

lemma senders3:
  "pid_of_addr (worker_addr 0) [worker_peer 0, worker_peer 2] = 0"
  "pid_of_addr (worker_addr 1) [worker_peer 0, worker_peer 1] = 1"
  using pid_of_addr_member [of "[worker_peer 0, worker_peer 2]" "worker_peer 0"]
    pid_of_addr_member [of "[worker_peer 0, worker_peer 1]" "worker_peer 1"]
  by (simp_all add: worker_addr_def BASE_PORT_def htons_def)

text \<open>Process 0 broadcasts its message.\<close>

lemma process_0:
  "\<exists>s t. cbc_send (Some [65]) 1 (initial_node 0 3 (worker_peers 3 0)) = Inr (result_new_ok (), s)
     \<and> cbc_send_iteration s = Some (Inr t) \<and> (worker_addr 1, wire_bytes msg_a) \<in> set (socket_tx t)"
proof -
  let ?i = "initial_node 0 3 (worker_peers 3 0)"
  have c: "calm ?i" by (rule calm3) simp
  have n: "next_own ?i = 1" by (simp add: next_own_def)
  obtain s where s: "cbc_send (Some [65]) 1 ?i = Inr (result_new_ok (), s)" "calm s"
      "send_queue s = [\<lparr>out_message = msg_a, out_addr = None, socket_flags = 0\<rparr>]" "peers s = [worker_peer 1, worker_peer 2]"
    using send_first [OF c, of 1 "[65]"] n by auto
  obtain t where "cbc_send_iteration s = Some (Inr t)"
      "socket_tx t = socket_tx s @ map (\<lambda>q. (peer_addr q, wire_bytes msg_a)) (alive (peers s))"
    using send_calm [OF s(2,3)] by auto
  with s(1,4) show ?thesis by (auto simp: alive_def)
qed

text \<open>Process 1 delivers it, and then broadcasts its own.\<close>

lemma process_1:
  "\<exists>hb s t u v w. cbc_recv_iteration False False [] (arrive (worker_addr 0, wire_bytes msg_a)
        (initial_node 1 3 (worker_peers 3 1))) = Some (Inr (hb, s))
     \<and> cbc_receive s = (Some (rcvd_of msg_a 0), t) \<and> delivered t = [rcvd_of msg_a 0]
     \<and> cbc_send (Some [66]) 1 t = Inr (result_new_ok (), u) \<and> next_own t = 1
     \<and> cbc_send_iteration u = Some (Inr v) \<and> cbc_send_iteration v = Some (Inr w)
     \<and> (worker_addr 2, wire_bytes msg_b) \<in> set (socket_tx w)"
proof -
  let ?i = "arrive (worker_addr 0, wire_bytes msg_a) (initial_node 1 3 (worker_peers 3 1))"
  have c: "calm ?i" by (simp only: calm_arrive) (rule calm3, simp)
  have cl: "classify 0 1 ?i = CAUSALITY_DELIVER" by (simp add: classify_def tracked_def vclk_def arrive_def)
  obtain hb s where s: "cbc_recv_iteration False False [] ?i = Some (Inr (hb, s))" "calm s"
      "delivery_queue s = [rcvd_of msg_a 0]" "delivered s = []" "peers s = [worker_peer 0, worker_peer 2]"
      "send_queue s = answer CBC_ACK 1 0 [worker_peer 0, worker_peer 2]" "sent_view s = sent_view ?i"
    using recv_delivers [OF c, of "worker_addr 0" msg_a "[]" 0 "[]"] cl
    by (auto simp: senders3 UINT16_MAX_def) (auto simp: arrive_def)
  have inv: "proc_inv ?i" using c by (simp add: calm_def)
  have oc: "own_count s = 0" using recv_iteration_effect(2) [OF inv s(1)] by (simp add: own_count_def)
  have pd: "pid s = 1" using recv_iteration_effect(1) [OF inv s(1)] by (simp add: effect_def)
  obtain t where t: "cbc_receive s = (Some (rcvd_of msg_a 0), t)" "calm t" "delivered t = [rcvd_of msg_a 0]"
      "send_queue t = send_queue s" "peers t = peers s" "sent_msg_buffer t = sent_msg_buffer s" "own_count t = 0"
    using receive_next [OF s(2,3)] s(4) oc by auto
  have nt: "next_own t = 1" using t(7) by (simp add: next_own_def own_count_def)
  have "sent_msg_buffer s = []" using s(7) by (simp add: sent_view_def arrive_def)
  then obtain u where u: "cbc_send (Some [66]) 1 t = Inr (result_new_ok (), u)" "calm u"
      "send_queue u = send_queue t @ [\<lparr>out_message = msg_b, out_addr = None, socket_flags = 0\<rparr>]" "peers u = peers t"
    using send_first [OF t(2), of 1 "[66]"] t(5,6) s(5) nt by auto
  have "send_queue u = [\<lparr>out_message = \<lparr>header = \<lparr>kind = CBC_ACK, clock = 1, len = 0\<rparr>, payload = None\<rparr>,
      out_addr = Some (worker_addr 0), socket_flags = 0\<rparr>, \<lparr>out_message = msg_b, out_addr = None, socket_flags = 0\<rparr>]"
    using u(3) t(4) s(6) by (simp add: answer_def)
  then obtain v where v: "cbc_send_iteration u = Some (Inr v)" "calm v" "peers v = peers u"
      "send_queue v = [\<lparr>out_message = msg_b, out_addr = None, socket_flags = 0\<rparr>]"
    using send_calm [OF u(2)] by blast
  obtain w where "cbc_send_iteration v = Some (Inr w)"
      "socket_tx w = socket_tx v @ map (\<lambda>q. (peer_addr q, wire_bytes msg_b)) (alive (peers v))"
    using send_calm [OF v(2,4)] by auto
  with s(1,5) t(1,3,5) u(1,4) v(1,3) nt show ?thesis
    by (intro exI [of _ hb] exI [of _ s] exI [of _ t] exI [of _ u] exI [of _ v] exI [of _ w]) (auto simp: alive_def)
qed

text \<open>Process 2 delivers the message of process 1 alone.\<close>

lemma process_2:
  "\<exists>hb s t. cbc_recv_iteration False False [] (arrive (worker_addr 1, wire_bytes msg_b)
        (initial_node 2 3 (worker_peers 3 2))) = Some (Inr (hb, s))
     \<and> cbc_receive s = (Some (rcvd_of msg_b 1), t) \<and> delivered t = [rcvd_of msg_b 1]"
proof -
  let ?i = "arrive (worker_addr 1, wire_bytes msg_b) (initial_node 2 3 (worker_peers 3 2))"
  have c: "calm ?i" by (simp only: calm_arrive) (rule calm3, simp)
  have cl: "classify 1 1 ?i = CAUSALITY_DELIVER" by (simp add: classify_def tracked_def vclk_def arrive_def)
  obtain hb s where s: "cbc_recv_iteration False False [] ?i = Some (Inr (hb, s))" "calm s"
      "delivery_queue s = [rcvd_of msg_b 1]" "delivered s = []"
    using recv_delivers [OF c, of "worker_addr 1" msg_b "[]" 1 "[]"] cl
    by (auto simp: senders3 UINT16_MAX_def) (auto simp: arrive_def)
  obtain t where "cbc_receive s = (Some (rcvd_of msg_b 1), t)" "delivered t = [rcvd_of msg_b 1]"
    using receive_next [OF s(2,3)] s(4) by auto
  with s(1) show ?thesis by blast
qed

text \<open>The run: first up to the delivery at process 1, then up to the delivery at process 2.\<close>

lemma run_to_1:
  assumes a: "cbc_send (Some [65]) 1 (initial_node 0 3 (worker_peers 3 0)) = Inr (result_new_ok (), s)"
      "cbc_send_iteration s = Some (Inr t)" "(worker_addr 1, wire_bytes msg_a) \<in> set (socket_tx t)"
    and b: "cbc_recv_iteration False False [] (arrive (worker_addr 0, wire_bytes msg_a)
        (initial_node 1 3 (worker_peers 3 1))) = Some (Inr (hb, u))" "cbc_receive u = (r, v)"
  shows "\<exists>N. (net_step 3)\<^sup>*\<^sup>* (start_net 3) N \<and> node_of N 1 = v \<and> node_of N 2 = initial_node 2 3 (worker_peers 3 2)
     \<and> log_of N 0 = [msg_a] \<and> log_of N 1 = []"
proof -
  let ?N1 = "with_log 0 [msg_a] (with_node 0 s (start_net 3))"
  let ?N3 = "with_node 1 (arrive (worker_addr 0, wire_bytes msg_a) (initial_node 1 3 (worker_peers 3 1))) (with_node 0 t ?N1)"
  have "next_own (initial_node 0 3 (worker_peers 3 0)) = 1" by (simp add: next_own_def)
  then have bc: "broadcasts (Some [65]) 1 (node_of (start_net 3) 0) (result_new_ok ()) = [msg_a]"
    by (simp add: broadcasts_def)
  have s1: "net_step 3 (start_net 3) ?N1"
    using net_send [of 0 3 "Some [65]" 1 "start_net 3" "result_new_ok ()" s] a(1) bc by simp
  have s2: "net_step 3 ?N1 (with_node 0 t ?N1)" by (rule net_send_thread) (use a(2) in simp_all)
  have s3: "net_step 3 (with_node 0 t ?N1) ?N3"
    using net_transmit [of 0 3 1 "wire_bytes msg_a" "with_node 0 t ?N1"] a(3) by simp
  have s4: "net_step 3 ?N3 (with_node 1 u ?N3)"
    by (rule net_recv_thread [where hb = hb and hdr_buf = "[]" and peek_fails = False and recv_fails = False])
      (use b(1) in simp_all)
  have s5: "net_step 3 (with_node 1 u ?N3) (with_node 1 v (with_node 1 u ?N3))"
    by (rule net_receive [where r = r]) (use b(2) in simp_all)
  have "(net_step 3)\<^sup>*\<^sup>* (start_net 3) (with_node 1 v (with_node 1 u ?N3))"
    using s1 s2 s3 s4 s5 by (meson converse_rtranclp_into_rtranclp rtranclp.rtrancl_refl)
  then show ?thesis by (intro exI [of _ "with_node 1 v (with_node 1 u ?N3)"]) simp
qed

lemma run_to_2:
  assumes n: "node_of N 1 = t" "log_of N 1 = []" "node_of N 2 = initial_node 2 3 (worker_peers 3 2)"
    and a: "cbc_send (Some [66]) 1 t = Inr (result_new_ok (), u)" "next_own t = 1"
      "cbc_send_iteration u = Some (Inr v)" "cbc_send_iteration v = Some (Inr w)"
      "(worker_addr 2, wire_bytes msg_b) \<in> set (socket_tx w)"
    and b: "cbc_recv_iteration False False [] (arrive (worker_addr 1, wire_bytes msg_b)
        (initial_node 2 3 (worker_peers 3 2))) = Some (Inr (hb, x))" "cbc_receive x = (r, y)"
  shows "\<exists>M. (net_step 3)\<^sup>*\<^sup>* N M \<and> log_of M 1 = [msg_b] \<and> node_of M 2 = y"
proof -
  let ?N1 = "with_log 1 [msg_b] (with_node 1 u N)"
  let ?N3 = "with_node 1 w (with_node 1 v ?N1)"
  let ?N4 = "with_node 2 (arrive (worker_addr 1, wire_bytes msg_b) (initial_node 2 3 (worker_peers 3 2))) ?N3"
  have bc: "broadcasts (Some [66]) 1 (node_of N 1) (result_new_ok ()) = [msg_b]"
    using n(1) a(2) by (simp add: broadcasts_def)
  have s1: "net_step 3 N ?N1"
    using net_send [of 1 3 "Some [66]" 1 N "result_new_ok ()" u] a(1) bc n(1) by simp
  have s2: "net_step 3 ?N1 (with_node 1 v ?N1)" by (rule net_send_thread) (use a(3) in simp_all)
  have s3: "net_step 3 (with_node 1 v ?N1) ?N3" by (rule net_send_thread) (use a(4) in simp_all)
  have s4: "net_step 3 ?N3 ?N4"
    using net_transmit [of 1 3 2 "wire_bytes msg_b" ?N3] a(5) n(3) by simp
  have s5: "net_step 3 ?N4 (with_node 2 x ?N4)"
    by (rule net_recv_thread [where hb = hb and hdr_buf = "[]" and peek_fails = False and recv_fails = False])
      (use b(1) in simp_all)
  have s6: "net_step 3 (with_node 2 x ?N4) (with_node 2 y (with_node 2 x ?N4))"
    by (rule net_receive [where r = r]) (use b(2) in simp_all)
  have "(net_step 3)\<^sup>*\<^sup>* N (with_node 2 y (with_node 2 x ?N4))"
    using s1 s2 s3 s4 s5 s6 by (meson converse_rtranclp_into_rtranclp rtranclp.rtrancl_refl)
  then show ?thesis using n(2) by (intro exI [of _ "with_node 2 y (with_node 2 x ?N4)"]) simp
qed

section \<open>Properties\<close>

text \<open>
  C4: The broadcast does not keep causal order: from their start, with every
  allocation succeeding and nothing dropped, three processes can reach a state in which the
  application of process 1 has received the message of process 0 and has sent nothing yet, and
  from there one in which process 1 has broadcast its own message and the application of
  process 2 has received that message and not the one of process 0, although the first causally
  precedes it. Only the order of the messages of each single sender is kept.
\<close>

theorem causal_order_violated:
  "\<exists>(N :: network) (M :: network). (net_step 3)\<^sup>*\<^sup>* (start_net 3) N \<and> delivered (node_of N 1) = [rcvd_of msg_a 0] \<and> log_of N 1 = []
     \<and> (net_step 3)\<^sup>*\<^sup>* N M \<and> log_of M 1 = [msg_b] \<and> delivered (node_of M 2) = [rcvd_of msg_b 1]"
proof -
  obtain s0 t0 where p0: "cbc_send (Some [65]) 1 (initial_node 0 3 (worker_peers 3 0)) = Inr (result_new_ok (), s0)"
      "cbc_send_iteration s0 = Some (Inr t0)" "(worker_addr 1, wire_bytes msg_a) \<in> set (socket_tx t0)"
    using process_0 by blast
  obtain hb s t u v w where p1: "cbc_recv_iteration False False [] (arrive (worker_addr 0, wire_bytes msg_a)
        (initial_node 1 3 (worker_peers 3 1))) = Some (Inr (hb, s))"
      "cbc_receive s = (Some (rcvd_of msg_a 0), t)" "delivered t = [rcvd_of msg_a 0]"
      "cbc_send (Some [66]) 1 t = Inr (result_new_ok (), u)" "next_own t = 1"
      "cbc_send_iteration u = Some (Inr v)" "cbc_send_iteration v = Some (Inr w)"
      "(worker_addr 2, wire_bytes msg_b) \<in> set (socket_tx w)"
    using process_1 by blast
  obtain hb2 x y where p2: "cbc_recv_iteration False False [] (arrive (worker_addr 1, wire_bytes msg_b)
        (initial_node 2 3 (worker_peers 3 2))) = Some (Inr (hb2, x))"
      "cbc_receive x = (Some (rcvd_of msg_b 1), y)" "delivered y = [rcvd_of msg_b 1]"
    using process_2 by blast
  obtain N where N: "(net_step 3)\<^sup>*\<^sup>* (start_net 3) N" "node_of N 1 = t" "node_of N 2 = initial_node 2 3 (worker_peers 3 2)" "log_of N 1 = []"
    using run_to_1 [OF p0 p1(1,2)] by blast
  obtain M where M: "(net_step 3)\<^sup>*\<^sup>* N M" "log_of M 1 = [msg_b]" "node_of M 2 = y"
    using run_to_2 [OF N(2,4,3) p1(4-8) p2(1,2)] by blast
  from N M p1(3) p2(3) show ?thesis by (intro exI [of _ N] exI [of _ M]) simp
qed

text \<open>The property of the network applied at the first state of the run.\<close>

theorem network_fifo_witness:
  "\<exists>N :: network. delivered (node_of N 1) = [rcvd_of msg_a 0] \<and>
     (\<exists>k \<le> length (log_of N 0).
       map (payload \<circ> rcvd_message) (filter (\<lambda>m. sender_pid m = ucast (0 :: u64)) (delivered (node_of N 1)))
       = take k (map payload (log_of N 0)))"
proof -
  obtain s0 t0 where p0: "cbc_send (Some [65]) 1 (initial_node 0 3 (worker_peers 3 0)) = Inr (result_new_ok (), s0)"
      "cbc_send_iteration s0 = Some (Inr t0)" "(worker_addr 1, wire_bytes msg_a) \<in> set (socket_tx t0)"
    using process_0 by blast
  obtain hb s t where p1: "cbc_recv_iteration False False [] (arrive (worker_addr 0, wire_bytes msg_a)
        (initial_node 1 3 (worker_peers 3 1))) = Some (Inr (hb, s))"
      "cbc_receive s = (Some (rcvd_of msg_a 0), t)" "delivered t = [rcvd_of msg_a 0]"
    using process_1 by blast
  obtain N where N: "(net_step 3)\<^sup>*\<^sup>* (start_net 3) N" "node_of N 1 = t" "log_of N 0 = [msg_a]"
    using run_to_1 [OF p0 p1(1,2)] by blast
  have "\<exists>k \<le> length (log_of N 0).
       map (payload \<circ> rcvd_message) (filter (\<lambda>m. sender_pid m = ucast (0 :: u64)) (delivered (node_of N 1)))
       = take k (map payload (log_of N 0))"
    by (rule network_fifo [OF net_reachable_steps [OF N(1) start_net_reachable]]) (simp_all add: N(3))
  with N(2) p1(3) show ?thesis by (intro exI [of _ N]) simp
qed

end
