(* ===== verification/Release.thy ===== *)
theory Release
  imports Process
begin

text \<open>
  \<open>cbc_free\<close> of \<open>src/cbcast/init.c\<close>, block by block. A block is named by the pointer field
  that holds its address: \<open>Peer_addr_block 2\<close> is the block \<open>cbc->peers[2]->addr\<close> points to. The
  script of a context is the sequence in which \<open>cbc_free\<close> and the functions it calls read
  fields of blocks and free them. \<open>heap_run\<close> runs a script on the set of live addresses, where
  \<open>adr\<close> says which address each pointer holds: two pointers may hold the same one. Reading or
  freeing a block that is not live has no meaning. The blocks that the arrays of \<open>stb_ds.h\<close>
  own are not counted.
\<close>

section \<open>Scripts\<close>

datatype place =
    Cbc_block | Stats_block | Snapshot_block | Vclock_block | Vclock_array
  | Peer_block nat | Peer_addr_block nat
  | Queued nat | Queued_addr nat | Sent ptr | Held nat | Deliverable nat
  | Msg_of place | Header_of place | Payload_of place

datatype action = Read place | Free place

text \<open>\<open>vc_free\<close>; the pointers it frees are fields of the clock.\<close>

definition vc_script :: "action list" where
  "vc_script = [Read Vclock_block, Free Vclock_array, Free Vclock_block]"

text \<open>\<open>cbc_msg_free\<close> of the message in the field \<open>message\<close> of the block at \<open>p\<close>.\<close>

definition msg_script :: "place \<Rightarrow> cbcast_msg \<Rightarrow> action list" where
  "msg_script p msg =
     [Read (Msg_of p), Free (Header_of p), Read (Msg_of p)]
     @ (if payload msg = None then [] else [Free (Payload_of p)]) @ [Free (Msg_of p)]"

definition peer_script :: "nat \<Rightarrow> action list" where
  "peer_script i = [Read (Peer_block i), Free (Peer_addr_block i), Free (Peer_block i)]"

text \<open>\<open>cbc_outgoing_msg_free\<close>\<close>

definition outgoing_script :: "nat \<Rightarrow> cbcast_outgoing_msg \<Rightarrow> action list" where
  "outgoing_script i out =
     Read (Queued i) # msg_script (Queued i) (out_message out)
     @ Read (Queued i) # (if out_addr out = None then [] else [Free (Queued_addr i)]) @ [Free (Queued i)]"

text \<open>\<open>cbc_sent_msg_free\<close> and \<open>cbc_received_msg_free\<close> of the block at \<open>p\<close>.\<close>

definition holder_script :: "place \<Rightarrow> cbcast_msg \<Rightarrow> action list" where
  "holder_script p msg = Read p # msg_script p msg @ [Free p]"

text \<open>What the sent buffer points to is in the heap of sent messages.\<close>

fun sent_script :: "ptr list \<Rightarrow> (ptr \<rightharpoonup> cbcast_sent_msg) \<Rightarrow> action list res" where
  "sent_script [] h = Inr []"
| "sent_script (p # ps) h =
     (case h p of
        None \<Rightarrow> Inl (Undefined_behaviour ''use after free'')
      | Some x \<Rightarrow> andthen (sent_script ps (h(p := None))) (\<lambda>as. Inr (holder_script (Sent p) (sent_message x) @ as)))"

definition received_script :: "(nat \<Rightarrow> place) \<Rightarrow> cbcast_received_msg list \<Rightarrow> action list" where
  "received_script pl hs = concat (map (\<lambda>i. holder_script (pl i) (rcvd_message (hs ! i))) [0..<length hs])"

text \<open>
  The loops of \<open>cbc_free\<close>. The vector clock and the statistics are the pointers that may still
  be NULL; the other fields are those of the context.
\<close>

definition free_script ::
  "vector_clock option \<Rightarrow> cbcast_stats option \<Rightarrow> node \<Rightarrow> action list res" where
  "free_script vc st s =
     andthen (sent_script (sent_msg_buffer s) (sent_heap s)) (\<lambda>sent. Inr (
       Read Cbc_block # (if vc \<noteq> None then vc_script else [])
       @ Read Cbc_block # concat (map peer_script [0..<length (peers s)])
       @ Read Cbc_block # concat (map (\<lambda>i. outgoing_script i (send_queue s ! i)) [0..<length (send_queue s)])
       @ Read Cbc_block # sent
       @ Read Cbc_block # received_script Held (held_msg_buffer s)
       @ Read Cbc_block # received_script Deliverable (delivery_queue s)
       @ Read Cbc_block # (case st of
            None \<Rightarrow> []
          | Some st \<Rightarrow> Read Stats_block #
              (if vector_clock_snapshot st \<noteq> None then [Free Snapshot_block] else []) @ [Free Stats_block])
       @ [Free Cbc_block]))"

section \<open>Running a script\<close>

text \<open>
  The block in which the pointer to a block is a field: to pass the pointer to \<open>free\<close>, the code
  reads it there. (The pointers in the arrays are reached from the context.)
\<close>

fun pointer_in :: "place \<Rightarrow> place option" where
  "pointer_in Cbc_block = None"
| "pointer_in Snapshot_block = Some Stats_block"
| "pointer_in Vclock_array = Some Vclock_block"
| "pointer_in (Peer_addr_block i) = Some (Peer_block i)"
| "pointer_in (Queued_addr i) = Some (Queued i)"
| "pointer_in (Msg_of p) = Some p"
| "pointer_in (Header_of p) = Some (Msg_of p)"
| "pointer_in (Payload_of p) = Some (Msg_of p)"
| "pointer_in _ = Some Cbc_block"

fun heap_run :: "(place \<Rightarrow> nat) \<Rightarrow> action list \<Rightarrow> nat set \<Rightarrow> nat set option" where
  "heap_run adr [] H = Some H"
| "heap_run adr (Read p # as) H = (if adr p \<in> H then heap_run adr as H else None)"
| "heap_run adr (Free p # as) H =
     (if adr p \<in> H \<and> adr ` set_option (pointer_in p) \<subseteq> H then heap_run adr as (H - {adr p}) else None)"

definition freed :: "action list \<Rightarrow> place set" where
  "freed as = {p. Free p \<in> set as}"

definition frees :: "action list \<Rightarrow> int" where
  "frees as = int (length (filter (\<lambda>a. case a of Free _ \<Rightarrow> True | Read _ \<Rightarrow> False) as))"

lemma freed_simps [simp]:
  "freed [] = {}" "freed (Read p # as) = freed as" "freed (Free p # as) = insert p (freed as)"
  "freed (as @ bs) = freed as \<union> freed bs" "freed (concat ass) = (\<Union>as \<in> set ass. freed as)"
  by (auto simp: freed_def)

lemma frees_simps [simp]:
  "frees [] = 0" "frees (Read p # as) = frees as" "frees (Free p # as) = frees as + 1"
  "frees (as @ bs) = frees as + frees bs"
  by (simp_all add: frees_def)

lemma frees_concat: "frees (concat ass) = sum_list (map frees ass)"
  by (induction ass) simp_all

text \<open>
  A script in order, before another one that frees the places \<open>K\<close>: it frees no place twice,
  nor one that is still to be freed, and reads only what is not freed yet, the blocks that hold
  the pointers it passes to \<open>free\<close> included.
\<close>

fun in_order :: "place set \<Rightarrow> action list \<Rightarrow> bool" where
  "in_order K [] = True"
| "in_order K (Read p # as) = (p \<in> freed as \<union> K \<and> in_order K as)"
| "in_order K (Free p # as) = (p \<notin> freed as \<union> K \<and> set_option (pointer_in p) \<subseteq> freed as \<union> K \<and> in_order K as)"

lemma in_order_append: "in_order K (as @ bs) = (in_order (freed bs \<union> K) as \<and> in_order K bs)"
proof (induction as)
  case (Cons a as)
  then show ?case by (cases a) auto
qed simp

lemma in_order_count: "in_order K as \<Longrightarrow> frees as = int (card (freed as)) \<and> finite (freed as)"
proof (induction as)
  case (Cons a as)
  then show ?case by (cases a) auto
qed simp

text \<open>
  A script in order runs to its end exactly when all its places are live and at different
  addresses, and what is left are the other addresses.
\<close>

lemma heap_run_in_order:
  "in_order {} as \<Longrightarrow> heap_run adr as H =
     (if inj_on adr (freed as) \<and> adr ` freed as \<subseteq> H then Some (H - adr ` freed as) else None)"
proof (induction as arbitrary: H)
  case (Cons a as)
  show ?case
  proof (cases a)
    case (Read p)
    with Cons show ?thesis by auto
  next
    case (Free p)
    with Cons.prems have p: "p \<notin> freed as" "in_order {} as" "set_option (pointer_in p) \<subseteq> freed as" by auto
    then have "inj_on adr (insert p (freed as)) \<and> adr ` insert p (freed as) \<subseteq> H \<longleftrightarrow>
        adr p \<in> H \<and> inj_on adr (freed as) \<and> adr ` freed as \<subseteq> H - {adr p}"
      "adr ` freed as \<subseteq> H - {adr p} \<Longrightarrow> adr ` set_option (pointer_in p) \<subseteq> H"
      by (auto simp: inj_on_insert) (metis image_eqI)
    with Cons.IH [OF p(2), of "H - {adr p}"] Free show ?thesis by auto
  qed
qed simp

text \<open>Parts that only need the context after them.\<close>

definition neat :: "action list \<Rightarrow> bool" where
  "neat as \<longleftrightarrow> (\<forall>K. Cbc_block \<in> K \<longrightarrow> K \<inter> freed as = {} \<longrightarrow> in_order K as)"

lemma neatD: "neat as \<Longrightarrow> Cbc_block \<in> K \<Longrightarrow> K \<inter> freed as = {} \<Longrightarrow> in_order K as"
  by (simp add: neat_def)

lemma neat_Nil [simp]: "neat []"
  by (simp add: neat_def)

lemma neat_append: "neat as \<Longrightarrow> neat bs \<Longrightarrow> freed as \<inter> freed bs = {} \<Longrightarrow> neat (as @ bs)"
  unfolding neat_def in_order_append by (auto simp: Int_Un_distrib Int_Un_distrib2 Int_commute)

lemma neat_concat:
  "distinct xs \<Longrightarrow> (\<And>x. x \<in> set xs \<Longrightarrow> neat (f x)) \<Longrightarrow>
   (\<And>x y. x \<in> set xs \<Longrightarrow> y \<in> set xs \<Longrightarrow> x \<noteq> y \<Longrightarrow> freed (f x) \<inter> freed (f y) = {}) \<Longrightarrow> neat (concat (map f xs))"
proof (induction xs)
  case (Cons x xs)
  have "freed (f x) \<inter> freed (concat (map f xs)) = {}"
    using Cons.prems(1,3) by fastforce
  moreover have "neat (f x)" "neat (concat (map f xs))" using Cons by simp_all
  ultimately show ?case using neat_append by simp
qed simp

lemma part_ne [simp]: "Msg_of p \<noteq> p" "Header_of p \<noteq> p" "Payload_of p \<noteq> p"
  "p \<noteq> Msg_of p" "p \<noteq> Header_of p" "p \<noteq> Payload_of p"
  by (induction p) auto

lemma neat_parts [simp]:
  "neat vc_script" "neat (peer_script i)" "neat (outgoing_script i out)"
  by (auto simp: neat_def vc_script_def peer_script_def msg_script_def holder_script_def outgoing_script_def)

lemma neat_holder: "pointer_in p = Some Cbc_block \<Longrightarrow> neat (holder_script p msg)"
  by (auto simp: neat_def msg_script_def holder_script_def)

section \<open>The script of a context\<close>

text \<open>The blocks of a message in the block at \<open>p\<close>, and of a context.\<close>

definition msg_places :: "place \<Rightarrow> cbcast_msg \<Rightarrow> place set" where
  "msg_places p msg = {Msg_of p, Header_of p} \<union> (if payload msg = None then {} else {Payload_of p})"

definition places :: "node \<Rightarrow> place set" where
  "places s = {Cbc_block, Stats_block, Vclock_block, Vclock_array}
     \<union> (if vector_clock_snapshot (stats s) = None then {} else {Snapshot_block})
     \<union> (\<Union>i < length (peers s). {Peer_block i, Peer_addr_block i})
     \<union> (\<Union>i < length (send_queue s). insert (Queued i) (msg_places (Queued i) (out_message (send_queue s ! i)))
          \<union> (if out_addr (send_queue s ! i) = None then {} else {Queued_addr i}))
     \<union> (\<Union>p \<in> set (sent_msg_buffer s). insert (Sent p) (msg_places (Sent p) (sent_message (sent_at s p))))
     \<union> (\<Union>i < length (held_msg_buffer s). insert (Held i) (msg_places (Held i) (rcvd_message (held_msg_buffer s ! i))))
     \<union> (\<Union>i < length (delivery_queue s).
          insert (Deliverable i) (msg_places (Deliverable i) (rcvd_message (delivery_queue s ! i))))"

text \<open>The same in numbers.\<close>

definition blocks_of_outgoing :: "cbcast_outgoing_msg \<Rightarrow> int" where
  "blocks_of_outgoing out = cbc_msg_blocks (out_message out) + (if out_addr out = None then 0 else 1) + 1"

definition blocks_of_received :: "cbcast_received_msg \<Rightarrow> int" where
  "blocks_of_received h = cbc_msg_blocks (rcvd_message h) + 1"

text \<open>The context itself, the statistics and the two blocks of the vector clock are the 4.\<close>

definition owned :: "node \<Rightarrow> int" where
  "owned s = 4 + (if vector_clock_snapshot (stats s) = None then 0 else 1) + 2 * int (length (peers s))
     + sum_list (map blocks_of_outgoing (send_queue s)) + sum_list (map blocks_of_sent (sent_list s))
     + sum_list (map blocks_of_received (held_msg_buffer s)) + sum_list (map blocks_of_received (delivery_queue s))"

lemma freed_parts [simp]:
  "freed vc_script = {Vclock_block, Vclock_array}" "freed (peer_script i) = {Peer_block i, Peer_addr_block i}"
  "freed (msg_script p msg) = msg_places p msg" "freed (holder_script p msg) = insert p (msg_places p msg)"
  "freed (outgoing_script i out) = insert (Queued i) (msg_places (Queued i) (out_message out))
     \<union> (if out_addr out = None then {} else {Queued_addr i})"
  by (auto simp: vc_script_def peer_script_def msg_script_def holder_script_def outgoing_script_def msg_places_def)

lemma freed_received [simp]:
  "freed (received_script pl hs) = (\<Union>i < length hs. insert (pl i) (msg_places (pl i) (rcvd_message (hs ! i))))"
  by (auto simp: received_script_def)

lemma frees_parts [simp]:
  "frees vc_script = 2" "frees (peer_script i) = 2" "frees (msg_script p msg) = cbc_msg_blocks msg"
  "frees (holder_script p msg) = cbc_msg_blocks msg + 1"
  "frees (outgoing_script i out) = cbc_msg_blocks (out_message out) + (if out_addr out = None then 0 else 1) + 1"
  by (simp_all add: vc_script_def peer_script_def msg_script_def holder_script_def outgoing_script_def cbc_msg_blocks_def)

text \<open>The scripts free as many blocks as the functions they belong to.\<close>

lemma scripts_count:
  "c_free (frees vc_script) m = vc_free (Some vc) m"
  "c_free (frees (msg_script p msg)) m = cbc_msg_free (Some msg) m"
  "c_free (frees (outgoing_script i out)) m = cbc_outgoing_msg_free (Some (out_message out)) (out_addr out) m"
  "c_free (frees (holder_script p (sent_message x))) m = cbc_sent_msg_free x m"
  "c_free (frees (holder_script p (rcvd_message h))) m = cbc_received_msg_free h m"
  by (simp_all add: vc_free_def cbc_msg_free_def cbc_outgoing_msg_free_def cbc_sent_msg_free_def
      cbc_received_msg_free_def c_free_def Let_def)

lemma sent_script_live:
  "distinct ps \<Longrightarrow> \<forall>p \<in> set ps. h p \<noteq> None \<Longrightarrow>
     sent_script ps h = Inr (concat (map (\<lambda>p. holder_script (Sent p) (sent_message (the (h p)))) ps))"
proof (induction ps arbitrary: h)
  case (Cons p ps)
  then obtain x where x: "h p = Some x" by auto
  have "map (\<lambda>q. holder_script (Sent q) (sent_message (the ((h(p := None)) q)))) ps
      = map (\<lambda>q. holder_script (Sent q) (sent_message (the (h q)))) ps" using Cons.prems(1) by auto
  moreover have "sent_script ps (h(p := None))
      = Inr (concat (map (\<lambda>q. holder_script (Sent q) (sent_message (the ((h(p := None)) q)))) ps))"
    by (rule Cons.IH) (use Cons.prems in auto)
  ultimately show ?case using x by (simp only: sent_script.simps) simp
qed simp

lemma neat_received:
  assumes "inj pl" "\<And>i. pointer_in (pl i) = Some Cbc_block" "\<And>i q. pl i \<noteq> Msg_of q" "\<And>i q. pl i \<noteq> Header_of q" "\<And>i q. pl i \<noteq> Payload_of q"
  shows "neat (received_script pl hs)"
  unfolding received_script_def
proof (rule neat_concat)
  fix i j :: nat assume "i \<noteq> j"
  then have "pl i \<noteq> pl j" using assms(1) by (auto dest: injD)
  then show "freed (holder_script (pl i) (rcvd_message (hs ! i))) \<inter> freed (holder_script (pl j) (rcvd_message (hs ! j))) = {}"
    using assms(3-5) [of i "pl j"] assms(3-5) [of j "pl i"] by (auto simp: msg_places_def)
qed (simp_all add: neat_holder assms(2))

text \<open>The parts of the context free blocks of different kinds.\<close>

fun area :: "place \<Rightarrow> nat" where
  "area Cbc_block = 0" | "area Stats_block = 1" | "area Snapshot_block = 1" | "area (Deliverable i) = 2"
| "area (Held i) = 3" | "area (Sent p) = 4" | "area (Queued i) = 5" | "area (Queued_addr i) = 5"
| "area (Peer_block i) = 6" | "area (Peer_addr_block i) = 6" | "area Vclock_block = 7" | "area Vclock_array = 7"
| "area (Msg_of p) = area p" | "area (Header_of p) = area p" | "area (Payload_of p) = area p"

definition ends_script :: "nat \<Rightarrow> action list \<Rightarrow> bool" where
  "ends_script k as \<longleftrightarrow> in_order {} as \<and> (\<forall>p \<in> freed as. area p < k) \<and> Cbc_block \<in> freed as"

lemma ends_scriptI:
  assumes "neat as" "\<forall>p \<in> freed as. area p = k" "ends_script k bs"
  shows "ends_script (Suc k) (Read Cbc_block # as @ bs)"
proof -
  have "freed bs \<inter> freed as = {}" using assms(2,3) by (fastforce simp: ends_script_def)
  moreover have "Cbc_block \<in> freed bs" using assms(3) by (simp add: ends_script_def)
  ultimately have "in_order (freed bs) as" by (simp add: neatD [OF assms(1)])
  then show ?thesis using assms(2,3) by (fastforce simp: ends_script_def in_order_append)
qed

lemma area_msg: "q \<in> msg_places p msg \<Longrightarrow> area q = area p"
  by (auto simp: msg_places_def split: if_splits)

lemma free_script_ok:
  assumes "sent_ok s"
  shows "\<exists>as. free_script (Some (vclock s)) (Some (stats s)) s = Inr as \<and> in_order {} as \<and> freed as = places s
     \<and> frees as = owned s"
proof -
  define sent where "sent = concat (map (\<lambda>p. holder_script (Sent p) (sent_message (the (sent_heap s p)))) (sent_msg_buffer s))"
  define prs where "prs = concat (map peer_script [0..<length (peers s)])"
  define out where "out = concat (map (\<lambda>i. outgoing_script i (send_queue s ! i)) [0..<length (send_queue s)])"
  define st where "st = Read Stats_block # (if vector_clock_snapshot (stats s) \<noteq> None then [Free Snapshot_block] else [])
      @ [Free Stats_block]"
  let ?held = "received_script Held (held_msg_buffer s)" and ?dlv = "received_script Deliverable (delivery_queue s)"
  have d: "distinct (sent_msg_buffer s)" using assms by (simp add: sent_ok_def)
  have run: "sent_script (sent_msg_buffer s) (sent_heap s) = Inr sent"
    using sent_script_live [OF d] sent_ok_live' [OF assms] by (simp only: sent_def)
  have F: "freed sent = (\<Union>p \<in> set (sent_msg_buffer s). insert (Sent p) (msg_places (Sent p) (sent_message (sent_at s p))))"
    "freed prs = (\<Union>i < length (peers s). {Peer_block i, Peer_addr_block i})"
    "freed out = (\<Union>i < length (send_queue s). insert (Queued i) (msg_places (Queued i) (out_message (send_queue s ! i)))
          \<union> (if out_addr (send_queue s ! i) = None then {} else {Queued_addr i}))"
    "freed st = {Stats_block} \<union> (if vector_clock_snapshot (stats s) = None then {} else {Snapshot_block})"
    by (simp_all add: sent_def sent_at_def prs_def out_def st_def lessThan_atLeast0)
  have 1: "ends_script (Suc 0) [Free Cbc_block]" by (simp add: ends_script_def)
  have 2: "ends_script 2 (Read Cbc_block # st @ [Free Cbc_block])"
    using ends_scriptI [OF _ _ 1, of st] F(4) by (simp add: numeral_2_eq_2) (auto simp: st_def neat_def)
  have 3: "ends_script 3 (Read Cbc_block # ?dlv @ Read Cbc_block # st @ [Free Cbc_block])"
    using ends_scriptI [OF neat_received _ 2, of Deliverable] by (auto simp: inj_def area_msg)
  have 4: "ends_script 4 (Read Cbc_block # ?held @ Read Cbc_block # ?dlv @ Read Cbc_block # st @ [Free Cbc_block])"
    using ends_scriptI [OF neat_received _ 3, of Held] by (auto simp: inj_def area_msg)
  have "neat sent" unfolding sent_def by (rule neat_concat [OF d]) (auto simp: msg_places_def neat_holder)
  then have 5: "ends_script 5 (Read Cbc_block # sent @ Read Cbc_block # ?held @ Read Cbc_block # ?dlv
      @ Read Cbc_block # st @ [Free Cbc_block])"
    using ends_scriptI [OF _ _ 4, of sent] by (auto simp: F(1) area_msg)
  have "neat out" unfolding out_def by (rule neat_concat) (auto simp: msg_places_def)
  then have 6: "ends_script 6 (Read Cbc_block # out @ Read Cbc_block # sent @ Read Cbc_block # ?held
      @ Read Cbc_block # ?dlv @ Read Cbc_block # st @ [Free Cbc_block])"
    using ends_scriptI [OF _ _ 5, of out] by (auto simp: F(3) area_msg split: if_splits)
  have "neat prs" unfolding prs_def by (rule neat_concat) auto
  then have 7: "ends_script 7 (Read Cbc_block # prs @ Read Cbc_block # out @ Read Cbc_block # sent @ Read Cbc_block # ?held
      @ Read Cbc_block # ?dlv @ Read Cbc_block # st @ [Free Cbc_block])"
    using ends_scriptI [OF _ _ 6, of prs] by (auto simp: F(2))
  define all where "all = Read Cbc_block # vc_script @ Read Cbc_block # prs @ Read Cbc_block # out @ Read Cbc_block # sent
      @ Read Cbc_block # ?held @ Read Cbc_block # ?dlv @ Read Cbc_block # st @ [Free Cbc_block]"
  have "ends_script 8 all" using ends_scriptI [OF neat_parts(1) _ 7] by (simp add: all_def)
  then have "in_order {} all" by (simp add: ends_script_def)
  moreover have "freed all = places s" unfolding all_def places_def by (simp add: F) blast
  moreover have "frees all = owned s"
  proof -
    have idx: "map (\<lambda>i. f (xs ! i)) [0..<length xs] = map f xs" for f :: "'x \<Rightarrow> int" and xs
      by (rule nth_equalityI) simp_all
    have "frees prs = 2 * int (length (peers s))"
      by (simp add: prs_def frees_concat comp_def sum_list_triv)
    moreover have "frees out = sum_list (map blocks_of_outgoing (send_queue s))"
      using idx [of blocks_of_outgoing "send_queue s"] by (simp add: out_def frees_concat comp_def blocks_of_outgoing_def)
    moreover have "frees sent = sum_list (map blocks_of_sent (sent_list s))"
      by (simp add: sent_def frees_concat comp_def blocks_of_sent_def sent_list_def sent_at_def)
    moreover have "frees (received_script pl hs) = sum_list (map blocks_of_received hs)" for pl hs
      using idx [of blocks_of_received hs] by (simp add: received_script_def frees_concat comp_def blocks_of_received_def)
    ultimately show ?thesis by (simp add: all_def st_def owned_def)
  qed
  moreover have "free_script (Some (vclock s)) (Some (stats s)) s = Inr all"
    unfolding free_script_def run all_def by (simp add: prs_def out_def st_def)
  ultimately show ?thesis by blast
qed

end
