(* ===== verification/Init.thy ===== *)
theory Init
  imports Network Release
begin

text \<open>
  \<open>src/cbcast/init.c\<close>: creating, starting, stopping and freeing a context.

  \<open>os\<close> is what the code asks of the operating system beside memory: the open descriptors,
  the address the socket is bound to, the mutexes that are initialised, those destroyed
  without ever being initialised, and the running threads. What \<open>socket\<close>, \<open>bind\<close>,
  \<open>pthread_mutex_init\<close> and \<open>pthread_create\<close> return are parameters. \<open>cbc_init\<close> fills the
  fields of the context in a \<open>node\<close> whose other fields are the world the process starts in.
  The blocks that the arrays of \<open>stb_ds.h\<close> own are not counted.
\<close>

section \<open>Operating system\<close>

datatype thread = Send_thread | Recv_thread

record os =
  open_fds :: "int set"
  bound_to :: "(int \<times> u16 \<times> u32) option"
  mutexes :: "lock set"
  raw_destroys :: "lock list"
  threads :: "thread set"

text \<open>
  \<open>pthread_mutex_init\<close> of one mutex, which succeeds for the mutexes \<open>mutex_ok\<close> says. When it
  fails, the mutex is left uninitialised; the caller may ignore that.
\<close>

definition init_lock :: "(lock \<Rightarrow> bool) \<Rightarrow> lock \<Rightarrow> os \<Rightarrow> os" where
  "init_lock mutex_ok l w = (if mutex_ok l then w\<lparr>mutexes := insert l (mutexes w)\<rparr> else w)"

lemma init_lock_fields:
  "open_fds (init_lock mutex_ok l w) = open_fds w" "bound_to (init_lock mutex_ok l w) = bound_to w"
  "mutexes (init_lock mutex_ok l w) = (if mutex_ok l then insert l (mutexes w) else mutexes w)"
  by (simp_all add: init_lock_def)

definition destroy_lock :: "lock \<Rightarrow> os \<Rightarrow> os" where
  "destroy_lock l w = (if l \<in> mutexes w then w\<lparr>mutexes := mutexes w - {l}\<rparr>
     else w\<lparr>raw_destroys := raw_destroys w @ [l]\<rparr>)"

definition close_fd :: "int \<Rightarrow> os \<Rightarrow> os" where
  "close_fd fd w = w\<lparr>open_fds := open_fds w - {fd}\<rparr>"

definition INADDR_LOOPBACK_be :: u32 where
  "INADDR_LOOPBACK_be = 0x0100007F"

section \<open>Freeing a context\<close>

text \<open>
  The vector clock and the statistics are the pointers that may still be NULL; the other
  fields are those of the context. \<open>vc_free\<close> destroys the mutex of the clock. The value is the
  allocator and the operating system after; \<open>free_script\<close> has the blocks that are freed.
\<close>

definition cbc_free ::
  "vector_clock option \<Rightarrow> cbcast_stats option \<Rightarrow> node \<Rightarrow> os \<Rightarrow> (memory \<times> os) res" where
  "cbc_free vc st s w =
     andthen (free_script vc st s) (\<lambda>as.
     let w = (if vc \<noteq> None then destroy_lock VCLOCK_MTX w else w);
         w = (if socket_fd s \<ge> 0 then close_fd (socket_fd s) w else w);
         w = destroy_lock PEER_LOCK (destroy_lock RECV_LOCK (destroy_lock SEND_LOCK (destroy_lock STATS_LOCK w)))
     in Inr (c_free (frees as) (mem s), w))"

section \<open>Creating a context\<close>

text \<open>The context as \<open>calloc\<close> leaves it: no messages, no peers, descriptor 0.\<close>

definition zeroed :: "node \<Rightarrow> node" where
  "zeroed s = s\<lparr>socket_fd := 0, pid := 0, state := CBC_STATE_NORMAL, peers := [], send_queue := [],
     sent_msg_buffer := [], held_msg_buffer := [], delivery_queue := [], stats := zero_stats\<rparr>"

lemma zeroed_fields: "socket_fd (zeroed s) = 0" "mem (zeroed s) = mem s"
  by (simp_all add: zeroed_def)

text \<open>A context in this state owns nothing but itself.\<close>

lemma free_script_zeroed:
  "free_script None None (zeroed s) = Inr [Read Cbc_block, Read Cbc_block, Read Cbc_block, Read Cbc_block,
     Read Cbc_block, Read Cbc_block, Read Cbc_block, Free Cbc_block]"
  by (simp add: free_script_def zeroed_def received_script_def)

definition cbc_init ::
  "(lock \<Rightarrow> bool) \<Rightarrow> int \<Rightarrow> int \<Rightarrow> u64 \<Rightarrow> u64 \<Rightarrow> u16 \<Rightarrow> node \<Rightarrow> os \<Rightarrow> (unit Result \<times> node \<times> os) res" where
  "cbc_init mutex_ok socket_ret bind_ret p max_p port s w =
     (if max_p = 0 \<or> p \<ge> max_p then Inr (result_new_err ''[cbc_init] args'', s, w)
      else
        let (cbc, m) = calloc (mem s) in
        if \<not> cbc then Inr (result_new_err ''[cbc_init] failed to malloc cbcast_t'', s\<lparr>mem := m\<rparr>, w)
        else
          let (st, m) = calloc m in
          if \<not> st
          then andthen (cbc_free None None (zeroed (s\<lparr>mem := m\<rparr>)) w) (\<lambda>(m, w).
               Inr (result_new_err ''[cbc_init] failed to malloc stats'', s\<lparr>mem := m\<rparr>, w))
          else
            let (r, m) = vc_init (mutex_ok VCLOCK_MTX) max_p m in
            andthen (result_expect r ''[cbc_init] failed to init vclock'') (\<lambda>vc.
            let w = init_lock mutex_ok VCLOCK_MTX w in
            if socket_ret < 0
            then Inr (result_new_err ''[cbc_init] failed to create socket'',
                      s\<lparr>mem := c_free 1 (vc_free (Some vc) m)\<rparr>, destroy_lock VCLOCK_MTX w)
            else
              let w = w\<lparr>open_fds := insert socket_ret (open_fds w)\<rparr> in
              if bind_ret < 0
              then Inr (result_new_err ''[cbc_init] failed to bind socket'',
                        s\<lparr>mem := c_free 1 (vc_free (Some vc) m)\<rparr>, destroy_lock VCLOCK_MTX (close_fd socket_ret w))
              else
                let w = w\<lparr>bound_to := Some (socket_ret, htons port, INADDR_LOOPBACK_be)\<rparr>;
                    w = init_lock mutex_ok PEER_LOCK w;
                    w = init_lock mutex_ok SEND_LOCK w;
                    w = init_lock mutex_ok RECV_LOCK w;
                    w = init_lock mutex_ok STATS_LOCK w
                in Inr (result_new_ok (),
                        (zeroed s)\<lparr>socket_fd := socket_ret, pid := p, vclock := vc, mem := m\<rparr>, w)))"

section \<open>Threads\<close>

text \<open>What \<open>pthread_create\<close> returns is not looked at.\<close>

definition cbc_start :: "bool \<Rightarrow> bool \<Rightarrow> node option \<Rightarrow> os \<Rightarrow> unit Result \<times> os" where
  "cbc_start send_created recv_created cbc w =
     (if cbc = None then (result_new_err ''[cbc_start] Invalid arguments'', w)
      else
        let w = (if send_created then w\<lparr>threads := insert Send_thread (threads w)\<rparr> else w);
            w = (if recv_created then w\<lparr>threads := insert Recv_thread (threads w)\<rparr> else w)
        in (result_new_ok (), w))"

text \<open>Cancelling or joining a thread that was never created has no meaning.\<close>

definition cbc_stop :: "node option \<Rightarrow> os \<Rightarrow> os res" where
  "cbc_stop cbc w =
     (if cbc = None then Inr w
      else if Send_thread \<notin> threads w \<or> Recv_thread \<notin> threads w
      then Inl (Undefined_behaviour ''pthread_cancel of an invalid thread'')
      else Inr (w\<lparr>threads := threads w - {Send_thread, Recv_thread}\<rparr>))"

section \<open>Freeing releases what the context owns\<close>

lemma cbc_free_live:
  assumes ok: "sent_ok s"
  shows "\<exists>m'. cbc_free (Some (vclock s)) (Some (stats s)) s w = Inr (m',
       destroy_lock PEER_LOCK (destroy_lock RECV_LOCK (destroy_lock SEND_LOCK (destroy_lock STATS_LOCK
         (if socket_fd s \<ge> 0 then close_fd (socket_fd s) (destroy_lock VCLOCK_MTX w) else destroy_lock VCLOCK_MTX w)))))
     \<and> live m' = live (mem s) - owned s"
  using free_script_ok [OF ok] by (auto simp: cbc_free_def Let_def)

section \<open>Properties\<close>

lemma vc_init_run:
  assumes "sz \<noteq> 0"
  obtains (fails) e m' where "vc_init mutex_ok sz m = (result_new_err e, m')"
      "\<not> (mutex_ok \<and> alloc_ok m (allocs m) \<and> alloc_ok m (Suc (allocs m)))"
  | (makes) m' where "vc_init mutex_ok sz m = (result_new_ok \<lparr>vc_clock = replicate (unat sz) 0, vc_len = sz\<rparr>, m')"
      "live m' = live m + 2" "alloc_ok m' = alloc_ok m" "allocs m' = allocs m + 2"
      mutex_ok "alloc_ok m (allocs m)" "alloc_ok m (Suc (allocs m))"
proof (cases "mutex_ok \<and> alloc_ok m (allocs m) \<and> alloc_ok m (Suc (allocs m))")
  case True
  with assms show thesis
    by (intro makes [of "m\<lparr>allocs := allocs m + 2, live := live m + 2\<rparr>"]) (simp_all add: vc_init_def calloc_def Let_def)
next
  case False
  have "\<exists>e. fst (vc_init mutex_ok sz m) = result_new_err e"
    using assms False by (auto simp: vc_init_def calloc_def Let_def)
  then show thesis using False fails by (metis prod.collapse)
qed

text \<open>
  What decides the outcome: whether the arguments are valid and the first two allocations (the
  context and the statistics) succeed, and whether the vector clock can then be made, which
  takes the next two allocations and its mutex.
\<close>

definition base_made :: "u64 \<Rightarrow> u64 \<Rightarrow> memory \<Rightarrow> bool" where
  "base_made p max_p m \<longleftrightarrow> p < max_p \<and> alloc_ok m (allocs m) \<and> alloc_ok m (allocs m + 1)"

definition clock_made :: "(lock \<Rightarrow> bool) \<Rightarrow> memory \<Rightarrow> bool" where
  "clock_made mutex_ok m \<longleftrightarrow> alloc_ok m (allocs m + 2) \<and> alloc_ok m (allocs m + 3) \<and> mutex_ok VCLOCK_MTX"

text \<open>
  C30: cbc_init, for all arguments and every pattern of allocation failures and of results of
  pthread_mutex_init (of each of the five mutexes), socket and bind. It ends the process exactly
  when the context and the statistics are allocated but the vector clock cannot be made. It
  succeeds exactly when these are made and the socket and the bind succeed, and then gives an
  empty context with a zero vector clock, four blocks allocated, the socket open and bound to
  the loopback address; of the mutexes of the context exactly those are initialised whose
  pthread_mutex_init succeeds: a failure of one is ignored. When it reports an error, it has
  leaked the statistics block if the socket or the bind failed and nothing otherwise, and no
  mutex is left initialised; if the statistics block could not be allocated, it has closed
  descriptor 0, which it does not own, and destroyed four mutexes that were never initialised.
\<close>

theorem cbc_init_outcomes:
  "case cbc_init mutex_ok socket_ret bind_ret p max_p port s w of
     Inl e \<Rightarrow> (\<exists>why. e = Exit_failure why) \<and> base_made p max_p (mem s) \<and> \<not> clock_made mutex_ok (mem s)
   | Inr (Inr u, s', w') \<Rightarrow> base_made p max_p (mem s) \<and> clock_made mutex_ok (mem s) \<and> 0 \<le> socket_ret \<and> 0 \<le> bind_ret
       \<and> s' = (zeroed s)\<lparr>socket_fd := socket_ret, pid := p, mem := mem s',
            vclock := \<lparr>vc_clock = replicate (unat max_p) 0, vc_len = max_p\<rparr>\<rparr>
       \<and> live (mem s') = live (mem s) + 4
       \<and> open_fds w' = insert socket_ret (open_fds w)
       \<and> bound_to w' = Some (socket_ret, htons port, INADDR_LOOPBACK_be)
       \<and> mutexes w' = mutexes w \<union> {l. mutex_ok l}
   | Inr (Inl e, s', w') \<Rightarrow>
       \<not> (base_made p max_p (mem s) \<and> (\<not> clock_made mutex_ok (mem s) \<or> 0 \<le> socket_ret \<and> 0 \<le> bind_ret))
       \<and> s' = s\<lparr>mem := mem s'\<rparr> \<and> bound_to w' = bound_to w
       \<and> live (mem s') = live (mem s) + (if e = ''[cbc_init] failed to create socket''
            \<or> e = ''[cbc_init] failed to bind socket'' then 1 else 0)
       \<and> open_fds w' = (if e = ''[cbc_init] failed to malloc stats'' then open_fds w - {0}
            else if e = ''[cbc_init] failed to bind socket'' then open_fds w - {socket_ret} else open_fds w)
       \<and> (mutexes w = {} \<longrightarrow> mutexes w' = {} \<and> raw_destroys w' = raw_destroys w
            @ (if e = ''[cbc_init] failed to malloc stats'' then [STATS_LOCK, SEND_LOCK, RECV_LOCK, PEER_LOCK] else []))"
proof -
  define m1 where "m1 = snd (calloc (mem s))"
  define m2 where "m2 = snd (calloc m1)"
  show ?thesis
  proof (cases "base_made p max_p (mem s)")
    case False
    then show ?thesis
      by (auto simp: base_made_def cbc_init_def calloc_def Let_def cbc_free_def free_script_zeroed zeroed_fields close_fd_def
          destroy_lock_def result_new_err_def not_less)
  next
    case True
    have c: "calloc (mem s) = (True, m1)" "calloc m1 = (True, m2)"
      using True by (simp_all add: base_made_def m1_def m2_def calloc_def)
    have p: "max_p \<noteq> 0" "\<not> p \<ge> max_p" "p < max_p" using True by (auto simp: base_made_def)
    note run = c p cbc_init_def Let_def
    have m2: "live m2 = live (mem s) + 2" "alloc_ok m2 = alloc_ok (mem s)" "allocs m2 = allocs (mem s) + 2"
      using True by (simp_all add: base_made_def m1_def m2_def calloc_def)
    show ?thesis
    proof (cases rule: vc_init_run [OF p(1), of "mutex_ok VCLOCK_MTX" m2])
      case (1 e m)
      then have "\<not> clock_made mutex_ok (mem s)" using m2(2,3) by (auto simp: clock_made_def numeral_3_eq_3)
      with 1(1) True show ?thesis by (simp add: run result_expect_def result_new_err_def)
    next
      case (2 m)
      then have made: "clock_made mutex_ok (mem s)" using m2(2,3) by (simp add: clock_made_def numeral_3_eq_3)
      note v = 2(1,2,5)
      have all: "{l. mutex_ok l} = {l \<in> {PEER_LOCK, SEND_LOCK, RECV_LOCK, STATS_LOCK, VCLOCK_MTX}. mutex_ok l}"
        using lock.exhaust by auto
      consider "socket_ret < 0" | "0 \<le> socket_ret" "bind_ret < 0" | "0 \<le> socket_ret" "0 \<le> bind_ret" by linarith
      then show ?thesis
      proof cases
        case 1
        then have "cbc_init mutex_ok socket_ret bind_ret p max_p port s w
            = Inr (result_new_err ''[cbc_init] failed to create socket'', s\<lparr>mem := c_free 3 m\<rparr>,
                destroy_lock VCLOCK_MTX (init_lock mutex_ok VCLOCK_MTX w))"
          using v by (simp add: run vc_free_def c_free_def)
        with True made v m2(1) 1 show ?thesis by (simp add: result_new_err_def init_lock_def destroy_lock_def)
      next
        case 2
        then have "cbc_init mutex_ok socket_ret bind_ret p max_p port s w
            = Inr (result_new_err ''[cbc_init] failed to bind socket'', s\<lparr>mem := c_free 3 m\<rparr>,
                destroy_lock VCLOCK_MTX (close_fd socket_ret
                  ((init_lock mutex_ok VCLOCK_MTX w)\<lparr>open_fds := insert socket_ret (open_fds (init_lock mutex_ok VCLOCK_MTX w))\<rparr>)))"
          using v by (simp add: run vc_free_def c_free_def)
        with True made v m2(1) 2 show ?thesis
          by (simp add: result_new_err_def init_lock_def destroy_lock_def close_fd_def)
      next
        case 3
        let ?w = "init_lock mutex_ok STATS_LOCK (init_lock mutex_ok RECV_LOCK (init_lock mutex_ok SEND_LOCK
            (init_lock mutex_ok PEER_LOCK ((init_lock mutex_ok VCLOCK_MTX w)
              \<lparr>open_fds := insert socket_ret (open_fds (init_lock mutex_ok VCLOCK_MTX w)),
                bound_to := Some (socket_ret, htons port, INADDR_LOOPBACK_be)\<rparr>))))"
        from 3 have "cbc_init mutex_ok socket_ret bind_ret p max_p port s w = Inr (result_new_ok (),
            (zeroed s)\<lparr>socket_fd := socket_ret, pid := p, mem := m,
              vclock := \<lparr>vc_clock = replicate (unat max_p) 0, vc_len = max_p\<rparr>\<rparr>, ?w)"
          using v by (simp add: run)
        moreover have "mutexes ?w = mutexes w \<union> {l. mutex_ok l}"
          unfolding all by (auto simp: init_lock_fields)
        ultimately show ?thesis using True made v(2) m2(1) 3
          by (simp add: result_new_ok_def init_lock_fields)
      qed
    qed
  qed
qed

definition fresh_os :: os where
  "fresh_os = \<lparr>open_fds = {0, 1, 2}, bound_to = None, mutexes = {}, raw_destroys = [], threads = {}\<rparr>"

text \<open>A world in which the second allocation fails.\<close>

definition second_fails :: node where
  "second_fails = (initial_node 0 0 [])\<lparr>mem := \<lparr>alloc_ok = (\<lambda>i. i \<noteq> 1), allocs = 0, live = 0\<rparr>\<rparr>"

theorem cbc_init_outcomes_witness:
  "\<exists>s' w'. cbc_init (\<lambda>_. True) 3 0 0 5 12345 second_fails fresh_os
       = Inr (result_new_err ''[cbc_init] failed to malloc stats'', s', w')
     \<and> open_fds w' = {1, 2} \<and> raw_destroys w' = [STATS_LOCK, SEND_LOCK, RECV_LOCK, PEER_LOCK]"
proof -
  obtain s' w' where run: "cbc_init (\<lambda>_. True) 3 0 0 5 12345 second_fails fresh_os
       = Inr (result_new_err ''[cbc_init] failed to malloc stats'', s', w')"
    by (simp add: cbc_init_def calloc_def second_fails_def cbc_free_def free_script_zeroed)
  have "mutexes fresh_os = {}" "open_fds fresh_os = {0, 1, 2}" "raw_destroys fresh_os = []"
    by (simp_all add: fresh_os_def)
  with cbc_init_outcomes [where mutex_ok = "\<lambda>_. True" and socket_ret = 3 and bind_ret = 0 and p = 0 and max_p = 5
      and port = 12345 and s = second_fails and w = fresh_os] run show ?thesis
    by (auto simp: result_new_err_def)
qed

text \<open>
  C31: cbc_free, in every state of a process, whatever addresses its pointers hold and whatever
  is live: when the blocks of the context (itself, its statistics with the snapshot, its vector
  clock with the array, its peers with their addresses, and every queued, sent, held and
  deliverable message with its header, payload and holder) are live and at different addresses,
  it reads no freed block, frees each of them exactly once and frees nothing else; when one of
  them is not live, or two pointers hold the same address, it reads or frees a dead block. It
  closes the socket and destroys the five initialised mutexes.
\<close>

theorem cbc_free_releases:
  assumes "proc_inv s" "0 \<le> socket_fd s"
    and "{STATS_LOCK, SEND_LOCK, RECV_LOCK, PEER_LOCK, VCLOCK_MTX} \<subseteq> mutexes w"
  shows "\<exists>as m' w'. free_script (Some (vclock s)) (Some (stats s)) s = Inr as
     \<and> heap_run adr as H = (if inj_on adr (places s) \<and> adr ` places s \<subseteq> H then Some (H - adr ` places s) else None)
     \<and> cbc_free (Some (vclock s)) (Some (stats s)) s w = Inr (m', w')
     \<and> live m' = live (mem s) - int (card (places s)) \<and> int (card (places s)) = owned s
     \<and> open_fds w' = open_fds w - {socket_fd s}
     \<and> mutexes w' = mutexes w - {STATS_LOCK, SEND_LOCK, RECV_LOCK, PEER_LOCK, VCLOCK_MTX}
     \<and> raw_destroys w' = raw_destroys w"
proof -
  have "sent_ok s" using assms(1) by (simp add: proc_inv_def)
  from free_script_ok [OF this] obtain as where as: "free_script (Some (vclock s)) (Some (stats s)) s = Inr as"
    "in_order {} as" "freed as = places s" "frees as = owned s" by blast
  moreover have "int (card (places s)) = owned s" using in_order_count [OF as(2)] as(3,4) by simp
  moreover note heap_run_in_order [OF as(2), of adr H, unfolded as(3)]
  ultimately show ?thesis
    using assms(2,3) by (auto simp: cbc_free_def destroy_lock_def close_fd_def)
qed

theorem cbc_free_releases_witness:
  "\<exists>as m' w' adr. free_script (Some (vclock queue_example)) (Some (stats queue_example)) queue_example = Inr as
     \<and> heap_run adr as {..<20} = Some {16..<20} \<and> heap_run (\<lambda>_. 0) as {0} = None
     \<and> cbc_free (Some (vclock queue_example)) (Some (stats queue_example)) queue_example
       (fresh_os\<lparr>open_fds := {0, 1, 2, 3}, mutexes := UNIV\<rparr>) = Inr (m', w')
     \<and> live m' = - 16 \<and> open_fds w' = {0, 1, 2} \<and> raw_destroys w' = []"
proof -
  let ?w = "fresh_os\<lparr>open_fds := {0, 1, 2, 3}, mutexes := UNIV\<rparr>" and ?q = queue_example
  have f: "socket_fd ?q = 3" "raw_destroys ?w = []" "live (mem ?q) = 0" "0 \<le> socket_fd ?q"
      "{STATS_LOCK, SEND_LOCK, RECV_LOCK, PEER_LOCK, VCLOCK_MTX} \<subseteq> mutexes ?w" "open_fds ?w = {0, 1, 2, 3}"
    by (simp_all add: queue_example_def new_node_def fresh_os_def fresh_memory_def)
  note free = cbc_free_releases [OF queue_example_inv f(4,5)]
  have o: "owned ?q = 16"
    by (simp add: owned_def queue_example_def zero_stats_def sent_list_def blocks_of_outgoing_def cbc_msg_blocks_def)
  then have c: "card (places ?q) = 16" using free [of "\<lambda>_. 0" "{}"] by auto
  then have "finite (places ?q)" by (intro card_ge_0_finite) simp
  from finite_imp_inj_to_nat_seg [OF this] obtain adr and n :: nat where adr: "adr ` places ?q = {i. i < n}" "inj_on adr (places ?q)"
    by auto
  then have "n = 16" using card_image [OF adr(2)] c by simp
  then have img: "adr ` places ?q = {..<16 :: nat}" using adr(1) by auto
  have one_address: "\<not> inj_on (\<lambda>_. 0 :: nat) (places ?q)"
    by (rule notI, drule inj_onD [of _ _ Cbc_block Stats_block]) (simp_all add: places_def)
  have rest: "{..<20} - {..<16} = {16..<20 :: nat}" "{..<16} \<subseteq> {..<20 :: nat}" by auto
  from free [of adr "{..<20}"] free [of "\<lambda>_. 0" "{0}"] show ?thesis
    using adr(2) one_address f(1-3,6) o c unfolding img rest(1) by (auto simp: rest(2))
qed

end
