(* ===== verification/Statistics.thy ===== *)
theory Statistics
  imports Init
begin

text \<open>
  \<open>src/cbcast/statistics.c\<close>: the snapshot of a context's counters as JSON and the log record
  around it. cJSON is not part of the repository: its constructors and its printer are the
  fields of the parameter \<open>'j cjson\<close>, \<open>create_number\<close> with the conversion of a 64-bit
  counter to a double inside. The clock is a parameter too. libcurl is the parameter
  \<open>'c curl\<close>, calls on its state, in which the network and the server are.
\<close>

record 'j cjson =
  create_object :: 'j
  create_array :: 'j
  create_number :: "u64 \<Rightarrow> 'j"
  create_string :: "string \<Rightarrow> 'j"
  add_to_object :: "'j \<Rightarrow> string \<Rightarrow> 'j \<Rightarrow> 'j"
  add_to_array :: "'j \<Rightarrow> 'j \<Rightarrow> 'j"
  print_unformatted :: "'j \<Rightarrow> string"

section \<open>Decimal numerals\<close>

definition digit :: "nat \<Rightarrow> char" where
  "digit d = char_of (48 + d)"

fun decimal :: "nat \<Rightarrow> string" where
  "decimal n = (if n < 10 then [digit n] else decimal (n div 10) @ [digit (n mod 10)])"

declare decimal.simps [simp del]

text \<open>The conversion \<open>%09ld\<close> for \<open>w = 9\<close>.\<close>

definition zero_padded :: "nat \<Rightarrow> nat \<Rightarrow> string" where
  "zero_padded w n = replicate (w - length (decimal n)) (digit 0) @ decimal n"

definition value_of :: "string \<Rightarrow> nat" where
  "value_of ds = foldl (\<lambda>v c. 10 * v + (of_char c - 48)) 0 ds"

lemma digit_value: "d < 10 \<Longrightarrow> of_char (digit d) - 48 = d"
  by (simp add: digit_def)

lemma value_of_snoc: "value_of (ds @ [c]) = 10 * value_of ds + (of_char c - 48)"
  by (simp add: value_of_def)

lemma value_of_decimal: "value_of (decimal n) = n"
proof (induction n rule: decimal.induct)
  case (1 n)
  then show ?case
    by (subst decimal.simps) (auto simp: value_of_snoc digit_value, simp add: value_of_def digit_value)
qed

lemma value_of_append: "value_of (xs @ ys) = value_of xs * 10 ^ length ys + value_of ys"
proof (induction ys rule: rev_induct)
  case (snoc y ys)
  then show ?case by (simp add: value_of_snoc append.assoc [symmetric] algebra_simps del: append.assoc append_assoc)
qed (simp add: value_of_def)

lemma length_decimal: "k \<noteq> 0 \<Longrightarrow> n < 10 ^ k \<Longrightarrow> length (decimal n) \<le> k"
proof (induction n arbitrary: k rule: decimal.induct)
  case (1 n)
  show ?case
  proof (cases "n < 10")
    case True
    with "1.prems" show ?thesis by (subst decimal.simps) simp
  next
    case False
    then have "k \<noteq> 1" using "1.prems" by auto
    then obtain j where j: "k = Suc j" "j \<noteq> 0" using "1.prems"(1) by (cases k) auto
    then have "n div 10 < 10 ^ j" using "1.prems"(2) by (simp add: less_mult_imp_div_less mult.commute)
    with "1.IH" [OF False j(2)] False j show ?thesis by (subst decimal.simps) simp
  qed
qed

lemma value_of_zeros: "value_of (replicate k (digit 0)) = 0"
  by (induction k) (simp_all add: value_of_def digit_value replicate_append_same [symmetric])

lemma zero_padded_ok:
  assumes "n < 10 ^ w" "w \<noteq> 0"
  shows "length (zero_padded w n) = w" "value_of (zero_padded w n) = n"
  using length_decimal [OF assms(2,1)]
  by (simp_all add: zero_padded_def value_of_append value_of_zeros value_of_decimal)

section \<open>The log record\<close>

text \<open>
  \<open>snprintf\<close> into 21 bytes keeps the first 20 characters. The seconds and nanoseconds are
  those \<open>clock_gettime\<close> returns; the buffer may fail to be allocated.
\<close>

definition get_current_timestamp_ns :: "nat \<Rightarrow> nat \<Rightarrow> memory \<Rightarrow> string option \<times> memory" where
  "get_current_timestamp_ns tv_sec tv_nsec m =
     (let (timestamp, m) = calloc m in
      if timestamp then (Some (take 20 (decimal tv_sec @ zero_padded 9 tv_nsec)), m) else (None, m))"

fun snapshot_loop :: "'j cjson \<Rightarrow> nat \<Rightarrow> nat \<Rightarrow> u64 list option \<Rightarrow> 'j \<Rightarrow> 'j res" where
  "snapshot_loop J 0 i snapshot arr = Inr arr"
| "snapshot_loop J (Suc n) i snapshot arr =
     (case snapshot of
        None \<Rightarrow> Inl (Undefined_behaviour ''NULL dereference'')
      | Some cs \<Rightarrow>
          if i < length cs
          then snapshot_loop J n (Suc i) snapshot (add_to_array J arr (create_number J (cs ! i)))
          else Inl (Undefined_behaviour ''vector_clock_snapshot index''))"

definition number_fields :: "u64 \<Rightarrow> cbcast_stats \<Rightarrow> (string \<times> u64) list" where
  "number_fields ident st =
     [(''worker'', ident), (''recv_msg_count'', recv_msg_count st), (''sent_msg_count'', sent_msg_count st),
      (''sent_ack_count'', sent_ack_count st), (''sent_retransmit_req_count'', sent_retransmit_req_count st),
      (''sent_retransmit_count'', sent_retransmit_count st), (''dropped_msg_count'', dropped_msg_count st),
      (''dropped_ack_count'', dropped_ack_count st),
      (''dropped_retransmit_req_count'', dropped_retransmit_req_count st),
      (''dropped_retransmit_count'', dropped_retransmit_count st),
      (''delivered_msg_count'', delivered_msg_count st), (''delivery_queue_size'', delivery_queue_size st),
      (''sent_msg_buffer_size'', sent_msg_buffer_size st), (''held_msg_buffer_size'', held_msg_buffer_size st)]"

definition serialize_statistics_to_json :: "'j cjson \<Rightarrow> u64 \<Rightarrow> cbcast_stats \<Rightarrow> 'j res" where
  "serialize_statistics_to_json J ident st =
     (let log_message = foldl (\<lambda>ob (k, v). add_to_object J ob k (create_number J v)) (create_object J)
            (number_fields ident st)
      in
      andthen (snapshot_loop J (unat (num_peers st)) 0 (vector_clock_snapshot st) (create_array J)) (\<lambda>vector_clock.
      Inr (add_to_object J log_message ''vector_clock_snapshot'' vector_clock)))"

definition create_loki_log :: "'j cjson \<Rightarrow> nat \<Rightarrow> nat \<Rightarrow> 'j \<Rightarrow> memory \<Rightarrow> 'j option \<times> memory" where
  "create_loki_log J tv_sec tv_nsec log_message m =
     (let (timestamp_ns, m) = get_current_timestamp_ns tv_sec tv_nsec m in
      case timestamp_ns of
        None \<Rightarrow> (None, m)
      | Some ts \<Rightarrow>
          let stream_labels = foldl (\<lambda>ob (k, v). add_to_object J ob k (create_string J v)) (create_object J)
                [(''label'', ''cbcast_logs''), (''host'', ''localhost''), (''application'', ''cbc''), (''level'', ''info'')];
              stream = add_to_object J (create_object J) ''stream'' stream_labels;
              log_entry = add_to_array J (create_array J) (create_string J ts);
              log_entry = add_to_array J log_entry (create_string J (print_unformatted J log_message));
              stream_values = add_to_array J (create_array J) log_entry;
              stream = add_to_object J stream ''values'' stream_values;
              streams = add_to_array J (create_array J) stream
          in (Some (add_to_object J (create_object J) ''streams'' streams), c_free 1 m))"

text \<open>The number of peers in the record is the constant 4.\<close>

definition cbc_collect_statistics :: "'j cjson \<Rightarrow> node \<Rightarrow> ('j \<times> node) res" where
  "cbc_collect_statistics J s =
     (let s = mutex_lock SEND_LOCK s;
          sent_buffer_size = length (sent_msg_buffer s);
          s = mutex_lock RECV_LOCK (mutex_unlock SEND_LOCK s);
          held_buffer_size = length (held_msg_buffer s);
          queue_size = length (delivery_queue s);
          s = mutex_unlock RECV_LOCK s;
          (vclock_snapshot, m) = vc_snapshot (Some (vclock s)) (mem s);
          s = mutex_lock STATS_LOCK (mutex_unlock VCLOCK_MTX (mutex_lock VCLOCK_MTX (s\<lparr>mem := m\<rparr>)));
          s = s\<lparr>stats := (stats s)\<lparr>sent_msg_buffer_size := of_nat sent_buffer_size,
                held_msg_buffer_size := of_nat held_buffer_size, delivery_queue_size := of_nat queue_size\<rparr>\<rparr>;
          s = (if vector_clock_snapshot (stats s) \<noteq> None then s\<lparr>mem := c_free 1 (mem s)\<rparr> else s);
          s = s\<lparr>stats := (stats s)\<lparr>vector_clock_snapshot := vclock_snapshot, num_peers := 4\<rparr>\<rparr>
      in
      andthen (serialize_statistics_to_json J (pid s) (stats s)) (\<lambda>json.
      Inr (json, mutex_unlock STATS_LOCK s)))"

lemma snapshot_loop_Some:
  "snapshot_loop J n i (Some cs) arr =
     (if i + n \<le> length cs
      then Inr (foldl (add_to_array J) arr (map (create_number J) (take n (drop i cs))))
      else if n = 0 then Inr arr else Inl (Undefined_behaviour ''vector_clock_snapshot index''))"
proof (induction n arbitrary: i arr)
  case (Suc n)
  then show ?case by (auto simp: Cons_nth_drop_Suc [symmetric])
qed simp

text \<open>What a collection leaves alone: everything but the statistics, the trace of locks and the snapshots.\<close>

definition collected :: "node \<Rightarrow> node \<Rightarrow> bool" where
  "collected s s' \<longleftrightarrow> delivery_view s' = delivery_view s \<and> sent_view s' = sent_view s \<and> peers s' = peers s
     \<and> send_queue s' = send_queue s \<and> socket_tx s' = socket_tx s \<and> socket_rx s' = socket_rx s
     \<and> rands s' = rands s \<and> rand_pos s' = rand_pos s \<and> alloc_ok (mem s') = alloc_ok (mem s)
     \<and> live (mem s') - owned s' = live (mem s) - owned s"

lemma collected_inv: "collected s s' \<Longrightarrow> proc_inv s \<Longrightarrow> proc_inv s'"
  by (rule view_inv) (simp_all add: collected_def)

lemma collect_run:
  assumes "vc_wf (vclock s)"
  shows "if alloc_ok (mem s) (allocs (mem s)) \<and> 4 \<le> length (vc_clock (vclock s))
     then \<exists>st s'. cbc_collect_statistics J s = Inr (add_to_object J
            (foldl (\<lambda>ob (k, v). add_to_object J ob k (create_number J v)) (create_object J) (number_fields (pid s) st))
            ''vector_clock_snapshot''
            (foldl (add_to_array J) (create_array J) (map (create_number J) (take 4 (vc_clock (vclock s))))), s')
          \<and> collected s s'
          \<and> st = (stats s)\<lparr>sent_msg_buffer_size := of_nat (length (sent_msg_buffer s)),
                held_msg_buffer_size := of_nat (length (held_msg_buffer s)),
                delivery_queue_size := of_nat (length (delivery_queue s)),
                vector_clock_snapshot := Some (vc_clock (vclock s)), num_peers := 4\<rparr>
          \<and> stats s' = st
     else \<exists>why. cbc_collect_statistics J s = Inl (Undefined_behaviour why)"
proof -
  have t: "take (unat (vc_len (vclock s))) (vc_clock (vclock s)) = vc_clock (vclock s)"
    using assms by (simp add: vc_wf_def)
  have four: "snapshot_loop J 4 0 None (create_array J) = Inl (Undefined_behaviour ''NULL dereference'')"
    by (simp add: eval_nat_numeral)
  show ?thesis
    by (cases "vector_clock_snapshot (stats s)")
      (auto simp: cbc_collect_statistics_def vc_snapshot_def calloc_def t four Let_def serialize_statistics_to_json_def
        snapshot_loop_Some collected_def owned_def sent_list_def sent_at_def comp_def sent_view_def delivery_view_def)
qed

section \<open>Posting a record\<close>

text \<open>
  The calls of libcurl on its state: what creates a handle or extends a list of headers can
  fail with NULL; \<open>easy_perform\<close> returns 0 (\<open>CURLE_OK\<close>) or an error code.
\<close>

datatype curl_option = CURLOPT_URL string | CURLOPT_POSTFIELDS "string option" | CURLOPT_HTTPHEADER "nat option"

record 'c curl =
  easy_init :: "'c \<Rightarrow> nat option \<times> 'c"
  slist_append :: "nat option \<Rightarrow> string \<Rightarrow> 'c \<Rightarrow> nat option \<times> 'c"
  easy_setopt :: "nat \<Rightarrow> curl_option \<Rightarrow> 'c \<Rightarrow> 'c"
  easy_perform :: "nat \<Rightarrow> 'c \<Rightarrow> nat \<times> 'c"
  easy_cleanup :: "nat \<Rightarrow> 'c \<Rightarrow> 'c"
  slist_free_all :: "nat option \<Rightarrow> 'c \<Rightarrow> 'c"

text \<open>Whether the error message is printed, and the state of libcurl.\<close>

definition send_stats_to_loki :: "'c curl \<Rightarrow> string option \<Rightarrow> string \<Rightarrow> 'c \<Rightarrow> bool \<times> 'c" where
  "send_stats_to_loki C json_payload loki_url c =
     (let (curl, c) = easy_init C c in
      case curl of
        None \<Rightarrow> (False, c)
      | Some curl \<Rightarrow>
          let (headers, c) = slist_append C None ''Content-Type: application/json'' c;
              c = easy_setopt C curl (CURLOPT_URL loki_url) c;
              c = easy_setopt C curl (CURLOPT_POSTFIELDS json_payload) c;
              c = easy_setopt C curl (CURLOPT_HTTPHEADER headers) c;
              (res, c) = easy_perform C curl c;
              c = easy_cleanup C curl c;
              c = slist_free_all C headers c
          in (res \<noteq> 0, c))"

text \<open>
  Nothing of libcurl outlives the call: with handles and lists counted, as libcurl documents its
  calls, they are as many as before, whether or not the post succeeds.
\<close>

lemma send_stats_releases:
  fixes C :: "'c curl" and handles lists :: "'c \<Rightarrow> int"
  assumes init: "\<And>c h d. easy_init C c = (h, d) \<Longrightarrow> handles d = handles c + (if h = None then 0 else 1) \<and> lists d = lists c"
    and append: "\<And>s c l d. slist_append C None s c = (l, d) \<Longrightarrow> lists d = lists c + (if l = None then 0 else 1) \<and> handles d = handles c"
    and setopt: "\<And>h opt c. handles (easy_setopt C h opt c) = handles c \<and> lists (easy_setopt C h opt c) = lists c"
    and perform: "\<And>h c r d. easy_perform C h c = (r, d) \<Longrightarrow> handles d = handles c \<and> lists d = lists c"
    and cleanup: "\<And>h c. handles (easy_cleanup C h c) = handles c - 1 \<and> lists (easy_cleanup C h c) = lists c"
    and free: "\<And>l c. lists (slist_free_all C l c) = lists c - (if l = None then 0 else 1) \<and> handles (slist_free_all C l c) = handles c"
  shows "handles (snd (send_stats_to_loki C json_payload loki_url c)) = handles c
     \<and> lists (snd (send_stats_to_loki C json_payload loki_url c)) = lists c"
proof -
  obtain h c1 where 1: "easy_init C c = (h, c1)" by (cases "easy_init C c")
  obtain l c2 where 2: "slist_append C None ''Content-Type: application/json'' c1 = (l, c2)"
    by (cases "slist_append C None ''Content-Type: application/json'' c1")
  show ?thesis
  proof (cases h)
    case None
    with 1 init [OF 1] show ?thesis by (simp add: send_stats_to_loki_def)
  next
    case (Some k)
    let ?c = "easy_setopt C k (CURLOPT_HTTPHEADER l) (easy_setopt C k (CURLOPT_POSTFIELDS json_payload)
        (easy_setopt C k (CURLOPT_URL loki_url) c2))"
    obtain r c3 where 3: "easy_perform C k ?c = (r, c3)" by (cases "easy_perform C k ?c")
    have "send_stats_to_loki C json_payload loki_url c = (r \<noteq> 0, slist_free_all C l (easy_cleanup C k c3))"
      by (simp add: send_stats_to_loki_def 1 Some 2 3)
    then show ?thesis
      using init [OF 1] append [OF 2] perform [OF 3] by (simp add: Some setopt cleanup free)
  qed
qed

section \<open>A JSON library\<close>

text \<open>An implementation of the parameter, on which the properties are evaluated.\<close>

datatype json = JNumber u64 | JString string | JArray "json list" | JObject "(string \<times> json) list"

fun member_of :: "string \<Rightarrow> json \<Rightarrow> json option" where
  "member_of k (JObject fs) = map_of fs k"
| "member_of k _ = None"

definition json_impl :: "json cjson" where
  "json_impl = \<lparr>create_object = JObject [], create_array = JArray [], create_number = JNumber,
     create_string = JString,
     add_to_object = (\<lambda>ob k v. case ob of JObject fs \<Rightarrow> JObject (fs @ [(k, v)]) | x \<Rightarrow> x),
     add_to_array = (\<lambda>arr v. case arr of JArray vs \<Rightarrow> JArray (vs @ [v]) | x \<Rightarrow> x),
     print_unformatted = (\<lambda>j. case j of JString x \<Rightarrow> x | JNumber n \<Rightarrow> decimal (unat n) | _ \<Rightarrow> ''{}'')\<rparr>"

section \<open>Properties\<close>



text \<open>
  the timestamp of a log record, for every time of the clock up to the year 5138: the 21
  bytes are enough, and the digits denote the time in nanoseconds since the epoch.
\<close>

theorem timestamp_roundtrip:
  assumes "alloc_ok m (allocs m)" "tv_sec < 10 ^ 11" "tv_nsec < 10 ^ 9"
  shows "\<exists>ts. fst (get_current_timestamp_ns tv_sec tv_nsec m) = Some ts \<and> length ts < 21
     \<and> value_of ts = tv_sec * 10 ^ 9 + tv_nsec"
proof -
  have "length (decimal tv_sec) \<le> 11" using length_decimal [of 11 tv_sec] assms(2) by simp
  moreover have "length (zero_padded 9 tv_nsec) = 9" "value_of (zero_padded 9 tv_nsec) = tv_nsec"
    using zero_padded_ok [of tv_nsec 9] assms(3) by simp_all
  ultimately show ?thesis
    using assms(1) by (simp add: get_current_timestamp_ns_def calloc_def value_of_append value_of_decimal)
qed

theorem timestamp_roundtrip_witness:
  "\<exists>ts. fst (get_current_timestamp_ns 1700000000 42 fresh_memory) = Some ts \<and> length ts < 21
     \<and> value_of ts = 1700000000000000042"
  using timestamp_roundtrip [of fresh_memory 1700000000 42] by (simp add: fresh_memory_def)

end
