(* ===== verification/Worker.thy ===== *)
theory Worker
  imports Statistics
begin

text \<open>
  \<open>src/main.c\<close>, one worker: the context it sets up with its four peers, and the rounds of
  its broadcast phase, in which it prints what it receives, broadcasts in every tenth round,
  and posts its statistics.

  The static \<open>counter\<close> and \<open>received_counter\<close> are ints, whose overflow has no meaning.
  \<open>printed\<close> are the lines about received messages (text, number, sender) and \<open>posted\<close> the
  records handed to \<open>send_stats_to_loki\<close>; both are histories. The objects cJSON returns are
  taken to be non-NULL, and printing NULL gives NULL, as its documentation says.
\<close>

definition NUM_WORKERS :: nat where
  "NUM_WORKERS = 5"

section \<open>Setting up\<close>

fun add_peers :: "(string \<Rightarrow> u32) \<Rightarrow> u64 \<Rightarrow> u64 list \<Rightarrow> node \<Rightarrow> node res" where
  "add_peers inet_addr i [] s = Inr s"
| "add_peers inet_addr i (j # js) s =
     (if j = i then add_peers inet_addr i js s
      else
        andthen (cbc_add_peer inet_addr j (Some ''127.0.0.1'') (BASE_PORT + ucast j) s) (\<lambda>(r, s).
        andthen (result_unwrap r) (\<lambda>_. add_peers inet_addr i js s)))"

text \<open>The child of the i-th \<open>fork\<close>, up to its call of \<open>worker_process\<close>.\<close>

definition worker_setup ::
  "(string \<Rightarrow> u32) \<Rightarrow> (lock \<Rightarrow> bool) \<Rightarrow> int \<Rightarrow> int \<Rightarrow> u64 \<Rightarrow> node \<Rightarrow> os \<Rightarrow> (node \<times> os) res" where
  "worker_setup inet_addr mutex_ok socket_ret bind_ret i s w =
     andthen (cbc_init mutex_ok socket_ret bind_ret i (of_nat NUM_WORKERS) (BASE_PORT + ucast i) s w) (\<lambda>(r, s, w).
     if \<not> result_is_ok r then Inl (Exit_failure ''Failed to initialize cbcast'')
     else
       andthen (result_unwrap r) (\<lambda>_.
       andthen (add_peers inet_addr i (map of_nat [0..<NUM_WORKERS]) s) (\<lambda>s. Inr (s, w))))"

section \<open>The broadcast phase\<close>

record worker =
  ctx :: node
  counter :: int
  received_counter :: int
  printed :: "(u8 list \<times> int \<times> u16) list"
  posted :: "string option list"

definition int_inc :: "int \<Rightarrow> int res" where
  "int_inc n = (if n < 2147483647 then Inr (n + 1) else Inl (Undefined_behaviour ''signed overflow''))"

text \<open>What \<open>%s\<close> prints: the bytes up to the terminating zero.\<close>

definition c_str :: "u8 list option \<Rightarrow> u8 list res" where
  "c_str pl =
     (case pl of
        None \<Rightarrow> Inl (Undefined_behaviour ''printf of NULL'')
      | Some bs \<Rightarrow>
          if 0 \<in> set bs then Inr (takeWhile (\<lambda>b. b \<noteq> 0) bs)
          else Inl (Undefined_behaviour ''unterminated string''))"

definition worker_receive :: "worker \<Rightarrow> worker res" where
  "worker_receive w =
     (let (received_msg, s) = cbc_receive (ctx w) in
      case received_msg of
        None \<Rightarrow> Inr (w\<lparr>ctx := s\<rparr>)
      | Some r \<Rightarrow>
          andthen (int_inc (received_counter w)) (\<lambda>n.
          andthen (c_str (payload (rcvd_message r))) (\<lambda>txt.
          Inr (w\<lparr>ctx := s\<lparr>mem := cbc_received_msg_free r (mem s)\<rparr>, received_counter := n,
               printed := printed w @ [(txt, n, sender_pid r)]\<rparr>))))"

definition hello :: "u64 \<Rightarrow> string" where
  "hello p = take 63 (''Hello from worker '' @ decimal (unat p) @ ''!'')"

definition bytes_of_string :: "string \<Rightarrow> u8 list" where
  "bytes_of_string cs = map of_char cs @ [0]"

definition worker_broadcast :: "worker \<Rightarrow> worker res" where
  "worker_broadcast w =
     andthen (int_inc (counter w)) (\<lambda>c.
     let w = w\<lparr>counter := c\<rparr>;
         message = hello (pid (ctx w))
     in if c mod 10 = 0
        then
          andthen (cbc_send (Some (bytes_of_string message)) (of_nat (length message)) (ctx w)) (\<lambda>(r, s).
          andthen (result_expect r ''[main] Failed to broadcast message'') (\<lambda>_. Inr (w\<lparr>ctx := s\<rparr>)))
        else Inr w)"

definition worker_statistics :: "'j cjson \<Rightarrow> nat \<Rightarrow> nat \<Rightarrow> worker \<Rightarrow> worker res" where
  "worker_statistics J tv_sec tv_nsec w =
     andthen (cbc_collect_statistics J (ctx w)) (\<lambda>(collected, s).
     let (loki_log, m) = create_loki_log J tv_sec tv_nsec collected (mem s)
     in Inr (w\<lparr>ctx := s\<lparr>mem := m\<rparr>, posted := posted w @ [map_option (print_unformatted J) loki_log]\<rparr>))"

text \<open>One round of the \<open>while (running)\<close> loop.\<close>

definition worker_round :: "'j cjson \<Rightarrow> nat \<Rightarrow> nat \<Rightarrow> worker \<Rightarrow> worker res" where
  "worker_round J tv_sec tv_nsec w =
     andthen (worker_receive w) (\<lambda>w.
     andthen (worker_broadcast w) (\<lambda>w. worker_statistics J tv_sec tv_nsec w))"

text \<open>
  The final state a worker prints at its turn: its clock, the lengths of its buffers, and a line
  for every message in them.
\<close>

fun dump_received :: "nat \<Rightarrow> cbcast_received_msg list \<Rightarrow> (nat \<times> u8 list \<times> u16 \<times> u16) list res" where
  "dump_received i [] = Inr []"
| "dump_received i (h # hs) =
     andthen (c_str (payload (rcvd_message h))) (\<lambda>t.
     andthen (dump_received (Suc i) hs) (\<lambda>ls. Inr ((i, t, rcvd_clock h, sender_pid h) # ls)))"

fun dump_sent :: "nat \<Rightarrow> ptr list \<Rightarrow> node \<Rightarrow> (nat \<times> u8 list \<times> u16 \<times> u64 \<times> u64) list res" where
  "dump_sent i [] s = Inr []"
| "dump_sent i (p # ps) s =
     andthen (read_sent p s) (\<lambda>m.
     andthen (c_str (payload (sent_message m))) (\<lambda>t.
     andthen (dump_sent (Suc i) ps s) (\<lambda>ls.
     Inr ((i, t, clock (header (sent_message m)), ack_target m, ack_bitmap m) # ls))))"

record final_report =
  sent_messages :: u64
  queue_lengths :: "nat \<times> nat \<times> nat"
  delivery_lines :: "(nat \<times> u8 list \<times> u16 \<times> u16) list"
  held_lines :: "(nat \<times> u8 list \<times> u16 \<times> u16) list"
  sent_lines :: "(nat \<times> u8 list \<times> u16 \<times> u64 \<times> u64) list"

definition print_final_state :: "node \<Rightarrow> final_report res" where
  "print_final_state s =
     andthen (vc_read (vclock s) (unat (pid s))) (\<lambda>c.
     andthen (dump_received 0 (delivery_queue s)) (\<lambda>d.
     andthen (dump_received 0 (held_msg_buffer s)) (\<lambda>h.
     andthen (dump_sent 0 (sent_msg_buffer s) s) (\<lambda>t.
     Inr \<lparr>sent_messages = c,
          queue_lengths = (length (delivery_queue s), length (held_msg_buffer s), length (sent_msg_buffer s)),
          delivery_lines = d, held_lines = h, sent_lines = t\<rparr>))))"

definition start_worker :: "node \<Rightarrow> worker" where
  "start_worker s = \<lparr>ctx = s, counter = 0, received_counter = 0, printed = [], posted = []\<rparr>"

section \<open>What a worker sets up\<close>

text \<open>The world a forked child starts in: nothing sent, nothing delivered.\<close>

definition blank :: "node \<Rightarrow> bool" where
  "blank s \<longleftrightarrow> delivered s = [] \<and> sent_heap s = (\<lambda>_. None)"

definition peer_at :: "u32 \<Rightarrow> u64 \<Rightarrow> cbcast_peer" where
  "peer_at ip j = added_peer j \<lparr>sin_family = AF_INET, sin_port = htons (BASE_PORT + ucast j), s_addr = ip, sin_zero = 0\<rparr>"

lemma ucast_small_pid: "unat (p :: u64) < 65536 \<Longrightarrow> (ucast (ucast p :: u32) :: u64) = p"
  by (simp add: word_unat_eq_iff unsigned_ucast_eq unsigned_take_bit_eq take_bit_nat_eq_self)

lemma create_peer_outcome:
  assumes "unat j < 65536" "create_peer inet_addr (ucast j) ip (BASE_PORT + ucast j) m = (r, m')"
  shows "(\<exists>why. r = result_new_err why \<and> (inet_addr ip = INADDR_NONE \<or> \<not> next_ok 2 m))
     \<or> r = result_new_ok (peer_at (inet_addr ip) j) \<and> live m' = live m + 2 \<and> alloc_ok m' = alloc_ok m
       \<and> allocs m' = allocs m + 2 \<and> next_ok 2 m \<and> inet_addr ip \<noteq> INADDR_NONE"
  using assms
  by (auto simp: create_peer_def calloc_def Let_def result_new_ok_def result_new_err_def ucast_small_pid peer_at_def
      added_peer_def next_ok_2 split: if_splits)

lemma cbc_add_peer_cases:
  assumes p: "unat j < 65536" "BASE_PORT + ucast j \<noteq> (0 :: u16)"
  obtains (exits) why m where "cbc_add_peer inet_addr j (Some ip) (BASE_PORT + ucast j) s = Inr (result_new_err why, s\<lparr>mem := m\<rparr>)"
      "inet_addr ip = INADDR_NONE \<or> \<not> next_ok 2 (mem s)"
  | (adds) m t where "cbc_add_peer inet_addr j (Some ip) (BASE_PORT + ucast j) s = Inr (result_new_ok (),
      s\<lparr>peers := peers s @ [peer_at (inet_addr ip) j], mem := m, lock_trace := t\<rparr>)"
      "live m = live (mem s) + 2" "alloc_ok m = alloc_ok (mem s)" "allocs m = allocs (mem s) + 2" "next_ok 2 (mem s)"
      "inet_addr ip \<noteq> INADDR_NONE"
proof -
  obtain r m where c: "create_peer inet_addr (ucast j) ip (BASE_PORT + ucast j) (mem s) = (r, m)" by fastforce
  note o = create_peer_outcome [OF p(1) c]
  show thesis
  proof (cases r rule: result_cases)
    case (Ok q)
    then have "cbc_add_peer inet_addr j (Some ip) (BASE_PORT + ucast j) s = Inr (result_new_ok (),
      s\<lparr>peers := peers s @ [q], mem := m, lock_trace := lock_trace s @ [Lock PEER_LOCK, Unlock PEER_LOCK]\<rparr>)"
      using c p(2) by (simp add: cbc_add_peer_def with_lock_def mutex_lock_def mutex_unlock_def arrput_def
          result_new_ok_def result_expect_def)
    with o Ok show thesis by (auto intro: adds)
  next
    case (Err e)
    then have "cbc_add_peer inet_addr j (Some ip) (BASE_PORT + ucast j) s = Inr (result_new_err e, s\<lparr>mem := m\<rparr>)"
      using c p(2) by (simp add: cbc_add_peer_def result_new_err_def)
    with o Err show thesis by (auto intro: exits)
  qed
qed

text \<open>The loop over the other workers: it adds them all or ends the process.\<close>

lemma add_peers_run:
  fixes i :: u64 and js :: "u64 list"
  assumes "\<forall>j \<in> set js. unat j < 5"
  defines "n \<equiv> 2 * length (filter (\<lambda>j. j \<noteq> i) js)"
  shows "(\<exists>why. add_peers inet_addr i js s = Inl (Exit_failure why)
          \<and> (inet_addr ''127.0.0.1'' = INADDR_NONE \<or> \<not> next_ok n (mem s)))
     \<or> (\<exists>m t. add_peers inet_addr i js s = Inr (s\<lparr>peers := peers s @ map (peer_at (inet_addr ''127.0.0.1'')) (filter (\<lambda>j. j \<noteq> i) js),
            mem := m, lock_trace := t\<rparr>)
          \<and> live m = live (mem s) + int n \<and> alloc_ok m = alloc_ok (mem s) \<and> next_ok n (mem s))"
  using assms(1) unfolding n_def
proof (induction js arbitrary: s)
  case Nil
  then show ?case by (intro disjI2 exI [of _ "mem s"] exI [of _ "lock_trace s"]) (simp add: next_ok_def)
next
  case (Cons j js)
  let ?n = "2 * length (filter (\<lambda>j. j \<noteq> i) js)"
  show ?case
  proof (cases "j = i")
    case True
    then show ?thesis using Cons by simp
  next
    case False
    have j: "unat j < 65536" "BASE_PORT + ucast j \<noteq> (0 :: u16)"
    proof -
      have "unat j < 5" using Cons.prems by simp
      then show "unat j < 65536" by simp
      have "unat (ucast j :: u16) < 5" using \<open>unat j < 5\<close> by (simp add: unat_ucast_small)
      then have "unat (BASE_PORT + ucast j :: u16) = 12345 + unat (ucast j :: u16)"
        by (simp add: BASE_PORT_def unat_word_ariths)
      then show "BASE_PORT + ucast j \<noteq> (0 :: u16)" by auto
    qed
    have n: "2 * length (filter (\<lambda>j. j \<noteq> i) (j # js)) = 2 + ?n" using False by simp
    show ?thesis
    proof (cases rule: cbc_add_peer_cases [OF j, of inet_addr "''127.0.0.1''" s])
      case (1 why m)
      have "\<not> next_ok (2 + ?n) (mem s)" if "\<not> next_ok 2 (mem s)" using that next_ok_mono by force
      then show ?thesis using 1 False unfolding n by (auto simp: result_unwrap_def result_new_err_def)
    next
      case (2 m t)
      let ?s = "s\<lparr>peers := peers s @ [peer_at (inet_addr ''127.0.0.1'') j], mem := m, lock_trace := t\<rparr>"
      have "next_ok (2 + ?n) (mem s) = next_ok ?n (mem ?s)" using next_ok_add [OF 2(3,4), of ?n] 2(5) by simp
      with Cons.IH [of ?s] Cons.prems False 2 show ?thesis unfolding n by (auto simp: algebra_simps)
    qed
  qed
qed

text \<open>A context with a valid id is made, or an error is reported, or the process ends.\<close>

lemma cbc_init_run:
  assumes p: "p < max_p"
  obtains (made) m w' where "cbc_init mutex_ok socket_ret bind_ret p max_p port s w = Inr (result_new_ok (),
        (zeroed s)\<lparr>socket_fd := socket_ret, pid := p, mem := m,
          vclock := \<lparr>vc_clock = replicate (unat max_p) 0, vc_len = max_p\<rparr>\<rparr>, w')"
      "live m = live (mem s) + 4" "alloc_ok m = alloc_ok (mem s)" "bound_to w' = Some (socket_ret, htons port, INADDR_LOOPBACK_be)"
      "mutex_ok VCLOCK_MTX" "0 \<le> socket_ret" "0 \<le> bind_ret" "allocs m = allocs (mem s) + 4" "next_ok 4 (mem s)"
      "mutexes w' = mutexes w \<union> {l. mutex_ok l}"
  | (refused) e s' w' where "cbc_init mutex_ok socket_ret bind_ret p max_p port s w = Inr (result_new_err e, s', w')"
      "\<not> (next_ok 2 (mem s) \<and> 0 \<le> socket_ret \<and> 0 \<le> bind_ret)"
  | (ended) why where "cbc_init mutex_ok socket_ret bind_ret p max_p port s w = Inl (Exit_failure why)"
      "\<not> (mutex_ok VCLOCK_MTX \<and> next_ok 4 (mem s))"
proof -
  define m1 where "m1 = snd (calloc (mem s))"
  define m2 where "m2 = snd (calloc m1)"
  have nz: "max_p \<noteq> 0" "\<not> p \<ge> max_p" using p by auto
  show thesis
  proof (cases "fst (calloc (mem s)) \<and> fst (calloc m1)")
    case False
    then have "\<not> next_ok 2 (mem s)" by (auto simp: next_ok_2 m1_def calloc_def)
    moreover have "\<exists>e s' w'. cbc_init mutex_ok socket_ret bind_ret p max_p port s w = Inr (result_new_err e, s', w')"
      using False nz by (auto simp: m1_def cbc_init_def calloc_def Let_def cbc_free_def free_script_zeroed)
    ultimately show thesis using refused by blast
  next
    case True
    have l: "live m2 = live (mem s) + 2" "alloc_ok m2 = alloc_ok (mem s)" "allocs m2 = allocs (mem s) + 2" "next_ok 2 (mem s)"
      using True by (auto simp: m1_def m2_def calloc_def next_ok_2)
    have "calloc (mem s) = (True, m1)" "calloc m1 = (True, m2)"
      using True by (simp_all add: m1_def m2_def prod_eq_iff)
    note e = this cbc_init_def Let_def
    have four: "next_ok 4 (mem s) = next_ok 2 m2" using next_ok_add [OF l(2,3), of 2] l(4) by simp
    show thesis
    proof (cases rule: vc_init_run [OF nz(1), of "mutex_ok VCLOCK_MTX" m2])
      case (1 err m')
      then show thesis using nz
        by (intro ended [of "err @ '': [cbc_init] failed to init vclock''"])
          (auto simp: e result_expect_def result_new_err_def four next_ok_2)
    next
      case (2 m')
      show thesis
      proof (cases "0 \<le> socket_ret \<and> 0 \<le> bind_ret")
        case bad: False
        have "\<exists>err s' w'. cbc_init mutex_ok socket_ret bind_ret p max_p port s w = Inr (result_new_err err, s', w')"
          using nz 2(1) bad by (cases "socket_ret < 0") (simp_all add: e)
        then show thesis using refused bad by blast
      next
        case good: True
        let ?w = "init_lock mutex_ok STATS_LOCK (init_lock mutex_ok RECV_LOCK (init_lock mutex_ok SEND_LOCK
            (init_lock mutex_ok PEER_LOCK ((init_lock mutex_ok VCLOCK_MTX w)
              \<lparr>open_fds := insert socket_ret (open_fds (init_lock mutex_ok VCLOCK_MTX w)),
                bound_to := Some (socket_ret, htons port, INADDR_LOOPBACK_be)\<rparr>))))"
        have all: "{l. mutex_ok l} = {l \<in> {PEER_LOCK, SEND_LOCK, RECV_LOCK, STATS_LOCK, VCLOCK_MTX}. mutex_ok l}"
          using lock.exhaust by auto
        have "mutexes ?w = mutexes w \<union> {l. mutex_ok l}" unfolding all by (auto simp: init_lock_fields)
        then show thesis using good nz 2 l
          by (intro made [of m' ?w]) (simp_all add: e four next_ok_2 init_lock_fields)
      qed
    qed
  qed
qed

text \<open>The context a worker starts from; the parts of the world are those of \<open>s\<close>.\<close>

definition set_up :: "u32 \<Rightarrow> int \<Rightarrow> u64 \<Rightarrow> memory \<Rightarrow> lock_event list \<Rightarrow> node \<Rightarrow> node" where
  "set_up ip fd i m t s = (zeroed s)\<lparr>socket_fd := fd, pid := i, vclock := \<lparr>vc_clock = replicate 5 0, vc_len = 5\<rparr>,
     peers := map (peer_at ip) (filter (\<lambda>j. j \<noteq> i) (map of_nat [0..<5])), mem := m, lock_trace := t\<rparr>"

lemma worker_ids: "set (map of_nat [0..<5]) = {j :: u64. unat j < 5}"
proof
  show "set (map of_nat [0..<5]) \<subseteq> {j :: u64. unat j < 5}" by (auto simp: unat_of_nat_small)
  have "j \<in> of_nat ` {0..<5}" if "unat j < 5" for j :: u64
    using that by (intro image_eqI [of _ _ "unat j"]) simp_all
  then show "{j :: u64. unat j < 5} \<subseteq> set (map of_nat [0..<5])" by auto
qed

lemma worker_ids_length: "unat (i :: u64) < 5 \<Longrightarrow> length (filter (\<lambda>j. j \<noteq> i) (map of_nat [0..<5])) = 4"
proof -
  assume i: "unat i < 5"
  then have "i \<in> set (map of_nat [0..<5])" using worker_ids by blast
  then have "i \<in> {0, 1, 2, 3, 4}" by (simp add: upt_rec)
  then show ?thesis by (auto simp: upt_rec)
qed

lemma worker_setup_run:
  assumes i: "unat i < 5"
  obtains (ready) m t w' where "worker_setup inet_addr mutex_ok socket_ret bind_ret i s w
        = Inr (set_up (inet_addr ''127.0.0.1'') socket_ret i m t s, w')"
      "live m = live (mem s) + 12" "alloc_ok m = alloc_ok (mem s)"
      "bound_to w' = Some (socket_ret, htons (BASE_PORT + ucast i), INADDR_LOOPBACK_be)"
      "mutex_ok VCLOCK_MTX" "0 \<le> socket_ret" "0 \<le> bind_ret" "next_ok 12 (mem s)"
      "mutexes w' = mutexes w \<union> {l. mutex_ok l}"
  | (fails) why where "worker_setup inet_addr mutex_ok socket_ret bind_ret i s w = Inl (Exit_failure why)"
      "\<not> (next_ok 12 (mem s) \<and> mutex_ok VCLOCK_MTX \<and> 0 \<le> socket_ret \<and> 0 \<le> bind_ret \<and> inet_addr ''127.0.0.1'' \<noteq> INADDR_NONE)"
proof -
  have p: "i < of_nat NUM_WORKERS" using i by (simp add: NUM_WORKERS_def word_less_nat_alt)
  have five: "unat (of_nat NUM_WORKERS :: u64) = 5" by (simp add: NUM_WORKERS_def)
  show thesis
  proof (cases rule: cbc_init_run [OF p, of mutex_ok socket_ret bind_ret "BASE_PORT + ucast i" s w])
    case (1 m w')
    let ?c = "(zeroed s)\<lparr>socket_fd := socket_ret, pid := i, mem := m,
          vclock := \<lparr>vc_clock = replicate (unat (of_nat NUM_WORKERS :: u64)) 0, vc_len = of_nat NUM_WORKERS\<rparr>\<rparr>"
    have l: "length (filter (\<lambda>j. j \<noteq> i) (map of_nat [0..<NUM_WORKERS])) = 4"
      using worker_ids_length [OF i] by (simp add: NUM_WORKERS_def)
    have js: "\<forall>j \<in> set (map of_nat [0..<NUM_WORKERS]). unat (j :: u64) < 5"
      using worker_ids by (simp add: NUM_WORKERS_def)
    have more: "next_ok 12 (mem s) = next_ok (2 * length (filter (\<lambda>j. j \<noteq> i) (map of_nat [0..<NUM_WORKERS]))) (mem ?c)"
      using next_ok_add [OF 1(3,8), of 8] 1(9) unfolding l by simp
    let ?n = "2 * length (filter (\<lambda>j. j \<noteq> i) (map of_nat [0..<NUM_WORKERS]))"
    consider (exits) why where "add_peers inet_addr i (map of_nat [0..<NUM_WORKERS]) ?c = Inl (Exit_failure why)"
        "inet_addr ''127.0.0.1'' = INADDR_NONE \<or> \<not> next_ok ?n (mem ?c)"
      | (adds) m' t where "add_peers inet_addr i (map of_nat [0..<NUM_WORKERS]) ?c = Inr (?c\<lparr>peers := peers ?c
           @ map (peer_at (inet_addr ''127.0.0.1'')) (filter (\<lambda>j. j \<noteq> i) (map of_nat [0..<NUM_WORKERS])), mem := m', lock_trace := t\<rparr>)"
        "live m' = live (mem ?c) + int ?n" "alloc_ok m' = alloc_ok (mem ?c)" "next_ok ?n (mem ?c)"
      using add_peers_run [OF js, of inet_addr i ?c] by blast
    then show thesis
    proof cases
      case exits
      then show thesis using 1(1) more by (intro fails [of why]) (auto simp: worker_setup_def)
    next
      case (adds m' t)
      have "worker_setup inet_addr mutex_ok socket_ret bind_ret i s w = Inr (set_up (inet_addr ''127.0.0.1'') socket_ret i m' t s, w')"
        using 1(1) adds(1) five by (simp add: worker_setup_def set_up_def zeroed_def NUM_WORKERS_def)
      moreover have "next_ok 12 (mem s)" using more adds(4) by blast
      ultimately show thesis using adds(2,3) l 1(2-) by (intro ready [of m' t w']) simp_all
    qed
  next
    case (2 e s' w')
    have "next_ok 2 (mem s)" if "next_ok 12 (mem s)" using that by (auto simp: next_ok_def)
    with 2 show thesis by (intro fails) (auto simp: worker_setup_def)
  next
    case (3 why)
    have "next_ok 4 (mem s)" if "next_ok 12 (mem s)" using that by (auto simp: next_ok_def)
    with 3 show thesis by (intro fails) (auto simp: worker_setup_def)
  qed
qed

lemma set_up_inv:
  assumes i: "unat i < 5" and b: "blank s"
  shows "proc_inv (set_up ip fd i m t s)"
proof -
  let ?ps = "map (peer_at ip) (filter (\<lambda>j. j \<noteq> i) (map of_nat [0..<5]))"
  have "peer_pid (peer_at ip j) = j" for j by (simp add: peer_at_def added_peer_def)
  moreover have "set (filter (\<lambda>j. j \<noteq> i) (map of_nat [0..<5])) = {j. unat j < 5} - {i}"
    unfolding set_filter worker_ids by blast
  ultimately have ids: "peer_pid ` set ?ps = {j. unat j < 5} - {i}"
    unfolding set_map image_image by simp
  have "proc_inv (initial_node i 5 ?ps)"
  proof (rule initial_proc_inv)
    show "small_pids ?ps" unfolding small_pids_def
    proof
      fix q assume "q \<in> set ?ps"
      then have "peer_pid q \<in> {j. unat j < 5} - {i}" using ids by blast
      then show "unat (peer_pid q) < 31" by simp
    qed
  qed (use i ids in simp_all)
  moreover have d: "delivery_view (set_up ip fd i m t s) = delivery_view (initial_node i 5 ?ps)"
    using b by (simp add: set_up_def zeroed_def blank_def delivery_view_def)
  moreover have "sent_ok (set_up ip fd i m t s)" "queue_ok (set_up ip fd i m t s)"
    using b by (simp_all add: sent_ok_def queue_ok_def set_up_def zeroed_def blank_def)
  moreover have "pids_ok (set_up ip fd i m t s) = pids_ok (initial_node i 5 ?ps)"
    by (rule pids_ok_cong) (simp_all add: set_up_def)
  ultimately show ?thesis using delivery_view_cong(1,2) [OF d] by (simp add: proc_inv_def)
qed

lemma peer_at_loopback: "peer_at INADDR_LOOPBACK_be = worker_peer"
  by (simp add: fun_eq_iff peer_at_def worker_peer_def worker_addr_def INADDR_LOOPBACK_be_def)

lemma set_up_peers: "peers (set_up INADDR_LOOPBACK_be fd i m t s) = worker_peers 5 i"
  by (simp add: set_up_def peer_at_loopback worker_peers_def)

lemma worker_found:
  assumes "unat j < 5" "j \<noteq> i"
  shows "pid_of_addr (worker_addr j) (worker_peers 5 i) = ucast j"
proof -
  let ?js = "filter (\<lambda>j. j \<noteq> i) (map of_nat [0..<5]) :: u64 list"
  have js: "set ?js = {j. unat j < 5} - {i}" unfolding set_filter worker_ids by blast
  have "inj_on worker_addr (set ?js)"
    unfolding js by (intro inj_onI worker_addr_inj) auto
  moreover have "distinct ?js" by (simp add: upt_rec)
  ultimately have "distinct (map worker_addr ?js)" by (simp add: distinct_map)
  moreover have "map peer_addr (worker_peers 5 i) = map worker_addr ?js" by (simp add: worker_peers_def)
  ultimately have "distinct (map peer_addr (worker_peers 5 i))" by simp
  moreover have "worker_peer j \<in> set (worker_peers 5 i)"
    using assms worker_peers_set [of 5 i] by simp
  ultimately show ?thesis using pid_of_addr_member by fastforce
qed

section \<open>Properties of the setup\<close>

text \<open>
  C33: The setup of worker i, for every outcome of the allocations, of socket, bind and every
  pthread_mutex_init, where inet_addr maps 127.0.0.1 to the loopback address. It succeeds
  exactly when its 12 allocations, the mutex of the vector clock, the socket and the bind
  succeed; otherwise the process exits, and it never runs into undefined behaviour. When it
  succeeds, the context is the initial process i of the network of five, with no messages, a
  zero clock and the four other workers as peers; it listens at the very address at which they
  know it, finds each of them by its address, and owns 12 more blocks. The results for the four
  mutexes of the context itself are ignored: those that failed are left uninitialised.
\<close>

theorem worker_setup_network:
  assumes "unat i < 5" "blank s" "inet_addr ''127.0.0.1'' = INADDR_LOOPBACK_be"
  shows "case worker_setup inet_addr mutex_ok socket_ret bind_ret i s w of
     Inr (s', w') \<Rightarrow> next_ok 12 (mem s) \<and> mutex_ok VCLOCK_MTX \<and> 0 \<le> socket_ret \<and> 0 \<le> bind_ret
       \<and> proc_inv s' \<and> delivery_view s' = delivery_view (initial_node i 5 (worker_peers 5 i))
       \<and> peers s' = worker_peers 5 i \<and> send_queue s' = [] \<and> sent_msg_buffer s' = [] \<and> stats s' = zero_stats
       \<and> live (mem s') = live (mem s) + 12
       \<and> bound_to w' = Some (socket_ret, sin_port (worker_addr i), s_addr (worker_addr i))
       \<and> mutexes w' = mutexes w \<union> {l. mutex_ok l}
       \<and> (\<forall>j \<in> {j. unat j < 5} - {i}. fst (cbc_peer_find_by_addr (worker_addr j) s') = ucast j)
   | Inl e \<Rightarrow> (\<exists>why. e = Exit_failure why)
       \<and> \<not> (next_ok 12 (mem s) \<and> mutex_ok VCLOCK_MTX \<and> 0 \<le> socket_ret \<and> 0 \<le> bind_ret)"
proof (cases rule: worker_setup_run [OF assms(1), of inet_addr mutex_ok socket_ret bind_ret s w])
  case (1 m t w')
  have "delivery_view (set_up INADDR_LOOPBACK_be socket_ret i m t s) = delivery_view (initial_node i 5 (worker_peers 5 i))"
    using assms(2) by (simp add: set_up_def zeroed_def blank_def delivery_view_def)
  then show ?thesis
    using 1 assms(3) set_up_inv [OF assms(1,2)] worker_found
    by (simp add: set_up_peers cbc_peer_find_by_addr_eq)
      (simp add: set_up_def zeroed_def worker_addr_def INADDR_LOOPBACK_be_def)
next
  case (2 why)
  then show ?thesis using assms(3) by (auto simp: INADDR_LOOPBACK_be_def INADDR_NONE_def)
qed

theorem worker_setup_network_witness:
  "(\<exists>s' w'. worker_setup (\<lambda>_. INADDR_LOOPBACK_be) (\<lambda>l. l \<noteq> SEND_LOCK) 3 0 2 (initial_node 0 0 []) fresh_os = Inr (s', w')
     \<and> proc_inv s' \<and> peers s' = worker_peers 5 2 \<and> live (mem s') = 12 \<and> SEND_LOCK \<notin> mutexes w'
     \<and> fst (cbc_peer_find_by_addr (worker_addr 4) s') = 4)
   \<and> (\<exists>why. worker_setup (\<lambda>_. INADDR_LOOPBACK_be) (\<lambda>_. True) 3 (- 1) 2 (initial_node 0 0 []) fresh_os = Inl (Exit_failure why))"
proof -
  have b: "blank (initial_node 0 0 [])" "plenty (mem (initial_node 0 0 []))" "live (mem (initial_node 0 0 [])) = 0"
    by (simp_all add: blank_def plenty_def) (simp_all add: fresh_memory_def)
  have w: "mutexes fresh_os = {}" by (simp add: fresh_os_def)
  note sw = worker_setup_network [where i = 2 and s = "initial_node 0 0 []" and inet_addr = "\<lambda>_. INADDR_LOOPBACK_be"
      and w = fresh_os and socket_ret = 3, OF _ b(1) refl]
  from sw [where mutex_ok = "\<lambda>l. l \<noteq> SEND_LOCK" and bind_ret = 0] sw [where mutex_ok = "\<lambda>_. True" and bind_ret = "- 1"] b(2,3) w
  show ?thesis by (auto split: sum.splits prod.splits)
qed

end
