(* ===== verification/Rounds.thy ===== *)
theory Rounds
  imports Worker
begin

text \<open>
  The broadcast phase of a worker of \<open>src/main.c\<close>, as a whole: rounds of its loop
  interleaved with rounds of its two threads and with datagrams from the network. Its clock
  is determined by the number of rounds, what it prints is what it delivers, and no round
  fails before the counters overflow.
\<close>

inductive thread_step :: "node \<Rightarrow> node \<Rightarrow> bool" where
  thread_send: "cbc_send_iteration s = Some (Inr s') \<Longrightarrow> thread_step s s'"
| thread_recv: "cbc_recv_iteration peek_fails recv_fails hdr_buf s = Some (Inr (hb, s')) \<Longrightarrow> thread_step s s'"
| thread_arrival: "thread_step s (s\<lparr>socket_rx := socket_rx s @ [(a, d)]\<rparr>)"

inductive_cases thread_stepE: "thread_step s s'"

inductive worker_run :: "'j cjson \<Rightarrow> worker \<Rightarrow> worker \<Rightarrow> bool" for J w where
  run_start: "worker_run J w w"
| run_round: "worker_run J w u \<Longrightarrow> worker_round J tv_sec tv_nsec u = Inr v \<Longrightarrow> worker_run J w v"
| run_thread: "worker_run J w u \<Longrightarrow> thread_step (ctx u) s \<Longrightarrow> worker_run J w (u\<lparr>ctx := s\<rparr>)"

section \<open>What a run keeps\<close>

text \<open>Every received message has text that can be printed.\<close>

definition texts_ok :: "node \<Rightarrow> bool" where
  "texts_ok s \<longleftrightarrow> (\<forall>h \<in> inbox s. \<exists>txt. c_str (payload (rcvd_message h)) = Inr txt)"

text \<open>The line printed about the n-th message.\<close>

definition text_of :: "cbcast_received_msg \<Rightarrow> u8 list" where
  "text_of h = (case c_str (payload (rcvd_message h)) of Inr txt \<Rightarrow> txt | Inl _ \<Rightarrow> [])"

definition line_of :: "cbcast_received_msg \<Rightarrow> nat \<Rightarrow> u8 list \<times> int \<times> u16" where
  "line_of h n = (text_of h, int n, sender_pid h)"

definition lines_of :: "cbcast_received_msg list \<Rightarrow> (u8 list \<times> int \<times> u16) list" where
  "lines_of ms = map (\<lambda>(n, h). line_of h n) (enumerate 1 ms)"

lemma lines_of_snoc: "lines_of (ms @ [m]) = lines_of ms @ [line_of m (Suc (length ms))]"
  by (simp add: lines_of_def enumerate_append_eq)

definition worker_inv :: "u64 list \<Rightarrow> worker \<Rightarrow> bool" where
  "worker_inv ids w \<longleftrightarrow> proc_inv (ctx w) \<and> texts_ok (ctx w) \<and> map peer_pid (peers (ctx w)) = ids
     \<and> vc_len (vclock (ctx w)) = 5 \<and> 0 \<le> counter w \<and> own_count (ctx w) = of_nat (nat (counter w) div 10)
     \<and> received_counter w = int (length (delivered (ctx w)))
     \<and> printed w = lines_of (delivered (ctx w))"

lemma arrival_text:
  "h \<in> arrivals s \<Longrightarrow> \<exists>txt. c_str (payload (rcvd_message h)) = Inr txt"
  by (auto simp: arrivals_def rcvd_of_def parsed_msg_def c_str_def)

lemma effect_texts: "effect B R s s' \<Longrightarrow> R \<subseteq> arrivals s \<Longrightarrow> texts_ok s \<Longrightarrow> texts_ok s'"
  using arrival_text unfolding effect_def texts_ok_def by blast

text \<open>Only \<open>cbc_receive\<close> adds to what has been delivered, and nothing resizes the clock.\<close>

lemma dispatch_delivered:
  assumes inv: "proc_inv s" and p: "known p s" and run: "dispatch_msg msg p s = Inr s'"
  shows "delivered s' = delivered s \<and> vc_len (vclock s') = vc_len (vclock s)"
proof -
  have ok: "fifo_ok s" "ucast p \<noteq> pid s" using inv knownD [OF p] by (simp_all add: proc_inv_def)
  have p31: "unat p < 31" using p by (simp add: known_def)
  have so: "sent_ok s" using inv by (simp add: proc_inv_def)
  have data: "delivered s' = delivered s \<and> vc_len (vclock s') = vc_len (vclock s)" if "handle_data_msg msg p s = Inr s'"
    using handle_data_msg_Inr [OF ok that] quiet_views(4,9) [of s s']
    by (auto simp: delivered_by_def held_by_def advanced_def split: causality_t.splits)
  show ?thesis
  proof (cases "kind (header msg)")
    case CBC_ACK
    with run obtain t where t: "register_ack msg p (mutex_lock SEND_LOCK s) = Inr t" "delivered s' = delivered t" "vclock s' = vclock t"
      by (auto simp: dispatch_msg_def Let_def)
    have "sent_ok (mutex_lock SEND_LOCK s)" using so by (simp add: sent_ok_def)
    show ?thesis
    proof (cases rule: register_ack_run [OF \<open>sent_ok (mutex_lock SEND_LOCK s)\<close> CBC_ACK p31])
      case 1
      then show ?thesis using t by simp
    next
      case (2 i q m)
      then show ?thesis using t by (simp split: if_splits)
    qed
  next
    case CBC_RETRANSMIT_REQ
    with run obtain t where t: "queue_retransmission msg p s = Inr t" "delivered s' = delivered t" "vclock s' = vclock t"
      by (auto simp: dispatch_msg_def)
    with queue_retransmission_Inr [OF so t(1)] quiet_views(4,9) [of s t] show ?thesis by auto
  qed (use run data in \<open>auto simp: dispatch_msg_def\<close>)
qed

lemma recv_iteration_delivered:
  assumes inv: "proc_inv s" and run: "cbc_recv_iteration peek_fails recv_fails hdr_buf s = Some (Inr (hb, s'))"
  shows "delivered s' = delivered s \<and> vc_len (vclock s') = vc_len (vclock s)"
proof (cases rule: recv_iteration_cases [OF run])
  case (1 hb' t)
  then have "s' = t" "delivered t = delivered s" "vclock t = vclock s"
    using delivery_view_fields(2,5) [OF idle_views(4) [OF 1(2)]] by simp_all
  then show ?thesis by simp
next
  case (3 hb' t bs msg p m m')
  have "known p s" using known_sender [of s] inv 3(3,4) by (simp add: proc_inv_def)
  then have t: "proc_inv t" "known p t" using idle_views(1,2) [OF 3(1)] inv by simp_all
  have "dispatch_msg msg p t = Inr s'" using 3(9) [symmetric] by auto
  from dispatch_delivered [OF t this] delivery_view_fields(2,5) [OF idle_views(4) [OF 3(1)]] show ?thesis by simp
qed simp

lemma cbc_send_delivered:
  assumes inv: "proc_inv s" and run: "cbc_send pl n s = Inr (r, s')"
  shows "delivered s' = delivered s \<and> vc_len (vclock s') = vc_len (vclock s)"
proof (cases rule: cbc_send_cases [OF run])
  case (3 bytes u)
  note u = queued_data_inv(1,2) [OF 3(6,3,4) inv]
  have "handle_old_messages u = Inr s'" using 3(8) [symmetric] by auto
  then have "swept u s'" using proc_inv_sweep(1) [OF u(1)] u(2) 3(5) by simp
  then obtain t ds where b: "buried ds u t" and q: "quiet t s'" by (auto simp: swept_def)
  have "quiet (bumped s) u" using 3(6) by (simp add: queued_data_def)
  from quiet_views(4,9) [OF this] have "delivered u = delivered s" "vc_len (vclock u) = vc_len (vclock s)"
    by (simp_all add: bumped_def)
  then show ?thesis
    using quiet_views(4,9) [OF q] delivery_view_fields(2,5) [OF buried_frames(1) [OF b]] by simp
qed auto

lemma thread_step_keeps:
  assumes run: "thread_step s s'" and inv: "proc_inv s" and tx: "texts_ok s"
  shows "proc_inv s'" "texts_ok s'" "own_count s' = own_count s" "map peer_pid (peers s') = map peer_pid (peers s)"
    "delivered s' = delivered s" "vc_len (vclock s') = vc_len (vclock s)"
proof -
  have "proc_inv s' \<and> texts_ok s' \<and> own_count s' = own_count s \<and> map peer_pid (peers s') = map peer_pid (peers s)
    \<and> delivered s' = delivered s \<and> vc_len (vclock s') = vc_len (vclock s)"
  proof (cases rule: thread_stepE [OF run])
    case 1
    then have "send_queue s \<noteq> []" by (auto simp: cbc_send_iteration_def)
    then obtain out rest where q: "send_queue s = out # rest" by (cases "send_queue s") simp_all
    note r = send_iteration_run [OF inv 1 q] and e = send_iteration_effect [OF inv 1]
    show ?thesis
      using send_iteration_inv [OF inv 1] effect_texts [OF e(1) _ tx] e(2) r(4) delivery_view_fields(2,5) [OF r(1)] by simp
  next
    case (2 pf rf hb hb')
    note e = recv_iteration_effect [OF inv 2]
    show ?thesis
      using recv_iteration_inv [OF inv 2] effect_texts [OF e(1) _ tx] e(2) recv_iteration_same_peers [OF inv 2]
        recv_iteration_delivered [OF inv 2] by (simp add: same_peers_def)
  next
    case (3 a d)
    have v: "delivery_view s' = delivery_view s" using 3 by simp
    have "proc_inv s'" using cbc_step_inv [OF step_arrival inv] 3 by blast
    then show ?thesis using inbox_cong [OF v] own_count_cong [OF v] 3 tx by (simp add: texts_ok_def)
  qed
  then show "proc_inv s'" "texts_ok s'" "own_count s' = own_count s" "map peer_pid (peers s') = map peer_pid (peers s)"
    "delivered s' = delivered s" "vc_len (vclock s') = vc_len (vclock s)" by blast+
qed

section \<open>A round keeps the invariant\<close>

lemma texts_ok_cong: "delivery_view s' = delivery_view s \<Longrightarrow> texts_ok s' = texts_ok s"
  using inbox_cong [of s' s] by (simp add: texts_ok_def)

lemma worker_receive_inv:
  assumes inv: "worker_inv ids w" and run: "worker_receive w = Inr w'"
  shows "worker_inv ids w' \<and> counter w' = counter w \<and> posted w' = posted w
     \<and> received_counter w' \<le> received_counter w + 1"
proof -
  obtain r s where rs: "cbc_receive (ctx w) = (r, s)" by fastforce
  have i: "proc_inv (ctx w)" "texts_ok (ctx w)" using inv by (simp_all add: worker_inv_def)
  note e = cbc_receive_effect [OF rs] and k = cbc_receive_inv(1,3) [OF i(1) rs]
  have ts: "texts_ok s" using effect_texts [OF e(1) _ i(2)] by simp
  have ps: "map peer_pid (peers s) = ids" "vc_len (vclock s) = 5" using rs inv by (auto simp: cbc_receive_eq worker_inv_def split: list.splits)
  show ?thesis
  proof (cases r)
    case None
    then have "w' = w\<lparr>ctx := s\<rparr>" using run rs by (simp add: worker_receive_def)
    then show ?thesis using None inv e(2) k ts ps by (simp add: worker_inv_def)
  next
    case (Some m)
    then obtain n tx where n: "int_inc (received_counter w) = Inr n" "c_str (payload (rcvd_message m)) = Inr tx"
      and w': "w' = w\<lparr>ctx := s\<lparr>mem := cbc_received_msg_free m (mem s)\<rparr>, received_counter := n,
               printed := printed w @ [(tx, n, sender_pid m)]\<rparr>"
      using run rs by (auto simp: worker_receive_def)
    have c: "n = received_counter w + 1" using n(1) by (auto simp: int_inc_def split: if_splits)
    have v: "delivery_view (s\<lparr>mem := cbc_received_msg_free m (mem s)\<rparr>) = delivery_view s" by simp
    have d: "delivered s = delivered (ctx w) @ [m]" using k(2) Some by simp
    have "line_of m (Suc (length (delivered (ctx w)))) = (tx, n, sender_pid m)"
      using n(2) c inv by (simp add: line_of_def text_of_def worker_inv_def)
    then show ?thesis
      using w' c inv e(2) k(1) ts ps d own_count_cong [OF v] texts_ok_cong [OF v]
      by (simp add: worker_inv_def lines_of_snoc)
  qed
qed

lemma worker_broadcast_inv:
  assumes inv: "worker_inv ids w" and run: "worker_broadcast w = Inr w'"
  shows "worker_inv ids w' \<and> counter w' = counter w + 1 \<and> posted w' = posted w
     \<and> received_counter w' = received_counter w"
proof -
  obtain c where "int_inc (counter w) = Inr c" using run by (auto simp: worker_broadcast_def)
  then have c: "int_inc (counter w) = Inr (counter w + 1)" by (auto simp: int_inc_def split: if_splits)
  have pos: "0 \<le> counter w" and oc: "own_count (ctx w) = of_nat (nat (counter w) div 10)"
    and i: "proc_inv (ctx w)" "texts_ok (ctx w)" using inv by (simp_all add: worker_inv_def)
  define k where "k = nat (counter w)"
  have k: "counter w = int k" using pos by (simp add: k_def)
  have "(counter w + 1) mod 10 = int (Suc k mod 10)" unfolding k by (simp add: zmod_int add.commute)
  then have k_mod: "(counter w + 1) mod 10 = 0 \<longleftrightarrow> Suc k mod 10 = 0" by simp
  show ?thesis
  proof (cases "(counter w + 1) mod 10 = 0")
    case False
    then have "Suc k mod 10 \<noteq> 0" using k_mod by simp
    then have "Suc k div 10 = k div 10" by (simp add: div_Suc)
    moreover have "w' = w\<lparr>counter := counter w + 1\<rparr>" using run c False by (simp add: worker_broadcast_def Let_def)
    ultimately show ?thesis using inv k by (simp add: worker_inv_def nat_add_distrib)
  next
    case True
    then have "Suc k mod 10 = 0" using k_mod by simp
    then have dv: "Suc k div 10 = k div 10 + 1" by (simp add: div_Suc)
    obtain r s where send: "cbc_send (Some (bytes_of_string (hello (pid (ctx w))))) (of_nat (length (hello (pid (ctx w))))) (ctx w) = Inr (r, s)"
      and r: "result_is_ok r" and w': "w' = w\<lparr>counter := counter w + 1, ctx := s\<rparr>"
      using run c True by (auto simp: worker_broadcast_def Let_def)
    note e = cbc_send_effect(1,2) [OF i(1) send]
    have "own_count s = of_nat (Suc k div 10)" using e(2) r oc dv k by simp
    moreover have "texts_ok s" using effect_texts [OF e(1) _ i(2)] by simp
    moreover have "map peer_pid (peers s) = ids"
      using cbc_send_same_peers [OF i(1) send] inv by (simp add: same_peers_def worker_inv_def)
    ultimately show ?thesis
      using w' inv k cbc_send_inv [OF i(1) send] cbc_send_delivered [OF i(1) send] by (simp add: worker_inv_def nat_add_distrib)
  qed
qed

lemma loki_live: "alloc_ok (snd (create_loki_log J ts tn lg m)) = alloc_ok m"
  and loki_total: "live (snd (create_loki_log J ts tn lg m)) = live m"
  by (simp_all add: create_loki_log_def get_current_timestamp_ns_def calloc_def Let_def)

lemma worker_statistics_inv:
  assumes inv: "worker_inv ids w" and run: "worker_statistics J ts tn w = Inr w'"
  shows "worker_inv ids w' \<and> counter w' = counter w \<and> length (posted w') = Suc (length (posted w))
     \<and> received_counter w' = received_counter w"
proof -
  obtain j s where c: "cbc_collect_statistics J (ctx w) = Inr (j, s)"
    using run by (auto simp: worker_statistics_def)
  obtain lg m where "create_loki_log J ts tn j (mem s) = (lg, m)" by fastforce
  with c run have w: "w' = w\<lparr>ctx := s\<lparr>mem := m\<rparr>, posted := posted w @ [map_option (print_unformatted J) lg]\<rparr>"
    by (simp add: worker_statistics_def)
  have i: "proc_inv (ctx w)" using inv by (simp add: worker_inv_def)
  then have "vc_wf (vclock (ctx w))" by (simp add: proc_inv_def fifo_ok_def)
  from collect_run [OF this, of J] c have k: "collected (ctx w) s" by (auto split: if_splits)
  then have v: "delivery_view s = delivery_view (ctx w)" "peers s = peers (ctx w)" by (simp_all add: collected_def)
  have v': "delivery_view (ctx w') = delivery_view (ctx w)" using v(1) w by simp
  show ?thesis
    using w inv v(2) collected_inv [OF k i] own_count_cong [OF v'] texts_ok_cong [OF v'] delivery_view_fields [OF v']
    by (simp add: worker_inv_def)
qed

lemma worker_round_inv:
  assumes "worker_inv ids w" "worker_round J ts tn w = Inr w'"
  shows "worker_inv ids w' \<and> counter w' = counter w + 1 \<and> length (posted w') = Suc (length (posted w))
     \<and> received_counter w' \<le> received_counter w + 1"
proof -
  obtain u v where u: "worker_receive w = Inr u" and v: "worker_broadcast u = Inr v"
    and w': "worker_statistics J ts tn v = Inr w'"
    using assms(2) by (auto simp: worker_round_def)
  note 1 = worker_receive_inv [OF assms(1) u]
  note 2 = worker_broadcast_inv [OF conjunct1 [OF 1] v]
  from worker_statistics_inv [OF conjunct1 [OF 2] w'] 1 2 show ?thesis by simp
qed

lemma worker_run_inv:
  "worker_run J w u \<Longrightarrow> worker_inv ids w \<Longrightarrow> int (length (posted w)) = counter w \<Longrightarrow> received_counter w \<le> counter w \<Longrightarrow>
     worker_inv ids u \<and> int (length (posted u)) = counter u \<and> received_counter u \<le> counter u"
proof (induction rule: worker_run.induct)
  case (run_round u ts tn v)
  then show ?case using worker_round_inv [of ids u J ts tn v] by simp
next
  case (run_thread u s)
  then have u: "worker_inv ids u" "int (length (posted u)) = counter u" "received_counter u \<le> counter u" by simp_all
  then have "proc_inv (ctx u)" "texts_ok (ctx u)" by (simp_all add: worker_inv_def)
  from thread_step_keeps [OF run_thread.hyps(2) this] u show ?case by (simp add: worker_inv_def)
qed simp

text \<open>The state a worker enters its broadcast phase in.\<close>

definition ready_worker :: "u64 \<Rightarrow> worker \<Rightarrow> bool" where
  "ready_worker i w \<longleftrightarrow> (\<exists>inet_addr mutex_ok socket_ret bind_ret s0 w0 s w1. blank s0
     \<and> worker_setup inet_addr mutex_ok socket_ret bind_ret i s0 w0 = Inr (s, w1) \<and> w = start_worker s)"

lemma set_up_pids: "map peer_pid (peers (set_up ip fd i m t s)) = filter (\<lambda>j. j \<noteq> i) (map of_nat [0..<5])"
  by (simp add: set_up_def peer_at_def added_peer_def comp_def)

lemma ready_worker_inv:
  assumes i: "unat i < 5" and r: "ready_worker i w"
  shows "worker_inv (filter (\<lambda>j. j \<noteq> i) (map of_nat [0..<5])) w \<and> int (length (posted w)) = counter w
     \<and> received_counter w \<le> counter w \<and> counter w = 0 \<and> pid (ctx w) = i"
proof -
  obtain ia mx sr br s0 w0 s w1 where b: "blank s0"
    and su: "worker_setup ia mx sr br i s0 w0 = Inr (s, w1)" and w: "w = start_worker s"
    using r by (auto simp: ready_worker_def)
  obtain m t where s: "s = set_up (ia ''127.0.0.1'') sr i m t s0"
    using worker_setup_run [OF i, of ia mx sr br s0 w0] su by (metis Inl_Inr_False Inr_inject prod.inject)
  have "unat i < length (replicate 5 (0 :: u64))" using i by simp
  then have "own_count s = 0" by (simp add: s own_count_def set_up_def)
  moreover have "inbox s = {}" using b by (simp add: s inbox_def set_up_def zeroed_def blank_def)
  moreover have "delivered s = []" using b by (simp add: s set_up_def zeroed_def blank_def)
  moreover have "vc_len (vclock s) = 5" "pid s = i" by (simp_all add: s set_up_def)
  ultimately show ?thesis
    using set_up_inv [OF i b, of "ia ''127.0.0.1''" sr m t] set_up_pids [of "ia ''127.0.0.1''" sr i m t s0] w s
    by (simp add: worker_inv_def start_worker_def texts_ok_def lines_of_def)
qed

section \<open>A round returns\<close>

lemma hello_length: "0 < length (hello p)" "length (hello p) \<le> 63"
  by (simp_all add: hello_def)

lemma cbc_send_alloc:
  assumes inv: "proc_inv s" and run: "cbc_send pl n s = Inr (r, s')"
  shows "alloc_ok (mem s') = alloc_ok (mem s)"
proof (cases rule: cbc_send_cases [OF run])
  case (3 bytes u)
  note u = queued_data_inv(1,2) [OF 3(6,3,4) inv]
  have "handle_old_messages u = Inr s'" using 3(8) [symmetric] by auto
  then have "swept u s'" using proc_inv_sweep(1) [OF u(1)] u(2) 3(5) by simp
  then have "alloc_ok (mem s') = alloc_ok (mem u)" by (auto simp: swept_def)
  moreover have "alloc_ok (mem u) = alloc_ok (mem s)" using 3(6) by (simp add: queued_data_def)
  ultimately show ?thesis by simp
qed auto

lemma hello_sent:
  assumes "proc_inv s" "plenty (mem s)" "peers s \<noteq> []"
  shows "\<exists>s'. cbc_send (Some (bytes_of_string (hello p))) (of_nat (length (hello p))) s = Inr (result_new_ok (), s')
     \<and> plenty (mem s')"
proof -
  let ?n = "of_nat (length (hello p)) :: u64"
  have n: "unat (ucast ?n :: u16) = length (hello p)"
    using hello_length(2) [of p] by (simp add: unat_ucast_small unat_of_nat_small)
  then have rd: "payload_readable (Some (bytes_of_string (hello p))) (ucast ?n)"
    by (simp add: payload_readable_def bytes_of_string_def)
  obtain r s' where run: "cbc_send (Some (bytes_of_string (hello p))) ?n s = Inr (r, s')"
    using cbc_send_safe [OF assms(1,2) rd] by blast
  have nz: "(ucast ?n :: u16) \<noteq> 0" using n hello_length(1) [of p] by (metis less_irrefl unsigned_0)
  have "plenty (mem s')" using cbc_send_alloc [OF assms(1) run] assms(2) by (simp add: plenty_def)
  moreover have "r = result_new_ok ()"
  proof (cases rule: cbc_send_cases [OF run])
    case (1 e m)
    then show ?thesis using assms(2,3) nz by simp
  next
    case (3 bytes u)
    then show ?thesis by (metis (no_types, lifting) andthen_eq_Inr Inr_inject prod.inject)
  qed simp
  ultimately show ?thesis using run by simp
qed

lemma worker_round_safe:
  assumes inv: "worker_inv ids w" and ids: "ids \<noteq> []" and pl: "plenty (mem (ctx w))"
    and c: "counter w < 2147483647" "received_counter w < 2147483647"
  shows "\<exists>w'. worker_round J ts tn w = Inr w' \<and> plenty (mem (ctx w')) \<and> received_counter w' \<le> received_counter w + 1"
proof -
  have "\<exists>u. worker_receive w = Inr u \<and> plenty (mem (ctx u)) \<and> received_counter u \<le> received_counter w + 1"
  proof -
    obtain r s where rs: "cbc_receive (ctx w) = (r, s)" by fastforce
    have m: "mem s = mem (ctx w)" using rs by (auto simp: cbc_receive_eq split: list.splits)
    show ?thesis
    proof (cases r)
      case None
      then show ?thesis using rs m pl by (simp add: worker_receive_def)
    next
      case (Some h)
      then have "h \<in> inbox (ctx w)" using rs by (auto simp: cbc_receive_eq inbox_def split: list.splits)
      then obtain tx where "c_str (payload (rcvd_message h)) = Inr tx" using inv by (auto simp: worker_inv_def texts_ok_def)
      then show ?thesis
        using rs m pl Some c(2) by (simp add: worker_receive_def int_inc_def cbc_received_msg_free_def cbc_msg_free_def)
    qed
  qed
  then obtain u where u: "worker_receive w = Inr u" "plenty (mem (ctx u))" "received_counter u \<le> received_counter w + 1"
    by blast
  note iu = worker_receive_inv [OF inv u(1)]
  then have pu: "proc_inv (ctx u)" "peers (ctx u) \<noteq> []" using ids by (auto simp: worker_inv_def)
  have "\<exists>v. worker_broadcast u = Inr v \<and> plenty (mem (ctx v)) \<and> received_counter v = received_counter u"
    using hello_sent [OF pu(1) u(2) pu(2), of "pid (ctx u)"] iu c(1) u(2)
    by (auto simp: worker_broadcast_def int_inc_def Let_def)
  then obtain v where v: "worker_broadcast u = Inr v" "plenty (mem (ctx v))" "received_counter v = received_counter u"
    by blast
  note iv = worker_broadcast_inv [OF conjunct1 [OF iu] v(1)]
  then have wf: "vc_wf (vclock (ctx v))" "vc_len (vclock (ctx v)) = 5"
    by (simp_all add: worker_inv_def proc_inv_def fifo_ok_def)
  then have "4 \<le> length (vc_clock (vclock (ctx v)))" by (simp add: vc_wf_def)
  with collect_run [OF wf(1), of J] v(2)
  obtain j s where j: "cbc_collect_statistics J (ctx v) = Inr (j, s)" "collected (ctx v) s" by auto
  obtain lg m where l: "create_loki_log J ts tn j (mem s) = (lg, m)" by fastforce
  have "alloc_ok m = alloc_ok (mem s)" using loki_live [of J ts tn j "mem s"] l by simp
  then have "plenty m" using j(2) v(2) by (simp add: collected_def plenty_def)
  then show ?thesis
    using u v j(1) l by (simp add: worker_round_def worker_statistics_def)
qed

lemma ready_run:
  assumes "unat i < 5" "ready_worker i w0" "worker_run J w0 w"
  shows "worker_inv (filter (\<lambda>j. j \<noteq> i) (map of_nat [0..<5])) w"
    "int (length (posted w)) = counter w" "received_counter w \<le> counter w"
  using worker_run_inv [OF assms(3)] ready_worker_inv [OF assms(1,2)] by blast+

lemma worker_ids_ne: "unat (i :: u64) < 5 \<Longrightarrow> filter (\<lambda>j. j \<noteq> i) (map of_nat [0..<5]) \<noteq> []"
  using worker_ids_length [of i] by (metis list.size(3) zero_neq_numeral)

text \<open>With enough memory and no other events, any number of rounds can be run.\<close>

lemma rounds_exist:
  assumes i: "unat i < 5" and r: "ready_worker i w0" and pl: "plenty (mem (ctx w0))"
  shows "int n \<le> 2147483647 \<Longrightarrow> \<exists>w. worker_run J w0 w \<and> counter w = int n \<and> plenty (mem (ctx w))"
proof (induction n)
  case 0
  then show ?case using ready_worker_inv [OF i r] pl run_start by (intro exI [of _ w0]) simp
next
  case (Suc n)
  then obtain w where w: "worker_run J w0 w" "counter w = int n" "plenty (mem (ctx w))" by auto
  note k = ready_run [OF i r w(1)]
  have "counter w < 2147483647" "received_counter w < 2147483647" using w(2) k(3) Suc.prems by simp_all
  then obtain w' where w': "worker_round J 0 0 w = Inr w'" "plenty (mem (ctx w'))"
    using worker_round_safe [OF k(1) worker_ids_ne [OF i] w(3), of J 0 0] by blast
  with worker_round_inv [OF k(1) w'(1)] w run_round show ?case by (intro exI [of _ w']) auto
qed

section \<open>What a round does\<close>

text \<open>The line printed about the next message, and the message broadcast.\<close>

definition next_line :: "node \<Rightarrow> (u8 list \<times> int \<times> u16) list" where
  "next_line s = (case delivery_queue s of [] \<Rightarrow> [] | m # ms \<Rightarrow> [line_of m (Suc (length (delivered s)))])"

definition hello_out :: "node \<Rightarrow> cbcast_outgoing_msg" where
  "hello_out s = \<lparr>out_message = data_msg (bytes_of_string (hello (pid s))) (of_nat (length (hello (pid s)))) (next_own s),
     out_addr = None, socket_flags = 0\<rparr>"

text \<open>The statistics of a context as JSON, and the record for the log server around it.\<close>

definition statistics_json :: "'j cjson \<Rightarrow> node \<Rightarrow> 'j" where
  "statistics_json J s = add_to_object J
     (foldl (\<lambda>ob (k, v). add_to_object J ob k (create_number J v)) (create_object J) (number_fields (pid s) (stats s)))
     ''vector_clock_snapshot''
     (foldl (add_to_array J) (create_array J) (map (create_number J) (take 4 (vc_clock (vclock s)))))"

definition log_record :: "'j cjson \<Rightarrow> nat \<Rightarrow> nat \<Rightarrow> 'j \<Rightarrow> 'j" where
  "log_record J tv_sec tv_nsec body =
     (let entry = foldl (add_to_array J) (create_array J)
            [create_string J (take 20 (decimal tv_sec @ zero_padded 9 tv_nsec)), create_string J (print_unformatted J body)];
          labels = foldl (\<lambda>ob (k, v). add_to_object J ob k (create_string J v)) (create_object J)
            [(''label'', ''cbcast_logs''), (''host'', ''localhost''), (''application'', ''cbc''), (''level'', ''info'')];
          stream = foldl (\<lambda>ob (k, v). add_to_object J ob k v) (create_object J)
            [(''stream'', labels), (''values'', add_to_array J (create_array J) entry)]
      in add_to_object J (create_object J) ''streams'' (add_to_array J (create_array J) stream))"

lemma create_loki_log_made:
  "alloc_ok m (allocs m) \<Longrightarrow> fst (create_loki_log J ts tn body m) = Some (log_record J ts tn body)"
  by (simp add: create_loki_log_def get_current_timestamp_ns_def calloc_def log_record_def Let_def)

lemma worker_receive_prints:
  assumes inv: "worker_inv ids w" and run: "worker_receive w = Inr u"
  shows "printed u = printed w @ next_line (ctx w)"
    "delivered (ctx u) = delivered (ctx w) @ take 1 (delivery_queue (ctx w))"
    "send_queue (ctx u) = send_queue (ctx w)" "hello_out (ctx u) = hello_out (ctx w)"
proof -
  obtain r s where rs: "cbc_receive (ctx w) = (r, s)" by fastforce
  have d: "delivered (ctx u) = delivered (ctx w) @ take 1 (delivery_queue (ctx w))"
    and "send_queue (ctx u) = send_queue (ctx w)" "pid (ctx u) = pid (ctx w)" "vclock (ctx u) = vclock (ctx w)"
    using rs run by (auto simp: worker_receive_def cbc_receive_eq split: list.splits)
  then show "delivered (ctx u) = delivered (ctx w) @ take 1 (delivery_queue (ctx w))"
    "send_queue (ctx u) = send_queue (ctx w)" "hello_out (ctx u) = hello_out (ctx w)"
    by (simp_all add: hello_out_def next_own_def own_count_def)
  have "printed w = lines_of (delivered (ctx w))" "printed u = lines_of (delivered (ctx u))"
    using inv worker_receive_inv [OF inv run] by (simp_all add: worker_inv_def)
  then show "printed u = printed w @ next_line (ctx w)"
    unfolding d by (cases "delivery_queue (ctx w)") (simp_all add: next_line_def lines_of_snoc)
qed

lemma worker_broadcast_queues:
  assumes inv: "worker_inv ids w" and run: "worker_broadcast w = Inr v"
  shows "printed v = printed w" "delivered (ctx v) = delivered (ctx w)"
    "if (counter w + 1) mod 10 = 0 then hello_out (ctx w) \<in> set (send_queue (ctx v))
     else send_queue (ctx v) = send_queue (ctx w)"
proof -
  have inc: "int_inc (counter w) = Inr (counter w + 1)"
    using run by (auto simp: worker_broadcast_def int_inc_def split: if_splits)
  have i: "proc_inv (ctx w)" using inv by (simp add: worker_inv_def)
  have "printed v = printed w \<and> delivered (ctx v) = delivered (ctx w)
    \<and> (if (counter w + 1) mod 10 = 0 then hello_out (ctx w) \<in> set (send_queue (ctx v))
       else send_queue (ctx v) = send_queue (ctx w))"
  proof (cases "(counter w + 1) mod 10 = 0")
    case False
    then have "v = w\<lparr>counter := counter w + 1\<rparr>" using run inc by (simp add: worker_broadcast_def Let_def)
    with False show ?thesis by simp
  next
    case True
    obtain r s where send: "cbc_send (Some (bytes_of_string (hello (pid (ctx w))))) (of_nat (length (hello (pid (ctx w))))) (ctx w) = Inr (r, s)"
      and r: "result_is_ok r" and v: "v = w\<lparr>counter := counter w + 1, ctx := s\<rparr>"
      using run inc True by (auto simp: worker_broadcast_def Let_def)
    have "hello_out (ctx w) \<in> set (send_queue s)"
    proof (cases rule: cbc_send_cases [OF send])
      case (1 e m)
      then show ?thesis using r by auto
    next
      case (3 bytes t)
      note t = queued_data_inv(1,2) [OF 3(6,3,4) i]
      have "handle_old_messages t = Inr s" using 3(8) [symmetric] by auto
      then have "swept t s" using proc_inv_sweep(1) [OF t(1)] t(2) 3(5) by simp
      then have "set (send_queue t) \<subseteq> set (send_queue s)" by (auto simp: swept_def)
      then show ?thesis using 3(1,6) by (auto simp: queued_data_def hello_out_def)
    qed simp
    then show ?thesis using True v cbc_send_delivered [OF i send] by simp
  qed
  then show "printed v = printed w" "delivered (ctx v) = delivered (ctx w)"
    "if (counter w + 1) mod 10 = 0 then hello_out (ctx w) \<in> set (send_queue (ctx v))
     else send_queue (ctx v) = send_queue (ctx w)" by blast+
qed

lemma worker_statistics_posts:
  assumes inv: "worker_inv ids w" and run: "worker_statistics J ts tn w = Inr w'"
  shows "printed w' = printed w" "delivered (ctx w') = delivered (ctx w)" "send_queue (ctx w') = send_queue (ctx w)"
    "alloc_ok (mem (ctx w')) = alloc_ok (mem (ctx w))"
    "plenty (mem (ctx w)) \<Longrightarrow> posted w' = posted w @ [Some (print_unformatted J (log_record J ts tn (statistics_json J (ctx w'))))]"
proof -
  obtain j s where c: "cbc_collect_statistics J (ctx w) = Inr (j, s)"
    using run by (auto simp: worker_statistics_def)
  obtain lg m where lg: "create_loki_log J ts tn j (mem s) = (lg, m)" by fastforce
  with c run have w': "w' = w\<lparr>ctx := s\<lparr>mem := m\<rparr>, posted := posted w @ [map_option (print_unformatted J) lg]\<rparr>"
    by (simp add: worker_statistics_def)
  have "vc_wf (vclock (ctx w))" using inv by (simp add: worker_inv_def proc_inv_def fifo_ok_def)
  from collect_run [OF this, of J] c have k: "collected (ctx w) s"
    and st: "j = add_to_object J
       (foldl (\<lambda>ob (k, v). add_to_object J ob k (create_number J v)) (create_object J) (number_fields (pid (ctx w)) (stats s)))
       ''vector_clock_snapshot''
       (foldl (add_to_array J) (create_array J) (map (create_number J) (take 4 (vc_clock (vclock (ctx w))))))"
    by (auto split: if_splits)
  from k have v: "delivery_view s = delivery_view (ctx w)" "send_queue s = send_queue (ctx w)" by (simp_all add: collected_def)
  note f = delivery_view_fields [OF v(1)]
  show "printed w' = printed w" "delivered (ctx w') = delivered (ctx w)" "send_queue (ctx w') = send_queue (ctx w)"
    using w' v(2) f by simp_all
  show "alloc_ok (mem (ctx w')) = alloc_ok (mem (ctx w))"
    using w' lg loki_live [of J ts tn j "mem s"] k by (simp add: collected_def)
  assume "plenty (mem (ctx w))"
  then have "alloc_ok (mem s) (allocs (mem s))" using k by (simp add: collected_def)
  from create_loki_log_made [OF this, of J ts tn j] lg have "lg = Some (log_record J ts tn j)" by simp
  moreover have "j = statistics_json J (ctx w')" using w' f by (simp add: statistics_json_def st)
  ultimately show "posted w' = posted w @ [Some (print_unformatted J (log_record J ts tn (statistics_json J (ctx w'))))]"
    using w' by simp
qed

section \<open>The final state can be printed\<close>

lemma dump_received_total:
  "\<forall>h \<in> set hs. \<exists>t. c_str (payload (rcvd_message h)) = Inr t \<Longrightarrow>
     dump_received i hs = Inr (map (\<lambda>(n, h). (n, text_of h, rcvd_clock h, sender_pid h)) (enumerate i hs))"
  by (induction hs arbitrary: i) (auto simp: text_of_def)

definition sent_line :: "nat \<Rightarrow> cbcast_sent_msg \<Rightarrow> nat \<times> u8 list \<times> u16 \<times> u64 \<times> u64" where
  "sent_line n m = (n, takeWhile (\<lambda>b. b \<noteq> 0) (the (payload (sent_message m))), sent_clock m, ack_target m, ack_bitmap m)"

lemma dump_sent_total:
  "\<forall>p \<in> set ps. \<exists>m. sent_heap s p = Some m \<and> sent_msg_ok m \<Longrightarrow>
     dump_sent i ps s = Inr (map (\<lambda>(n, p). sent_line n (sent_at s p)) (enumerate i ps))"
proof (induction ps arbitrary: i)
  case (Cons p ps)
  then obtain m where m: "sent_heap s p = Some m" "sent_msg_ok m" by auto
  then obtain bytes where "payload (sent_message m) = Some (bytes @ [0])"
    by (auto simp: sent_msg_ok_def msg_wf_def payload_wf_def)
  with Cons m show ?case by (simp add: c_str_def sent_line_def sent_at_def sent_clock_def read_sent_def)
qed simp

lemma final_state_total:
  assumes inv: "worker_inv ids w"
  shows "\<exists>d h t. print_final_state (ctx w) = Inr \<lparr>sent_messages = own_count (ctx w),
       queue_lengths = (length (delivery_queue (ctx w)), length (held_msg_buffer (ctx w)), length (sent_msg_buffer (ctx w))),
       delivery_lines = d, held_lines = h, sent_lines = t\<rparr>
     \<and> length d = length (delivery_queue (ctx w)) \<and> length h = length (held_msg_buffer (ctx w))
     \<and> t = map (\<lambda>(n, m). sent_line n m) (enumerate 0 (sent_list (ctx w)))"
proof -
  let ?s = "ctx w"
  have tx: "\<forall>h \<in> set (delivery_queue ?s). \<exists>t. c_str (payload (rcvd_message h)) = Inr t"
    "\<forall>h \<in> set (held_msg_buffer ?s). \<exists>t. c_str (payload (rcvd_message h)) = Inr t"
    using inv by (auto simp: worker_inv_def texts_ok_def inbox_def)
  have sent: "\<forall>p \<in> set (sent_msg_buffer ?s). \<exists>m. sent_heap ?s p = Some m \<and> sent_msg_ok m"
    using inv by (simp add: worker_inv_def proc_inv_def sent_ok_def)
  have "unat (pid ?s) < length (vc_clock (vclock ?s))" using inv by (simp add: worker_inv_def proc_inv_def pids_ok_def)
  moreover have "map (\<lambda>(n, p). sent_line n (sent_at ?s p)) (enumerate 0 (sent_msg_buffer ?s))
      = map (\<lambda>(n, m). sent_line n m) (enumerate 0 (sent_list ?s))"
    by (simp add: sent_list_def enumerate_eq_zip zip_map2 comp_def case_prod_unfold)
  ultimately show ?thesis
    using dump_received_total [OF tx(1), of 0] dump_received_total [OF tx(2), of 0] dump_sent_total [OF sent, of 0]
    by (simp add: print_final_state_def vc_read_def own_count_def)
qed

section \<open>Properties\<close>

text \<open>
  C34: In every state a worker can reach from its setup, with any datagrams from the network and
  any interleaving of its loop and its two threads: its own clock is the number of its rounds
  divided by ten, it has handed one record to the log per round, and what it has printed are
  exactly the messages delivered to it, in order, each with its text, numbered 1, 2, 3 and so on.
  Its final state can be printed at any time: the number of messages it has sent is its clock,
  and every buffered message has a line.
\<close>

theorem worker_run_spec:
  assumes "unat i < 5" "ready_worker i w0" "worker_run J w0 w"
  shows "own_count (ctx w) = of_nat (nat (counter w) div 10) \<and> int (length (posted w)) = counter w
     \<and> printed w = lines_of (delivered (ctx w)) \<and> proc_inv (ctx w)
     \<and> (\<exists>rep. print_final_state (ctx w) = Inr rep \<and> sent_messages rep = own_count (ctx w)
        \<and> length (delivery_lines rep) = length (delivery_queue (ctx w))
        \<and> length (held_lines rep) = length (held_msg_buffer (ctx w))
        \<and> sent_lines rep = map (\<lambda>(n, m). sent_line n m) (enumerate 0 (sent_list (ctx w))))"
proof -
  note k = ready_run [OF assms]
  have "\<exists>rep. print_final_state (ctx w) = Inr rep \<and> sent_messages rep = own_count (ctx w)
        \<and> length (delivery_lines rep) = length (delivery_queue (ctx w))
        \<and> length (held_lines rep) = length (held_msg_buffer (ctx w))
        \<and> sent_lines rep = map (\<lambda>(n, m). sent_line n m) (enumerate 0 (sent_list (ctx w)))"
    using final_state_total [OF k(1)] by auto
  with k show ?thesis by (simp add: worker_inv_def)
qed

text \<open>Worker 2, set up in a fresh world.\<close>

lemma worker_2_ready:
  "\<exists>s. ready_worker 2 (start_worker s) \<and> plenty (mem s) \<and> alloc_ok (mem s) = (\<lambda>_. True)"
proof -
  have b: "blank (initial_node 0 0 [])" "mem (initial_node 0 0 []) = fresh_memory" by (simp_all add: blank_def)
  have i: "unat (2 :: u64) < 5" by simp
  show ?thesis
  proof (cases rule: worker_setup_run [OF i, of "\<lambda>_. INADDR_LOOPBACK_be" "\<lambda>_. True" 3 0 "initial_node 0 0 []" fresh_os])
    case (1 m t w')
    let ?s = "set_up INADDR_LOOPBACK_be 3 2 m t (initial_node 0 0 [])"
    have "ready_worker 2 (start_worker ?s)" using 1(1) b(1) unfolding ready_worker_def by blast
    moreover have "alloc_ok (mem ?s) = (\<lambda>_. True)" using 1(3) b(2) by (simp add: set_up_def) (simp add: fresh_memory_def)
    ultimately show ?thesis by (intro exI [of _ ?s]) (simp add: plenty_def)
  qed (use b in \<open>simp_all add: INADDR_LOOPBACK_be_def INADDR_NONE_def\<close>)
qed

theorem worker_run_spec_witness:
  "\<exists>w :: worker. counter w = 25 \<and> own_count (ctx w) = 2 \<and> length (posted w) = 25 \<and> printed w = lines_of (delivered (ctx w))"
proof -
  obtain s where s: "ready_worker 2 (start_worker s)" "plenty (mem s)" using worker_2_ready by blast
  have i: "unat (2 :: u64) < 5" by simp
  obtain w where w: "worker_run json_impl (start_worker s) w" "counter w = int 25"
    using rounds_exist [OF i s(1), of 25 json_impl] s(2) by (auto simp: start_worker_def)
  from worker_run_spec [OF i s(1) w(1)] w(2) show ?thesis by (intro exI [of _ w]) simp
qed

text \<open>
  C35: Liveness of the loop: in every state a worker can reach in which allocations succeed, and
  before its round counter reaches the largest int, the next round returns, whatever messages
  were delivered in between, and does all its parts: it takes the next message, if there is one,
  and prints its line; in every tenth round it queues its greeting as a data message with its
  next clock, and in the others nothing; and it hands the log server the record of the counters
  the context then has, with the time and the first four entries of the clock.
\<close>

theorem worker_round_returns:
  assumes "unat i < 5" "ready_worker i w0" "worker_run J w0 w" "plenty (mem (ctx w))" "counter w < 2147483647"
  shows "\<exists>w'. worker_round J tv_sec tv_nsec w = Inr w' \<and> counter w' = counter w + 1
     \<and> printed w' = printed w @ next_line (ctx w)
     \<and> delivered (ctx w') = delivered (ctx w) @ take 1 (delivery_queue (ctx w))
     \<and> (if (counter w + 1) mod 10 = 0 then hello_out (ctx w) \<in> set (send_queue (ctx w'))
        else send_queue (ctx w') = send_queue (ctx w))
     \<and> posted w' = posted w
         @ [Some (print_unformatted J (log_record J tv_sec tv_nsec (statistics_json J (ctx w'))))]"
proof -
  note k = ready_run [OF assms(1-3)]
  obtain w' where w': "worker_round J tv_sec tv_nsec w = Inr w'" "plenty (mem (ctx w'))"
    using worker_round_safe [OF k(1) worker_ids_ne [OF assms(1)] assms(4,5), of J tv_sec tv_nsec] k(3) assms(5) by auto
  then obtain u v where u: "worker_receive w = Inr u" and v: "worker_broadcast u = Inr v"
    and s: "worker_statistics J tv_sec tv_nsec v = Inr w'"
    by (auto simp: worker_round_def)
  note 1 = worker_receive_inv [OF k(1) u] worker_receive_prints [OF k(1) u]
  note 2 = worker_broadcast_inv [OF conjunct1 [OF 1(1)] v] worker_broadcast_queues [OF conjunct1 [OF 1(1)] v]
  note 3 = worker_statistics_inv [OF conjunct1 [OF 2(1)] s] worker_statistics_posts [OF conjunct1 [OF 2(1)] s]
  have "plenty (mem (ctx v))" using 3(5) w'(2) by (simp add: plenty_def)
  from 3(6) [OF this] show ?thesis
    using w'(1) 1 2 3(1-4) by (intro exI [of _ w']) auto
qed

theorem worker_round_returns_witness:
  "\<exists>w w'. worker_round json_impl 0 0 w = Inr w' \<and> counter w' = 10 \<and> hello_out (ctx w) \<in> set (send_queue (ctx w'))
     \<and> printed w' = printed w @ next_line (ctx w)
     \<and> posted w' = posted w @ [Some (print_unformatted json_impl (log_record json_impl 0 0 (statistics_json json_impl (ctx w'))))]"
proof -
  obtain s where s: "ready_worker 2 (start_worker s)" "plenty (mem s)" using worker_2_ready by blast
  have i: "unat (2 :: u64) < 5" by simp
  obtain w where w: "worker_run json_impl (start_worker s) w" "counter w = int 9" "plenty (mem (ctx w))"
    using rounds_exist [OF i s(1), of 9 json_impl] s(2) by (auto simp: start_worker_def)
  from worker_round_returns [OF i s(1) w(1,3), of 0 0] w(2)
  have "\<exists>w'. worker_round json_impl 0 0 w = Inr w' \<and> counter w' = 10 \<and> hello_out (ctx w) \<in> set (send_queue (ctx w'))
     \<and> printed w' = printed w @ next_line (ctx w)
     \<and> posted w' = posted w @ [Some (print_unformatted json_impl (log_record json_impl 0 0 (statistics_json json_impl (ctx w'))))]"
    by auto
  then show ?thesis ..
qed

text \<open>
  C36: The program ends itself: a worker that has completed 655349 rounds (45 hours at four
  rounds a second) broadcasts in its next round a message that ends every process which has
  this worker among its peers and handles the message, whatever its state.
\<close>

theorem worker_ends_others:
  assumes "unat i < 5" "ready_worker i w0" "worker_run J w0 w" "counter w = 655349"
    and "worker_round J tv_sec tv_nsec w = Inr w'"
  shows "\<exists>out \<in> set (send_queue (ctx w')). kind (header (out_message out)) = CBC_DATA
     \<and> (\<forall>r p. proc_inv r \<and> known p r \<longrightarrow> (\<exists>why. handle_data_msg (out_message out) p r = Inl (Exit_failure why)))"
proof -
  note k = ready_run [OF assms(1-3)]
  obtain u v where u: "worker_receive w = Inr u" and v: "worker_broadcast u = Inr v"
    and w': "worker_statistics J tv_sec tv_nsec v = Inr w'"
    using assms(5) by (auto simp: worker_round_def)
  note iu = worker_receive_inv [OF k(1) u]
  then have c: "counter u = 655349" "proc_inv (ctx u)" "own_count (ctx u) = 65534"
    using assms(4) by (simp_all add: worker_inv_def)
  let ?out = "hello_out (ctx u)"
  note iv = worker_broadcast_inv [OF conjunct1 [OF iu] v]
  have "?out \<in> set (send_queue (ctx w'))"
    using worker_broadcast_queues(3) [OF conjunct1 [OF iu] v] c(1)
      worker_statistics_posts(3) [OF conjunct1 [OF iv] w'] by simp
  moreover have "\<exists>why. handle_data_msg (out_message ?out) p r = Inl (Exit_failure why)" if "proc_inv r" "known p r" for p r
  proof (rule handle_data_msg_gives_up [OF that])
    have "next_own (ctx u) = 65535" using c(3) by (simp add: next_own_def own_count_def)
    then show "gives_up (out_message ?out) p r"
      by (simp add: gives_up_def hello_out_def data_msg_def created_msg_def header_only_def set_clock_def UINT16_MAX_def)
  qed
  ultimately show ?thesis by (intro bexI [of _ ?out]) (auto simp: hello_out_def data_msg_def created_msg_def header_only_def set_clock_def)
qed

theorem worker_ends_others_witness:
  "\<exists>(w :: worker) out. counter w = 655350 \<and> out \<in> set (send_queue (ctx w))
     \<and> (\<exists>why. handle_data_msg (out_message out) 1 (initial_node 0 5 [worker_peer 1, worker_peer 2]) = Inl (Exit_failure why))"
proof -
  obtain s where s: "ready_worker 2 (start_worker s)" "plenty (mem s)" using worker_2_ready by blast
  have i: "unat (2 :: u64) < 5" by simp
  obtain w where w: "worker_run json_impl (start_worker s) w" "counter w = int 655349" "plenty (mem (ctx w))"
    using rounds_exist [OF i s(1), of 655349 json_impl] s(2) by (auto simp: start_worker_def)
  note k = ready_run [OF i s(1) w(1)]
  have c: "counter w = 655349" using w(2) by simp
  have "received_counter w < 2147483647" using k(3) c by simp
  then obtain w' where w': "worker_round json_impl 0 0 w = Inr w'"
    using worker_round_safe [OF k(1) worker_ids_ne [OF i] w(3), of json_impl 0 0] c by auto
  have "counter w' = 655350" using worker_round_inv [OF k(1) w'] c by simp
  with worker_ends_others [OF i s(1) w(1) c w'] example_proc_inv example_known show ?thesis by blast
qed

end
