(* ===== verification/Shutdown.thy ===== *)
theory Shutdown
  imports Rounds
begin

text \<open>
  \<open>src/main.c\<close>, all processes: the parent that forks the workers, waits for the interrupt and
  ends them one by one, and the protocol of the workers over the shared array \<open>sync_state\<close>.
  Entry i below \<open>NUM_WORKERS\<close> says that worker i has set itself up; the last entry is the
  number of the worker whose turn it is to print its final state.

  A step is one access to the shared array, one system call or one signal, so the scan of the
  barrier and the increment of the turn are interleaved with the other processes at every
  read and write. \<open>running\<close> is a variable of each process. What a worker does in its
  broadcast phase is \<open>Rounds\<close>; here it is the phase \<open>Broadcasting\<close>. A worker can fail at any
  moment (\<open>exit(EXIT_FAILURE)\<close>, a crash).
\<close>

section \<open>The processes\<close>

datatype phase =
  Unforked
| Setup                  \<comment> \<open>\<open>cbc_init\<close>, \<open>cbc_add_peer\<close>\<close>
| Notifying              \<comment> \<open>before \<open>sync_state[pid] = 1\<close>\<close>
| Checking nat           \<comment> \<open>the barrier, about to read entry i\<close>
| Broadcasting
| Awaiting_turn
| Printing
| Passing int            \<comment> \<open>has read the turn, about to write the next\<close>
| Stopping               \<comment> \<open>\<open>cbc_stop\<close>, \<open>cbc_free\<close>\<close>
| Exited
| Failed

datatype parent_phase =
  P_fork nat | P_check | P_enter_pause | P_pause | P_kill nat | P_wait nat | P_done | P_failed

record system =
  sync_state :: "int list"
  phase_of :: "nat \<Rightarrow> phase"
  running_of :: "nat \<Rightarrow> bool"
  parent :: parent_phase
  parent_running :: bool
  print_log :: "nat list"

definition start_system :: system where
  "start_system = \<lparr>sync_state = replicate (NUM_WORKERS + 1) 0, phase_of = (\<lambda>_. Unforked), running_of = (\<lambda>_. True),
     parent = P_fork 0, parent_running = True, print_log = []\<rparr>"

definition turn :: "system \<Rightarrow> int" where
  "turn S = sync_state S ! NUM_WORKERS"

definition goto :: "nat \<Rightarrow> phase \<Rightarrow> system \<Rightarrow> system" where
  "goto i ph S = S\<lparr>phase_of := (phase_of S)(i := ph)\<rparr>"

definition write_sync :: "nat \<Rightarrow> int \<Rightarrow> system \<Rightarrow> system" where
  "write_sync k v S = S\<lparr>sync_state := (sync_state S)[k := v]\<rparr>"

definition stop_running :: "nat \<Rightarrow> system \<Rightarrow> system" where
  "stop_running i S = S\<lparr>running_of := (running_of S)(i := False)\<rparr>"

section \<open>A worker\<close>

text \<open>From the \<open>fork\<close> to the broadcast phase.\<close>

inductive barrier_step :: "nat \<Rightarrow> system \<Rightarrow> system \<Rightarrow> bool" for i S where
  ws_setup: "phase_of S i = Setup \<Longrightarrow> barrier_step i S (goto i Notifying S)"
| ws_notify: "phase_of S i = Notifying \<Longrightarrow> barrier_step i S (goto i (Checking 0) (write_sync i 1 S))"
| ws_interrupted: "phase_of S i = Checking 0 \<Longrightarrow> \<not> running_of S i \<Longrightarrow> barrier_step i S (goto i Broadcasting S)"
| ws_ready: "phase_of S i = Checking k \<Longrightarrow> k < NUM_WORKERS \<Longrightarrow> k = 0 \<longrightarrow> running_of S i \<Longrightarrow> sync_state S ! k \<noteq> 0 \<Longrightarrow>
     barrier_step i S (goto i (Checking (Suc k)) S)"
| ws_not_ready: "phase_of S i = Checking k \<Longrightarrow> k < NUM_WORKERS \<Longrightarrow> k = 0 \<longrightarrow> running_of S i \<Longrightarrow> sync_state S ! k = 0 \<Longrightarrow>
     barrier_step i S (goto i (Checking 0) S)"
| ws_all_ready: "phase_of S i = Checking NUM_WORKERS \<Longrightarrow> barrier_step i S (goto i Broadcasting S)"

text \<open>From the broadcast phase to the exit.\<close>

inductive turn_step :: "nat \<Rightarrow> system \<Rightarrow> system \<Rightarrow> bool" for i S where
  ws_leave: "phase_of S i = Broadcasting \<Longrightarrow> \<not> running_of S i \<Longrightarrow> turn_step i S (goto i Awaiting_turn S)"
| ws_turn: "phase_of S i = Awaiting_turn \<Longrightarrow> turn S = int i \<Longrightarrow> turn_step i S (goto i Printing S)"
| ws_print: "phase_of S i = Printing \<Longrightarrow> turn_step i S (goto i (Passing (turn S)) (S\<lparr>print_log := print_log S @ [i]\<rparr>))"
| ws_pass: "phase_of S i = Passing v \<Longrightarrow>
     turn_step i S (goto i Stopping (write_sync NUM_WORKERS ((v + 1) mod int NUM_WORKERS) S))"
| ws_exit: "phase_of S i = Stopping \<Longrightarrow> turn_step i S (goto i Exited S)"

definition worker_step :: "nat \<Rightarrow> system \<Rightarrow> system \<Rightarrow> bool" where
  "worker_step i S S' \<longleftrightarrow> barrier_step i S S' \<or> turn_step i S S'"

lemma worker_stepI [intro]:
  "barrier_step i S S' \<Longrightarrow> worker_step i S S'" "turn_step i S S' \<Longrightarrow> worker_step i S S'"
  by (simp_all add: worker_step_def)

section \<open>The parent\<close>

inductive parent_step :: "system \<Rightarrow> system \<Rightarrow> bool" for S where
  ps_fork: "parent S = P_fork i \<Longrightarrow> i < NUM_WORKERS \<Longrightarrow>
     parent_step S (goto i Setup (S\<lparr>running_of := (running_of S)(i := parent_running S), parent := P_fork (Suc i)\<rparr>))"
| ps_fork_fails: "parent S = P_fork i \<Longrightarrow> i < NUM_WORKERS \<Longrightarrow> parent_step S (S\<lparr>parent := P_failed\<rparr>)"
| ps_forked: "parent S = P_fork NUM_WORKERS \<Longrightarrow> parent_step S (S\<lparr>parent := P_check\<rparr>)"
| ps_running: "parent S = P_check \<Longrightarrow> parent_running S \<Longrightarrow> parent_step S (S\<lparr>parent := P_enter_pause\<rparr>)"
| ps_pause: "parent S = P_enter_pause \<Longrightarrow> parent_step S (S\<lparr>parent := P_pause\<rparr>)"
| ps_interrupted: "parent S = P_check \<Longrightarrow> \<not> parent_running S \<Longrightarrow> parent_step S (S\<lparr>parent := P_kill 0\<rparr>)"
| ps_kill: "parent S = P_kill i \<Longrightarrow> i < NUM_WORKERS \<Longrightarrow>
     parent_step S (stop_running i (S\<lparr>parent := P_wait i\<rparr>))"
| ps_wait: "parent S = P_wait i \<Longrightarrow> phase_of S i \<in> {Exited, Failed} \<Longrightarrow> parent_step S (S\<lparr>parent := P_kill (Suc i)\<rparr>)"
| ps_done: "parent S = P_kill NUM_WORKERS \<Longrightarrow> parent_step S (S\<lparr>parent := P_done\<rparr>)"

section \<open>The system\<close>

definition sigint_parent :: "system \<Rightarrow> system" where
  "sigint_parent S = S\<lparr>parent_running := False, parent := (if parent S = P_pause then P_check else parent S)\<rparr>"

inductive system_step :: "system \<Rightarrow> system \<Rightarrow> bool" where
  sys_worker: "i < NUM_WORKERS \<Longrightarrow> worker_step i S S' \<Longrightarrow> system_step S S'"
| sys_parent: "parent_step S S' \<Longrightarrow> system_step S S'"
| sys_interrupt_parent: "system_step S (sigint_parent S)"
| sys_interrupt_worker: "i < NUM_WORKERS \<Longrightarrow> phase_of S i \<noteq> Unforked \<Longrightarrow> system_step S (stop_running i S)"
| sys_fail: "i < NUM_WORKERS \<Longrightarrow> phase_of S i \<notin> {Unforked, Exited} \<Longrightarrow> system_step S (goto i Failed S)"

inductive system_run :: "system \<Rightarrow> system \<Rightarrow> bool" for S where
  run_here: "system_run S S"
| run_more: "system_run S T \<Longrightarrow> system_step T U \<Longrightarrow> system_run S U"

inductive_cases system_stepE: "system_step S S'"

section \<open>The invariant\<close>

text \<open>
  What the phase of worker i says about the shared array \<open>sy\<close> and the number \<open>k\<close> of workers
  that have printed.
\<close>

definition worker_ok :: "int list \<Rightarrow> bool \<Rightarrow> nat \<Rightarrow> nat \<Rightarrow> phase \<Rightarrow> bool" where
  "worker_ok sy run k i ph =
     (case ph of
        Unforked \<Rightarrow> sy ! i = 0 \<and> k \<le> i
      | Setup \<Rightarrow> sy ! i = 0 \<and> k \<le> i
      | Notifying \<Rightarrow> sy ! i = 0 \<and> k \<le> i
      | Checking m \<Rightarrow> sy ! i = 1 \<and> k \<le> i \<and> m \<le> 5 \<and> (\<forall>j < m. sy ! j = 1)
      | Broadcasting \<Rightarrow> sy ! i = 1 \<and> k \<le> i \<and> (run \<longrightarrow> (\<forall>j < 5. sy ! j = 1))
      | Awaiting_turn \<Rightarrow> sy ! i = 1 \<and> k \<le> i
      | Printing \<Rightarrow> sy ! i = 1 \<and> k = i \<and> sy ! 5 = int i
      | Passing v \<Rightarrow> sy ! i = 1 \<and> k = Suc i \<and> v = int i \<and> sy ! 5 = int i
      | Stopping \<Rightarrow> sy ! i = 1 \<and> i < k
      | Exited \<Rightarrow> sy ! i = 1 \<and> i < k
      | Failed \<Rightarrow> sy ! i = 0 \<or> sy ! i = 1)"

definition turn_ok :: "int list \<Rightarrow> nat \<Rightarrow> (nat \<Rightarrow> phase) \<Rightarrow> bool" where
  "turn_ok sy k ph \<longleftrightarrow> sy ! 5 = int (k mod 5)
     \<or> 0 < k \<and> sy ! 5 = int (k - 1) \<and> (ph (k - 1) = Failed \<or> ph (k - 1) = Passing (int (k - 1)))"

definition parent_ok :: "(nat \<Rightarrow> phase) \<Rightarrow> (nat \<Rightarrow> bool) \<Rightarrow> parent_phase \<Rightarrow> bool" where
  "parent_ok ph run pp =
     (case pp of
        P_fork m \<Rightarrow> m \<le> 5 \<and> (\<forall>i < 5. (ph i = Unforked) = (m \<le> i))
      | P_kill m \<Rightarrow> m \<le> 5 \<and> (\<forall>i < m. ph i \<in> {Exited, Failed}) \<and> (\<forall>i < 5. ph i \<noteq> Unforked)
      | P_wait m \<Rightarrow> m < 5 \<and> (\<forall>i < m. ph i \<in> {Exited, Failed}) \<and> (\<forall>i < 5. ph i \<noteq> Unforked) \<and> \<not> run m
      | P_done \<Rightarrow> \<forall>i < 5. ph i \<in> {Exited, Failed}
      | P_failed \<Rightarrow> True
      | _ \<Rightarrow> \<forall>i < 5. ph i \<noteq> Unforked)"

definition system_inv :: "system \<Rightarrow> bool" where
  "system_inv S \<longleftrightarrow> length (sync_state S) = 6 \<and> length (print_log S) \<le> 5
     \<and> print_log S = [0..<length (print_log S)]
     \<and> (\<forall>i < 5. worker_ok (sync_state S) (running_of S i) (length (print_log S)) i (phase_of S i))
     \<and> turn_ok (sync_state S) (length (print_log S)) (phase_of S)
     \<and> parent_ok (phase_of S) (running_of S) (parent S)"

lemmas inv_defs = worker_ok_def turn_ok_def parent_ok_def

lemma system_invD:
  assumes "system_inv S"
  shows "length (sync_state S) = 6" "length (print_log S) \<le> 5" "print_log S = [0..<length (print_log S)]"
    "i < 5 \<Longrightarrow> worker_ok (sync_state S) (running_of S i) (length (print_log S)) i (phase_of S i)"
    "turn_ok (sync_state S) (length (print_log S)) (phase_of S)"
    "parent_ok (phase_of S) (running_of S) (parent S)"
  using assms by (simp_all add: system_inv_def)

lemma start_inv: "system_inv start_system"
proof -
  have "replicate 6 (0 :: int) ! i = 0" if "i \<le> 5" for i
    using that by (intro nth_replicate) simp
  then show ?thesis by (simp add: system_inv_def start_system_def inv_defs NUM_WORKERS_def)
qed

lemma parent_ok_goto:
  assumes "parent_ok ph run pp" "i < 5" "ph i \<notin> {Unforked, Exited, Failed}" "p \<noteq> Unforked"
  shows "parent_ok (ph(i := p)) run pp"
proof (cases pp)
  case (P_kill m)
  then have "\<not> i < m" using assms by (auto simp: parent_ok_def)
  then show ?thesis using assms P_kill by (auto simp: parent_ok_def)
next
  case (P_wait m)
  then have "\<not> i < m" using assms by (auto simp: parent_ok_def)
  then show ?thesis using assms P_wait by (auto simp: parent_ok_def)
qed (use assms in \<open>auto simp: parent_ok_def\<close>)

text \<open>A step of worker i that leaves the shared array and the log alone.\<close>

lemma goto_inv:
  assumes inv: "system_inv S" and i: "i < 5" "phase_of S i \<notin> {Unforked, Exited, Failed}" "ph \<noteq> Unforked"
    and ok: "worker_ok (sync_state S) (running_of S i) (length (print_log S)) i ph"
    and pass: "\<And>v. phase_of S i = Passing v \<Longrightarrow> ph = Failed"
  shows "system_inv (goto i ph S)"
proof -
  note d = system_invD [OF inv]
  have "turn_ok (sync_state S) (length (print_log S)) ((phase_of S)(i := ph))"
    using d(5) i pass by (auto simp: turn_ok_def)
  moreover have "parent_ok ((phase_of S)(i := ph)) (running_of S) (parent S)"
    by (rule parent_ok_goto [OF d(6) i])
  ultimately show ?thesis using d(1-4) ok by (simp add: system_inv_def goto_def)
qed

lemma stop_running_inv: "system_inv S \<Longrightarrow> system_inv (stop_running i S)"
  by (auto simp: system_inv_def stop_running_def inv_defs split: phase.splits parent_phase.splits)

lemma barrier_step_inv:
  assumes inv: "system_inv S" and i: "i < 5" and step: "barrier_step i S S'"
  shows "system_inv S'"
  using step
proof (cases rule: barrier_step.cases)
  case ws_setup
  then show ?thesis
    using goto_inv [OF inv i, of Notifying] system_invD(4) [OF inv i] by (simp add: worker_ok_def)
next
  case ws_notify
  let ?T = "write_sync i 1 S"
  have j: "worker_ok ((sync_state S)[i := 1]) (running_of S j) (length (print_log S)) j (phase_of S j)" if "j < 5" "j \<noteq> i" for j
    using system_invD(4) [OF inv that(1)] that i system_invD(1) [OF inv]
    by (auto simp: worker_ok_def nth_list_update split: phase.splits)
  have "turn_ok ((sync_state S)[i := 1]) (length (print_log S)) ((phase_of S)(i := Checking 0))"
    using system_invD(5) [OF inv] i ws_notify(2) by (auto simp: turn_ok_def)
  moreover have "parent_ok ((phase_of S)(i := Checking 0)) (running_of S) (parent S)"
    by (rule parent_ok_goto [OF system_invD(6) [OF inv] i]) (simp_all add: ws_notify(2))
  moreover have "worker_ok ((sync_state S)[i := 1]) (running_of S i) (length (print_log S)) i (Checking 0)"
    using system_invD(4) [OF inv i] ws_notify(2) i system_invD(1) [OF inv] by (simp add: worker_ok_def)
  ultimately show ?thesis
    using system_invD(1-3) [OF inv] j ws_notify(1) by (simp add: system_inv_def goto_def write_sync_def)
next
  case ws_interrupted
  then show ?thesis
    using goto_inv [OF inv i, of Broadcasting] system_invD(4) [OF inv i] by (simp add: worker_ok_def)
next
  case (ws_ready k)
  have "sync_state S ! k = 1"
    using system_invD(4) [OF inv, of k] ws_ready by (auto simp: NUM_WORKERS_def worker_ok_def split: phase.splits)
  then show ?thesis
    using goto_inv [OF inv i, of "Checking (Suc k)"] system_invD(4) [OF inv i] ws_ready
    by (auto simp: worker_ok_def NUM_WORKERS_def less_Suc_eq)
next
  case (ws_not_ready k)
  then show ?thesis
    using goto_inv [OF inv i, of "Checking 0"] system_invD(4) [OF inv i] by (simp add: worker_ok_def)
next
  case ws_all_ready
  then show ?thesis
    using goto_inv [OF inv i, of Broadcasting] system_invD(4) [OF inv i] by (simp add: worker_ok_def NUM_WORKERS_def)
qed

lemma turn_step_inv:
  assumes inv: "system_inv S" and i: "i < 5" and step: "turn_step i S S'"
  shows "system_inv S'"
  using step
proof (cases rule: turn_step.cases)
  case ws_leave
  then show ?thesis
    using goto_inv [OF inv i, of Awaiting_turn] system_invD(4) [OF inv i] by (simp add: worker_ok_def)
next
  case ws_turn
  have "length (print_log S) = i"
    using system_invD(4) [OF inv i] system_invD(2,5) [OF inv] ws_turn i
    by (auto simp: worker_ok_def turn_ok_def turn_def NUM_WORKERS_def le_less)
  then show ?thesis
    using goto_inv [OF inv i, of Printing] system_invD(4) [OF inv i] ws_turn
    by (simp add: worker_ok_def turn_def NUM_WORKERS_def)
next
  case ws_print
  have k: "length (print_log S) = i" "turn S = int i"
    using system_invD(4) [OF inv i] ws_print by (simp_all add: worker_ok_def turn_def NUM_WORKERS_def)
  have j: "worker_ok (sync_state S) (running_of S j) (Suc i) j (phase_of S j)" if "j < 5" "j \<noteq> i" for j
    using system_invD(4) [OF inv that(1)] that k
    by (auto simp: worker_ok_def turn_def NUM_WORKERS_def split: phase.splits)
  have "worker_ok (sync_state S) (running_of S i) (Suc i) i (Passing (turn S))"
    using system_invD(4) [OF inv i] ws_print k by (simp add: worker_ok_def turn_def NUM_WORKERS_def)
  moreover have "turn_ok (sync_state S) (Suc i) ((phase_of S)(i := Passing (turn S)))"
    using k by (simp add: turn_ok_def turn_def NUM_WORKERS_def)
  moreover have "parent_ok ((phase_of S)(i := Passing (turn S))) (running_of S) (parent S)"
    by (rule parent_ok_goto [OF system_invD(6) [OF inv] i]) (simp_all add: ws_print(2))
  ultimately show ?thesis
    using system_invD(1,3) [OF inv] j k i ws_print(1) by (simp add: system_inv_def goto_def)
next
  case (ws_pass v)
  have k: "length (print_log S) = Suc i" "v = int i" "sync_state S ! i = 1" "sync_state S ! 5 = int i"
    using system_invD(4) [OF inv i] ws_pass by (simp_all add: worker_ok_def)
  let ?sy = "(sync_state S)[5 := (int i + 1) mod 5]"
  have j: "worker_ok ?sy (running_of S j) (Suc i) j (phase_of S j)" if "j < 5" "j \<noteq> i" for j
    using system_invD(4) [OF inv that(1)] that k by (auto simp: worker_ok_def nth_list_update split: phase.splits)
  have "worker_ok ?sy (running_of S i) (Suc i) i Stopping"
    using k i by (simp add: worker_ok_def)
  moreover have "turn_ok ?sy (Suc i) ((phase_of S)(i := Stopping))"
    using system_invD(1) [OF inv] by (simp add: turn_ok_def zmod_int add.commute)
  moreover have "parent_ok ((phase_of S)(i := Stopping)) (running_of S) (parent S)"
    by (rule parent_ok_goto [OF system_invD(6) [OF inv] i]) (simp_all add: ws_pass(2))
  ultimately show ?thesis
    using system_invD(1,3) [OF inv] j k i ws_pass(1)
    by (simp add: system_inv_def goto_def write_sync_def NUM_WORKERS_def)
next
  case ws_exit
  then show ?thesis
    using goto_inv [OF inv i, of Exited] system_invD(4) [OF inv i] by (simp add: worker_ok_def)
qed

lemma worker_step_inv:
  assumes "system_inv S" "i < 5" "worker_step i S S'" shows "system_inv S'"
  using assms(3) barrier_step_inv [OF assms(1,2)] turn_step_inv [OF assms(1,2)] by (auto simp: worker_step_def)

lemma parent_step_inv:
  assumes inv: "system_inv S" and step: "parent_step S S'"
  shows "system_inv S'"
  using step
proof (cases rule: parent_step.cases)
  case (ps_fork i)
  then have i: "i < 5" "phase_of S i = Unforked"
    using system_invD(6) [OF inv] by (simp_all add: parent_ok_def NUM_WORKERS_def)
  have "worker_ok (sync_state S) r (length (print_log S)) i Setup" for r
    using system_invD(4) [OF inv i(1)] i(2) by (simp add: worker_ok_def)
  moreover have "turn_ok (sync_state S) (length (print_log S)) ((phase_of S)(i := Setup))"
    using system_invD(5) [OF inv] i(2) by (auto simp: turn_ok_def)
  moreover have "parent_ok ((phase_of S)(i := Setup)) r (P_fork (Suc i))" for r
    using system_invD(6) [OF inv] i ps_fork(2) by (auto simp: parent_ok_def)
  ultimately show ?thesis
    using system_invD(1-4) [OF inv] ps_fork(1) by (simp add: system_inv_def goto_def)
next
  case (ps_wait i)
  then show ?thesis
    using inv by (auto simp: system_inv_def parent_ok_def less_Suc_eq)
next
  case (ps_kill i)
  then show ?thesis
    using inv stop_running_inv [OF inv, of i]
    by (auto simp: system_inv_def parent_ok_def stop_running_def NUM_WORKERS_def)
qed (use inv in \<open>auto simp: system_inv_def parent_ok_def NUM_WORKERS_def\<close>)

lemma fail_inv:
  assumes inv: "system_inv S" and i: "i < 5" "phase_of S i \<notin> {Unforked, Exited}"
  shows "system_inv (goto i Failed S)"
proof (cases "phase_of S i = Failed")
  case True
  then have "goto i Failed S = S" by (simp add: goto_def fun_upd_idem)
  with inv show ?thesis by simp
next
  case False
  have "sync_state S ! i = 0 \<or> sync_state S ! i = 1"
    using system_invD(4) [OF inv i(1)] by (auto simp: worker_ok_def split: phase.splits)
  with False i show ?thesis by (intro goto_inv [OF inv]) (simp_all add: worker_ok_def)
qed

lemma system_step_inv:
  assumes "system_inv S" "system_step S S'" shows "system_inv S'"
  using assms(2)
proof (cases rule: system_step.cases)
  case sys_interrupt_parent
  then show ?thesis
    using assms(1) by (auto simp: system_inv_def sigint_parent_def parent_ok_def)
next
  case (sys_worker i)
  then show ?thesis using worker_step_inv [OF assms(1)] by (simp add: NUM_WORKERS_def)
next
  case sys_parent
  then show ?thesis by (rule parent_step_inv [OF assms(1)])
next
  case (sys_interrupt_worker i)
  then show ?thesis using stop_running_inv [OF assms(1)] by simp
next
  case (sys_fail i)
  then show ?thesis using fail_inv [OF assms(1)] by (simp add: NUM_WORKERS_def)
qed

lemma system_run_inv: "system_run S T \<Longrightarrow> system_inv S \<Longrightarrow> system_inv T"
  by (induction rule: system_run.induct) (auto intro: system_step_inv)

lemma system_run_trans: "system_run T U \<Longrightarrow> system_run S T \<Longrightarrow> system_run S U"
  by (induction rule: system_run.induct) (auto intro: run_more)

section \<open>A failed worker\<close>

lemma failed_stays:
  assumes inv: "system_inv S" and step: "system_step S S'" and i: "i < 5" "phase_of S i = Failed"
  shows "phase_of S' i = Failed" "i \<notin> set (print_log S) \<Longrightarrow> i \<notin> set (print_log S')"
proof -
  have "phase_of S' i = Failed \<and> (i \<notin> set (print_log S) \<longrightarrow> i \<notin> set (print_log S'))"
    using step
  proof (cases rule: system_step.cases)
    case (sys_worker j)
    then have "barrier_step j S S' \<or> turn_step j S S'" by (simp add: worker_step_def)
    then show ?thesis
    proof
      assume "barrier_step j S S'"
      then show ?thesis by (cases rule: barrier_step.cases) (use i in \<open>auto simp: goto_def write_sync_def\<close>)
    next
      assume "turn_step j S S'"
      then show ?thesis by (cases rule: turn_step.cases) (use i in \<open>auto simp: goto_def write_sync_def\<close>)
    qed
  next
    case sys_parent
    then show ?thesis
    proof (cases rule: parent_step.cases)
      case (ps_fork j)
      then have "phase_of S j = Unforked" using system_invD(6) [OF inv] by (simp add: parent_ok_def NUM_WORKERS_def)
      then show ?thesis using i ps_fork(1) by (auto simp: goto_def)
    qed (use i in \<open>auto simp: stop_running_def\<close>)
  qed (use i in \<open>auto simp: sigint_parent_def stop_running_def goto_def\<close>)
  then show "phase_of S' i = Failed" "i \<notin> set (print_log S) \<Longrightarrow> i \<notin> set (print_log S')" by blast+
qed

lemma failed_forever:
  "system_run S T \<Longrightarrow> system_inv S \<Longrightarrow> i < 5 \<Longrightarrow> phase_of S i = Failed \<Longrightarrow> i \<notin> set (print_log S) \<Longrightarrow>
     phase_of T i = Failed \<and> i \<notin> set (print_log T)"
proof (induction rule: system_run.induct)
  case (run_more T U)
  then show ?case using failed_stays [OF system_run_inv [OF run_more.hyps(1)] run_more.hyps(2)] by blast
qed simp

section \<open>A worker comes to its end\<close>

fun weight :: "phase \<Rightarrow> nat" where
  "weight Unforked = 15"
| "weight Setup = 14"
| "weight Notifying = 13"
| "weight (Checking m) = (if m = 0 then 7 else 13 - m)"
| "weight Broadcasting = 6"
| "weight Awaiting_turn = 5"
| "weight Printing = 4"
| "weight (Passing v) = 3"
| "weight Stopping = 2"
| "weight Exited = 0"
| "weight Failed = 0"

definition only_phase :: "nat \<Rightarrow> system \<Rightarrow> system \<Rightarrow> bool" where
  "only_phase m S T \<longleftrightarrow> phase_of T = (phase_of S)(m := phase_of T m) \<and> running_of T = running_of S
     \<and> parent T = parent S \<and> parent_running T = parent_running S"

lemma only_phase_trans: "only_phase m S T \<Longrightarrow> only_phase m T U \<Longrightarrow> only_phase m S U"
  unfolding only_phase_def by (metis fun_upd_upd)

lemma only_phase_goto [simp]:
  "only_phase m S (goto m ph S)" "only_phase m S (goto m ph (write_sync k v S))"
  "only_phase m S (goto m ph (S\<lparr>print_log := l\<rparr>))"
  by (simp_all add: only_phase_def goto_def write_sync_def)

lemma phase_goto [simp]: "phase_of (goto m ph S) m = ph"
  by (simp add: goto_def)

lemma worker_can_step:
  assumes inv: "system_inv S" and m: "m < 5" "phase_of S m \<notin> {Unforked, Failed, Exited}"
    and before: "\<forall>i < m. phase_of S i = Exited" and stop: "\<not> running_of S m"
  shows "\<exists>S'. worker_step m S S' \<and> weight (phase_of S' m) < weight (phase_of S m) \<and> only_phase m S S'
     \<and> phase_of S' m \<notin> {Unforked, Failed}"
proof (cases "phase_of S m")
  case (Checking k)
  then have k: "k \<le> 5" using system_invD(4) [OF inv m(1)] by (simp add: worker_ok_def)
  consider "k = 0" | "0 < k" "k < 5" "sync_state S ! k = 0" | "0 < k" "k < 5" "sync_state S ! k \<noteq> 0" | "k = 5"
    using k by linarith
  then show ?thesis
  proof cases
    case 1
    then show ?thesis using worker_stepI(1) [OF ws_interrupted [of S m]] Checking stop by (intro exI [of _ "goto m Broadcasting S"]) simp
  next
    case 2
    then show ?thesis using worker_stepI(1) [OF ws_not_ready [of S m k]] Checking by (intro exI [of _ "goto m (Checking 0) S"]) (simp add: NUM_WORKERS_def)
  next
    case 3
    then show ?thesis using worker_stepI(1) [OF ws_ready [of S m k]] Checking by (intro exI [of _ "goto m (Checking (Suc k)) S"]) (simp add: NUM_WORKERS_def)
  next
    case 4
    then show ?thesis using worker_stepI(1) [OF ws_all_ready [of S m]] Checking by (intro exI [of _ "goto m Broadcasting S"]) (simp add: NUM_WORKERS_def)
  qed
next
  case Awaiting_turn
  have "length (print_log S) \<le> m" using system_invD(4) [OF inv m(1)] Awaiting_turn by (simp add: worker_ok_def)
  moreover have "m \<le> length (print_log S)"
  proof (cases m)
    case (Suc j)
    then have "phase_of S j = Exited" using before by simp
    then show ?thesis using system_invD(4) [OF inv, of j] m Suc by (simp add: worker_ok_def)
  qed simp
  ultimately have k: "length (print_log S) = m" by simp
  have "turn S = int m"
  proof (cases m)
    case 0
    then show ?thesis using system_invD(5) [OF inv] k by (simp add: turn_ok_def turn_def NUM_WORKERS_def)
  next
    case (Suc j)
    then have "phase_of S (m - 1) = Exited" using before by simp
    then show ?thesis using system_invD(5) [OF inv] k m(1) by (simp add: turn_ok_def turn_def NUM_WORKERS_def)
  qed
  then show ?thesis using worker_stepI(2) [OF ws_turn [of S m]] Awaiting_turn by (intro exI [of _ "goto m Printing S"]) simp
next
  case (Passing v)
  then show ?thesis using worker_stepI(2) [OF ws_pass [of S m v]] by (intro exI) (rule conjI, assumption, simp)
next
  case Setup
  then show ?thesis using worker_stepI(1) [OF ws_setup [of S m]] by (intro exI [of _ "goto m Notifying S"]) simp
next
  case Notifying
  then show ?thesis using worker_stepI(1) [OF ws_notify [of S m]] by (intro exI [of _ "goto m (Checking 0) (write_sync m 1 S)"]) simp
next
  case Broadcasting
  then show ?thesis using worker_stepI(2) [OF ws_leave [of S m]] stop by (intro exI [of _ "goto m Awaiting_turn S"]) simp
next
  case Printing
  then show ?thesis using worker_stepI(2) [OF ws_print [of S m]]
    by (intro exI [of _ "goto m (Passing (turn S)) (S\<lparr>print_log := print_log S @ [m]\<rparr>)"]) simp
next
  case Stopping
  then show ?thesis using worker_stepI(2) [OF ws_exit [of S m]] by (intro exI [of _ "goto m Exited S"]) simp
qed (use m in simp_all)

lemma worker_finishes:
  "system_inv S \<Longrightarrow> m < 5 \<Longrightarrow> phase_of S m \<notin> {Unforked, Failed} \<Longrightarrow> \<forall>i < m. phase_of S i = Exited \<Longrightarrow>
     \<not> running_of S m \<Longrightarrow> \<exists>T. system_run S T \<and> phase_of T m = Exited \<and> only_phase m S T"
proof (induction "weight (phase_of S m)" arbitrary: S rule: less_induct)
  case less
  show ?case
  proof (cases "phase_of S m = Exited")
    case True
    then show ?thesis using run_here [of S] by (intro exI [of _ S]) (simp add: only_phase_def fun_upd_idem)
  next
    case False
    then have "phase_of S m \<notin> {Unforked, Failed, Exited}" using less.prems(3) by simp
    then obtain S' where S': "worker_step m S S'" "weight (phase_of S' m) < weight (phase_of S m)" "only_phase m S S'"
        "phase_of S' m \<notin> {Unforked, Failed}"
      using worker_can_step [OF less.prems(1,2) _ less.prems(4,5)] by blast
    have st: "system_step S S'" using less.prems(2) S'(1) by (auto simp: NUM_WORKERS_def intro: sys_worker)
    have o: "phase_of S' i = phase_of S i" if "i \<noteq> m" for i
      using S'(3) that unfolding only_phase_def by (metis fun_upd_other)
    have "\<forall>i < m. phase_of S' i = Exited" "\<not> running_of S' m"
      using less.prems(4,5) o S'(3) by (simp_all add: only_phase_def)
    then obtain T where T: "system_run S' T" "phase_of T m = Exited" "only_phase m S' T"
      using less.hyps [OF S'(2) system_step_inv [OF less.prems(1) st] less.prems(2) S'(4)] by blast
    have "system_run S T" by (rule system_run_trans [OF T(1) run_more [OF run_here st]])
    then show ?thesis using T(2) only_phase_trans [OF S'(3) T(3)] by blast
  qed
qed

section \<open>The parent comes to its end\<close>

definition no_failure :: "system \<Rightarrow> bool" where
  "no_failure S \<longleftrightarrow> (\<forall>i < 5. phase_of S i \<noteq> Failed) \<and> parent S \<noteq> P_failed"

lemma only_phase_no_failure:
  assumes "only_phase m S T" "phase_of T m = Exited" "no_failure S" shows "no_failure T"
proof -
  have "phase_of T i \<noteq> Failed" if "i < 5" for i
    using assms that by (cases "i = m") (auto simp: no_failure_def only_phase_def dest: fun_cong [of _ _ i])
  then show ?thesis using assms by (simp add: no_failure_def only_phase_def)
qed

lemma parent_kills:
  "system_inv S \<Longrightarrow> no_failure S \<Longrightarrow> parent S = P_kill m \<Longrightarrow> \<exists>T. system_run S T \<and> parent T = P_done \<and> no_failure T"
proof (induction "5 - m" arbitrary: S m)
  case 0
  then have "m = 5" using system_invD(6) [OF 0(2)] by (simp add: parent_ok_def)
  then have "system_step S (S\<lparr>parent := P_done\<rparr>)"
    using 0(4) ps_done [of S] by (auto simp: NUM_WORKERS_def intro: sys_parent)
  then have "system_run S (S\<lparr>parent := P_done\<rparr>)" by (rule run_more [OF run_here])
  then show ?case using 0(3) by (intro exI [of _ "S\<lparr>parent := P_done\<rparr>"]) (simp add: no_failure_def)
next
  case (Suc n)
  then have m: "m < 5" by simp
  let ?S = "stop_running m (S\<lparr>parent := P_wait m\<rparr>)"
  have st: "system_step S ?S"
    using Suc.prems(3) m ps_kill [of S m] by (auto simp: NUM_WORKERS_def intro: sys_parent)
  have i1: "system_inv ?S" using system_step_inv [OF Suc.prems(1) st] .
  have k: "\<forall>i < m. phase_of S i \<in> {Exited, Failed}" "\<forall>i < 5. phase_of S i \<noteq> Unforked" "\<forall>i < 5. phase_of S i \<noteq> Failed"
    using system_invD(6) [OF Suc.prems(1)] Suc.prems(2,3) by (auto simp: parent_ok_def no_failure_def)
  then have "\<forall>i < m. phase_of ?S i = Exited" "phase_of ?S m \<notin> {Unforked, Failed}" "\<not> running_of ?S m"
    using m by (auto simp: stop_running_def)
  then obtain T where T: "system_run ?S T" "phase_of T m = Exited" "only_phase m ?S T"
    using worker_finishes [OF i1 m] by blast
  have nf: "no_failure ?S" using Suc.prems(2) by (simp add: no_failure_def stop_running_def)
  let ?T = "T\<lparr>parent := P_kill (Suc m)\<rparr>"
  have "parent T = P_wait m" using T(3) by (simp add: only_phase_def stop_running_def)
  then have "system_step T ?T" using T(2) ps_wait [of T m] by (auto intro: sys_parent)
  then have run: "system_run S ?T"
    using system_run_trans [OF T(1) run_more [OF run_here st]] by (rule run_more [rotated])
  have "no_failure ?T" using only_phase_no_failure [OF T(3,2) nf] by (simp add: no_failure_def)
  moreover have "n = 5 - Suc m" using Suc.hyps(2) by linarith
  ultimately obtain U where U: "system_run ?T U" "parent U = P_done" "no_failure U"
    using Suc.hyps(1) [of "Suc m" ?T] system_run_inv [OF run Suc.prems(1)] by auto
  then show ?case using system_run_trans [OF U(1) run] by blast
qed

lemma parent_forks:
  "system_inv S \<Longrightarrow> no_failure S \<Longrightarrow> parent S = P_fork m \<Longrightarrow> \<exists>T. system_run S T \<and> parent T = P_check \<and> no_failure T"
proof (induction "5 - m" arbitrary: S m)
  case 0
  then have "m = 5" using system_invD(6) [OF 0(2)] by (simp add: parent_ok_def)
  then have "system_step S (S\<lparr>parent := P_check\<rparr>)"
    using 0(4) ps_forked [of S] by (auto simp: NUM_WORKERS_def intro: sys_parent)
  then have "system_run S (S\<lparr>parent := P_check\<rparr>)" by (rule run_more [OF run_here])
  then show ?case using 0(3) by (intro exI [of _ "S\<lparr>parent := P_check\<rparr>"]) (simp add: no_failure_def)
next
  case (Suc n)
  let ?S = "goto m Setup (S\<lparr>running_of := (running_of S)(m := parent_running S), parent := P_fork (Suc m)\<rparr>)"
  have st: "system_step S ?S"
    using Suc.prems(3) Suc.hyps(2) ps_fork [of S m] by (auto simp: NUM_WORKERS_def intro: sys_parent)
  have nf: "no_failure ?S" using Suc.prems(2) by (simp add: no_failure_def goto_def)
  have "n = 5 - Suc m" "parent ?S = P_fork (Suc m)" using Suc.hyps(2) by (simp_all add: goto_def)
  then obtain T where T: "system_run ?S T" "parent T = P_check" "no_failure T"
    using Suc.hyps(1) [of "Suc m" ?S] system_step_inv [OF Suc.prems(1) st] nf by blast
  then show ?case using system_run_trans [OF T(1) run_more [OF run_here st]] by blast
qed

lemma run_step_parent:
  assumes "parent_step S S'" shows "system_run S S'"
  using run_more [OF run_here sys_parent [OF assms]] .

text \<open>From the loop around \<open>pause\<close> an interrupt leads to the end.\<close>

lemma check_ends:
  assumes inv: "system_inv S" and nf: "no_failure S" and at: "parent S = P_check"
  shows "\<exists>T. system_run S T \<and> parent T = P_done \<and> no_failure T"
proof -
  let ?S = "sigint_parent S" and ?T = "sigint_parent S\<lparr>parent := P_kill 0\<rparr>"
  have "system_run S ?S" by (rule run_more [OF run_here sys_interrupt_parent])
  moreover have "system_run ?S ?T" by (rule run_step_parent, rule ps_interrupted) (simp_all add: sigint_parent_def at)
  ultimately have run: "system_run S ?T" by (rule system_run_trans [rotated])
  have "no_failure ?T" using nf by (simp add: no_failure_def sigint_parent_def)
  with parent_kills [OF system_run_inv [OF run inv] this, of 0] system_run_trans [OF _ run] show ?thesis by fastforce
qed

lemma pause_ends:
  assumes inv: "system_inv S" and nf: "no_failure S" and at: "parent S = P_pause"
  shows "\<exists>T. system_run S T \<and> parent T = P_done \<and> no_failure T"
proof -
  have run: "system_run S (sigint_parent S)" by (rule run_more [OF run_here sys_interrupt_parent])
  have "no_failure (sigint_parent S)" "parent (sigint_parent S) = P_check"
    using nf at by (simp_all add: no_failure_def sigint_parent_def)
  from check_ends [OF system_run_inv [OF run inv] this] system_run_trans [OF _ run] show ?thesis by blast
qed

lemma run_then:
  "system_run S T \<Longrightarrow> \<exists>U. system_run T U \<and> P U \<Longrightarrow> \<exists>U. system_run S U \<and> P U"
  using system_run_trans by blast

lemma any_ends:
  assumes inv: "system_inv S" and nf: "no_failure S"
  shows "\<exists>T. system_run S T \<and> (parent T = P_done \<and> no_failure T)"
proof (cases "parent S")
  case (P_fork m)
  then obtain T where T: "system_run S T" "parent T = P_check" "no_failure T" using parent_forks [OF inv nf] by blast
  show ?thesis by (rule run_then [OF T(1) check_ends [OF system_run_inv [OF T(1) inv] T(3,2)]])
next
  case P_check
  then show ?thesis using check_ends [OF inv nf] by blast
next
  case P_enter_pause
  then have run: "system_run S (S\<lparr>parent := P_pause\<rparr>)" by (intro run_step_parent ps_pause)
  show ?thesis
    by (rule run_then [OF run pause_ends [OF system_run_inv [OF run inv]]]) (use nf in \<open>simp_all add: no_failure_def\<close>)
next
  case P_pause
  then show ?thesis using pause_ends [OF inv nf] by blast
next
  case (P_kill m)
  then show ?thesis using parent_kills [OF inv nf] by blast
next
  case (P_wait m)
  then have m: "m < 5" "\<not> running_of S m" "\<forall>i < m. phase_of S i = Exited" "phase_of S m \<notin> {Unforked, Failed}"
    using system_invD(6) [OF inv] nf by (auto simp: parent_ok_def no_failure_def)
  obtain T where T: "system_run S T" "phase_of T m = Exited" "only_phase m S T"
    using worker_finishes [OF inv m(1,4,3,2)] by blast
  let ?T = "T\<lparr>parent := P_kill (Suc m)\<rparr>"
  have "parent T = P_wait m" using T(3) P_wait by (simp add: only_phase_def)
  then have "system_run T ?T" using T(2) by (intro run_step_parent ps_wait) simp_all
  then have run: "system_run S ?T" by (rule system_run_trans [OF _ T(1)])
  have "no_failure ?T" using only_phase_no_failure [OF T(3,2) nf] by (simp add: no_failure_def)
  then show ?thesis using run_then [OF run parent_kills [OF system_run_inv [OF run inv]]] by simp
next
  case P_done
  then show ?thesis using nf run_here by blast
next
  case P_failed
  then show ?thesis using nf by (simp add: no_failure_def)
qed

section \<open>Executing a schedule\<close>

text \<open>
  The steps of a worker and of the parent are functions of the state; an action that is not
  enabled leaves it unchanged. \<open>execute\<close> runs a schedule.
\<close>

datatype action = Worker nat | Parent | Interrupt_parent | Fail nat

definition worker_next :: "nat \<Rightarrow> system \<Rightarrow> system" where
  "worker_next i S =
     (case phase_of S i of
        Setup \<Rightarrow> goto i Notifying S
      | Notifying \<Rightarrow> goto i (Checking 0) (write_sync i 1 S)
      | Checking k \<Rightarrow>
          if k = 0 \<and> \<not> running_of S i \<or> k = NUM_WORKERS then goto i Broadcasting S
          else if k < NUM_WORKERS
          then goto i (Checking (if sync_state S ! k \<noteq> 0 then Suc k else 0)) S
          else S
      | Broadcasting \<Rightarrow> if running_of S i then S else goto i Awaiting_turn S
      | Awaiting_turn \<Rightarrow> if turn S = int i then goto i Printing S else S
      | Printing \<Rightarrow> goto i (Passing (turn S)) (S\<lparr>print_log := print_log S @ [i]\<rparr>)
      | Passing v \<Rightarrow> goto i Stopping (write_sync NUM_WORKERS ((v + 1) mod int NUM_WORKERS) S)
      | Stopping \<Rightarrow> goto i Exited S
      | _ \<Rightarrow> S)"

definition parent_next :: "system \<Rightarrow> system" where
  "parent_next S =
     (case parent S of
        P_fork i \<Rightarrow>
          if i < NUM_WORKERS
          then goto i Setup (S\<lparr>running_of := (running_of S)(i := parent_running S), parent := P_fork (Suc i)\<rparr>)
          else if i = NUM_WORKERS then S\<lparr>parent := P_check\<rparr> else S
      | P_check \<Rightarrow> S\<lparr>parent := (if parent_running S then P_enter_pause else P_kill 0)\<rparr>
      | P_enter_pause \<Rightarrow> S\<lparr>parent := P_pause\<rparr>
      | P_kill i \<Rightarrow>
          if i < NUM_WORKERS then stop_running i (S\<lparr>parent := P_wait i\<rparr>)
          else if i = NUM_WORKERS then S\<lparr>parent := P_done\<rparr> else S
      | P_wait i \<Rightarrow> if phase_of S i \<in> {Exited, Failed} then S\<lparr>parent := P_kill (Suc i)\<rparr> else S
      | _ \<Rightarrow> S)"

lemma worker_next_step: "worker_next i S = S \<or> worker_step i S (worker_next i S)"
  by (cases "phase_of S i")
    (auto simp: worker_next_def worker_step_def intro: barrier_step.intros turn_step.intros)

lemma worker_step_next: "worker_step i S S' \<Longrightarrow> S' = worker_next i S"
  by (auto simp: worker_step_def worker_next_def NUM_WORKERS_def elim!: barrier_step.cases turn_step.cases)

lemma parent_next_step: "parent_next S = S \<or> parent_step S (parent_next S)"
  by (cases "parent S") (auto simp: parent_next_def intro: parent_step.intros)

fun perform :: "action \<Rightarrow> system \<Rightarrow> system" where
  "perform (Worker i) S = (if i < NUM_WORKERS then worker_next i S else S)"
| "perform Parent S = parent_next S"
| "perform Interrupt_parent S = sigint_parent S"
| "perform (Fail i) S = (if i < NUM_WORKERS \<and> phase_of S i \<noteq> Unforked \<and> phase_of S i \<noteq> Exited then goto i Failed S else S)"

definition execute :: "action list \<Rightarrow> system \<Rightarrow> system" where
  "execute as S = foldl (\<lambda>S a. perform a S) S as"

lemma perform_run: "system_run S (perform a S)"
proof (cases a)
  case (Worker i)
  then show ?thesis
    using worker_next_step [of i S] run_here run_more [OF run_here sys_worker [of i S "worker_next i S"]]
    by (cases "i < NUM_WORKERS") auto
next
  case Parent
  then show ?thesis using parent_next_step [of S] run_here run_step_parent by auto
next
  case Interrupt_parent
  then show ?thesis using run_more [OF run_here sys_interrupt_parent [of S]] by simp
next
  case (Fail i)
  then show ?thesis using run_here run_more [OF run_here sys_fail [of i S]] by simp
qed

lemma execute_run: "system_run S (execute as S)"
proof (induction as arbitrary: S)
  case (Cons a as)
  have "system_run (perform a S) (execute (a # as) S)" using Cons [of "perform a S"] by (simp add: execute_def)
  then show ?case by (rule system_run_trans [OF _ perform_run])
qed (simp add: execute_def run_here)

definition all_up :: "action list" where
  "all_up = replicate 6 Parent @ concat (map (\<lambda>i. [Worker i, Worker i]) [0..<5])"

section \<open>Properties\<close>

text \<open>
  C37: The barrier: in every reachable state of the processes, whatever the interleaving, the
  interrupts and the failures, a worker that is in its broadcast phase and has not been
  interrupted has seen the setup of all five workers completed: every worker has bound its
  socket and added its peers (or has failed after doing so).
\<close>

theorem barrier:
  assumes "system_run start_system S" "i < NUM_WORKERS" "phase_of S i = Broadcasting" "running_of S i"
  shows "\<forall>j \<in> {..<NUM_WORKERS}. phase_of S j \<notin> {Unforked, Setup, Notifying} \<and> sync_state S ! j = 1"
proof -
  have inv: "system_inv S" using system_run_inv [OF assms(1) start_inv] .
  have "sync_state S ! j = 1" if "j < 5" for j
    using system_invD(4) [OF inv, of i] assms(2-4) that by (simp add: NUM_WORKERS_def worker_ok_def)
  moreover have "phase_of S j \<notin> {Unforked, Setup, Notifying}" if "j < 5" "sync_state S ! j = 1" for j
    using system_invD(4) [OF inv that(1)] that(2) by (auto simp: worker_ok_def)
  ultimately show ?thesis by (auto simp: NUM_WORKERS_def)
qed

theorem barrier_witness:
  "phase_of (execute (all_up @ replicate 6 (Worker 3)) start_system) 3 = Broadcasting
     \<and> sync_state (execute (all_up @ replicate 6 (Worker 3)) start_system) ! 4 = 1 \<and> phase_of (execute (all_up @ replicate 6 (Worker 3)) start_system) 4 \<noteq> Setup"
proof -
  let ?S = "execute (all_up @ replicate 6 (Worker 3)) start_system"
  have "phase_of ?S 3 = Broadcasting" "running_of ?S 3" by code_simp+
  moreover have "system_run start_system ?S" by (rule execute_run)
  ultimately show ?thesis using barrier [of ?S 3] by (simp add: NUM_WORKERS_def)
qed

text \<open>
  The turn: in every reachable state, at most one worker is printing its final state or
  passing the turn on, and the workers have printed in the order 0, 1, 2 and so on, each at
  most once.
\<close>

theorem printing_turn:
  assumes "system_run start_system S"
  shows "print_log S = [0..<length (print_log S)] \<and> length (print_log S) \<le> NUM_WORKERS
     \<and> (\<exists>k. {i \<in> {..<NUM_WORKERS}. phase_of S i = Printing \<or> (\<exists>v. phase_of S i = Passing v)} \<subseteq> {k})"
proof -
  have inv: "system_inv S" using system_run_inv [OF assms start_inv] .
  have "i = nat (turn S)" if "i < 5" "phase_of S i = Printing \<or> (\<exists>v. phase_of S i = Passing v)" for i
    using system_invD(4) [OF inv that(1)] that(2) by (auto simp: worker_ok_def turn_def NUM_WORKERS_def)
  then have "{i \<in> {..<NUM_WORKERS}. phase_of S i = Printing \<or> (\<exists>v. phase_of S i = Passing v)} \<subseteq> {nat (turn S)}"
    by (auto simp: NUM_WORKERS_def)
  then show ?thesis using system_invD(2,3) [OF inv] by (auto simp: NUM_WORKERS_def)
qed

theorem printing_turn_witness:
  "print_log (execute (all_up @ [Interrupt_parent, Parent, Parent] @ replicate 4 (Worker 0)) start_system) = [0]
     \<and> phase_of (execute (all_up @ [Interrupt_parent, Parent, Parent] @ replicate 4 (Worker 0)) start_system) 1 \<noteq> Printing"
proof -
  let ?S = "execute (all_up @ [Interrupt_parent, Parent, Parent] @ replicate 4 (Worker 0)) start_system"
  have e: "length (print_log ?S) = 1" "phase_of ?S 0 = Passing 0" by code_simp+
  have "system_run start_system ?S" by (rule execute_run)
  note t = printing_turn [OF this]
  then obtain k where k: "{i \<in> {..<NUM_WORKERS}. phase_of ?S i = Printing \<or> (\<exists>v. phase_of ?S i = Passing v)} \<subseteq> {k}" by blast
  have "0 \<in> {i \<in> {..<NUM_WORKERS}. phase_of ?S i = Printing \<or> (\<exists>v. phase_of ?S i = Passing v)}"
    using e(2) by (simp add: NUM_WORKERS_def)
  with k have "k = 0" by blast
  have "phase_of ?S 1 \<noteq> Printing"
  proof
    assume "phase_of ?S 1 = Printing"
    then have "1 \<in> {i \<in> {..<NUM_WORKERS}. phase_of ?S i = Printing \<or> (\<exists>v. phase_of ?S i = Passing v)}"
      by (simp add: NUM_WORKERS_def)
    with k \<open>k = 0\<close> show False by auto
  qed
  moreover have "print_log ?S = [0]" using t e(1) by simp
  ultimately show ?thesis by blast
qed

text \<open>
  C39: A worker that fails before its turn to print blocks the shutdown: from then on no worker
  with a higher number ever prints its state or exits normally, and the parent never comes to its
  normal end unless they all fail too.
\<close>

theorem failed_worker_blocks:
  assumes "system_run start_system S" "i < NUM_WORKERS" "phase_of S i = Failed" "i \<notin> set (print_log S)"
    and "system_run S T" "i < j" "j < NUM_WORKERS"
  shows "j \<notin> set (print_log T) \<and> phase_of T j \<notin> {Printing, Stopping, Exited}
     \<and> (parent T = P_done \<longrightarrow> phase_of T j = Failed)"
proof -
  have inv: "system_inv S" using system_run_inv [OF assms(1) start_inv] .
  have invT: "system_inv T" using system_run_inv [OF assms(5) inv] .
  have "i \<notin> set (print_log T)"
    using failed_forever [OF assms(5) inv] assms(2-4) by (simp add: NUM_WORKERS_def)
  then have k: "length (print_log T) \<le> i" using system_invD(3) [OF invT] by (metis atLeast0LessThan lessThan_iff not_le set_upt)
  have "j \<notin> set (print_log T)"
    using system_invD(3) [OF invT] k assms(6) by (metis atLeastLessThan_iff le_trans less_imp_le not_le set_upt)
  moreover have "phase_of T j \<notin> {Printing, Stopping, Exited}"
    using system_invD(4) [OF invT, of j] k assms(6,7) by (auto simp: worker_ok_def NUM_WORKERS_def)
  moreover have "phase_of T j = Failed" if "parent T = P_done"
    using system_invD(6) [OF invT] that assms(7) calculation(2) by (auto simp: parent_ok_def NUM_WORKERS_def)
  ultimately show ?thesis by blast
qed

theorem failed_worker_blocks_witness:
  "phase_of (execute (all_up @ [Fail 1]) start_system) 1 = Failed
     \<and> (\<forall>as. phase_of (execute as (execute (all_up @ [Fail 1]) start_system)) 2 \<noteq> Exited)"
proof -
  let ?S = "execute (all_up @ [Fail 1]) start_system"
  have f: "phase_of ?S 1 = Failed" "1 \<notin> set (print_log ?S)" by code_simp+
  have "phase_of (execute as ?S) 2 \<noteq> Exited" for as
    using failed_worker_blocks [OF execute_run _ f execute_run [of _ as], of 2] by (simp add: NUM_WORKERS_def)
  with f(1) show ?thesis by blast
qed

text \<open>
  C38: Shutdown is possible: from every reachable state in which no process has failed, the
  processes can still come to the end in which the parent is done, every worker has exited and
  all of them have printed their states in order.
\<close>

theorem shutdown_possible:
  assumes "system_run start_system S" "no_failure S"
  shows "\<exists>T. system_run S T \<and> parent T = P_done \<and> print_log T = [0..<NUM_WORKERS]
     \<and> (\<forall>i \<in> {..<NUM_WORKERS}. phase_of T i = Exited)"
proof -
  have inv: "system_inv S" using system_run_inv [OF assms(1) start_inv] .
  obtain T where T: "system_run S T" "parent T = P_done" "no_failure T" using any_ends [OF inv assms(2)] by blast
  have invT: "system_inv T" using system_run_inv [OF T(1) inv] .
  have e: "phase_of T i = Exited" if "i < 5" for i
    using system_invD(6) [OF invT] T(2,3) that by (auto simp: parent_ok_def no_failure_def)
  have "4 < length (print_log T)" using system_invD(4) [OF invT, of 4] e [of 4] by (simp add: worker_ok_def)
  then have "length (print_log T) = 5" using system_invD(2) [OF invT] by simp
  then have "print_log T = [0..<5]" using system_invD(3) [OF invT] by simp
  with T(1,2) e show ?thesis by (auto simp: NUM_WORKERS_def)
qed

theorem shutdown_possible_witness:
  "\<exists>T. system_run start_system T \<and> parent T = P_done \<and> print_log T = [0, 1, 2, 3, 4]"
proof -
  have "no_failure start_system" by (simp add: no_failure_def start_system_def)
  from shutdown_possible [OF run_here this] show ?thesis by (auto simp: NUM_WORKERS_def upt_rec)
qed

end
