(* ===== verification/Setup.thy ===== *)
theory Setup
  imports Shutdown
begin

text \<open>
  \<open>src/main.c\<close>, the shared memory: how the parent creates and removes it, and what becomes of
  the workers when a fork fails.
\<close>

section \<open>Creating and removing the shared memory\<close>

text \<open>
  What \<open>shm_open\<close> and \<open>ftruncate\<close> return, and what \<open>mmap\<close> maps: \<open>None\<close> is \<open>MAP_FAILED\<close>, and
  otherwise the ints that an earlier run may have left there, since \<open>shm_open\<close> has no
  \<open>O_EXCL\<close>. \<open>linked\<close> says that the name \<open>/cbc_sync\<close> exists. The result is the shared array, or
  \<open>None\<close> when the parent exits with \<open>EXIT_FAILURE\<close>.
\<close>

definition main_setup :: "int \<Rightarrow> int \<Rightarrow> int list option \<Rightarrow> bool \<Rightarrow> int list option \<times> bool" where
  "main_setup shm_fd ftruncated mapped linked =
     (if shm_fd < 0 then (None, linked)
      else let linked = True in
      if ftruncated < 0 then (None, False)
      else case mapped of
             None \<Rightarrow> (None, False)
           | Some sync \<Rightarrow> ((Some ((map (\<lambda>_. 0) sync)[NUM_WORKERS := 0])), linked))"

text \<open>\<open>munmap\<close> and \<open>shm_unlink\<close> at the end, and \<open>shm_unlink\<close> after a failed fork.\<close>

definition main_end :: "parent_phase \<Rightarrow> bool \<Rightarrow> bool" where
  "main_end pp linked = (if pp = P_done \<or> pp = P_failed then False else linked)"

text \<open>
  Whatever the earlier contents of the shared memory, the workers start from the array of
  \<open>start_system\<close>; no exit after \<open>shm_open\<close> leaves the name behind.
\<close>

theorem main_setup_outcomes:
  "main_setup shm_fd ftruncated mapped linked = (None, linked) \<and> shm_fd < 0
   \<or> main_setup shm_fd ftruncated mapped linked = (None, False) \<and> (ftruncated < 0 \<or> mapped = None)
   \<or> (\<exists>sync. mapped = Some sync \<and> (length sync = NUM_WORKERS + 1 \<longrightarrow>
        main_setup shm_fd ftruncated mapped linked = (Some (sync_state start_system), True)))"
proof -
  have "(map (\<lambda>_. 0) sync)[NUM_WORKERS := 0] = sync_state start_system" if "length sync = NUM_WORKERS + 1" for sync :: "int list"
    using that by (simp add: start_system_def map_replicate_const list_update_same_conv NUM_WORKERS_def del: replicate.simps)
  then show ?thesis by (auto simp: main_setup_def split: option.split)
qed

section \<open>A failed fork\<close>

text \<open>The phases after the broadcast phase, which a worker enters only when it is interrupted.\<close>

definition late :: "phase \<Rightarrow> bool" where
  "late ph \<longleftrightarrow> ph \<in> {Awaiting_turn, Printing, Stopping, Exited} \<or> (\<exists>v. ph = Passing v)"

lemma late_simps [simp]:
  "\<not> late Unforked" "\<not> late Setup" "\<not> late Notifying" "\<not> late (Checking k)" "\<not> late Broadcasting" "\<not> late Failed"
  by (simp_all add: late_def)

lemma worker_next_late:
  "running_of (worker_next k S) = running_of S" "i \<noteq> k \<Longrightarrow> phase_of (worker_next k S) i = phase_of S i"
  "late (phase_of (worker_next k S) k) \<Longrightarrow> late (phase_of S k) \<or> \<not> running_of S k"
  by (cases "phase_of S k"; simp add: worker_next_def goto_def write_sync_def late_def split: if_splits)+

lemma late_interrupted:
  assumes "system_run start_system S" shows "late (phase_of S i) \<longrightarrow> \<not> running_of S i"
  using assms
proof (induction rule: system_run.induct)
  case run_here
  then show ?case by (simp add: start_system_def)
next
  case (run_more T U)
  from run_more(2) show ?case
  proof (cases rule: system_step.cases)
    case (sys_worker k)
    then have "U = worker_next k T" by (simp add: worker_step_next)
    then show ?thesis using run_more.IH worker_next_late [where k = k and S = T] by (cases "i = k") auto
  next
    case sys_parent
    then show ?thesis using run_more.IH
      by cases (auto simp: goto_def stop_running_def split: if_splits)
  qed (use run_more.IH in \<open>auto simp: sigint_parent_def stop_running_def goto_def\<close>)
qed

lemma stranded_stays:
  assumes "system_step S T" "parent S = P_failed" "phase_of S j = Unforked"
  shows "parent T = P_failed \<and> phase_of T j = Unforked"
  using assms(1)
proof (cases rule: system_step.cases)
  case (sys_worker k)
  then show ?thesis using assms(2,3)
    by (auto simp: worker_step_def goto_def write_sync_def elim!: barrier_step.cases turn_step.cases)
next
  case sys_parent
  then show ?thesis using assms(2) by cases auto
qed (use assms(2,3) in \<open>auto simp: sigint_parent_def stop_running_def goto_def\<close>)

lemma stranded_run:
  assumes "system_run S T" "parent S = P_failed" "phase_of S j = Unforked"
  shows "parent T = P_failed \<and> phase_of T j = Unforked"
  using assms by (induction rule: system_run.induct) (auto dest: stranded_stays)

text \<open>
  C40: When a fork fails, the parent exits without ending the workers it has forked: as long as
  they are not interrupted one by one, they wait at the barrier for good, because the entry of
  the worker that was not forked stays 0.
\<close>

theorem failed_fork_strands:
  assumes "system_run start_system S" "parent S = P_failed" "j < NUM_WORKERS" "phase_of S j = Unforked"
    and "system_run S T" "i < NUM_WORKERS" "running_of T i"
  shows "parent T = P_failed \<and> phase_of T i \<in> {Unforked, Setup, Notifying, Failed} \<union> range Checking"
proof -
  have run: "system_run start_system T" by (rule system_run_trans [OF assms(5,1)])
  have inv: "system_inv T" using system_run_inv [OF run start_inv] .
  have j: "parent T = P_failed" "phase_of T j = Unforked" using stranded_run [OF assms(5,2,4)] by simp_all
  have "sync_state T ! j = 0" using system_invD(4) [OF inv, of j] j(2) assms(3) by (simp add: worker_ok_def NUM_WORKERS_def)
  then have "phase_of T i \<noteq> Broadcasting"
    using system_invD(4) [OF inv, of i] assms(3,6,7) by (auto simp: worker_ok_def NUM_WORKERS_def)
  moreover have "\<not> late (phase_of T i)" using late_interrupted [OF run, of i] assms(7) by blast
  ultimately show ?thesis using j(1) by (cases "phase_of T i") (auto simp: late_def)
qed

text \<open>The second fork fails; the first worker has notified its setup and scans the array.\<close>

theorem failed_fork_strands_witness:
  "parent (execute (replicate 4 (Worker 0)) ((execute [Parent] start_system)\<lparr>parent := P_failed\<rparr>)) = P_failed
     \<and> phase_of (execute (replicate 4 (Worker 0)) ((execute [Parent] start_system)\<lparr>parent := P_failed\<rparr>)) 0 \<noteq> Broadcasting"
proof -
  let ?S = "(execute [Parent] start_system)\<lparr>parent := P_failed\<rparr>" and ?T = "\<lambda>S. execute (replicate 4 (Worker 0)) S"
  have "parent (execute [Parent] start_system) = P_fork 1" by code_simp
  then have "system_run start_system ?S"
    using run_more [OF execute_run sys_parent [OF ps_fork_fails [of "execute [Parent] start_system" 1]]]
    by (simp add: NUM_WORKERS_def)
  moreover have "phase_of ?S 1 = Unforked" "running_of (?T ?S) 0" by code_simp+
  ultimately show ?thesis
    using failed_fork_strands [of ?S 1 "?T ?S" 0] execute_run [of ?S "replicate 4 (Worker 0)"] by (auto simp: NUM_WORKERS_def)
qed

end
