(* ===== verification/Locks.thy ===== *)
theory Locks
  imports Statistics
begin

text \<open>
  The mutexes of a context. Every operation records the mutexes it takes and releases in
  \<open>lock_trace\<close>; here each of them is shown to take mutexes only in a fixed order
  (send, receive, peers, vector clock, statistics), never twice, and to release all of them.
  Threads whose operations have this discipline never deadlock, in any interleaving.

  The trace of an operation is that of a run without interference from the other threads. The
  send thread waits for a message with all mutexes released. The cancellation of the threads in
  \<open>cbc_stop\<close>, which can end one that holds a mutex, is not an operation here.
\<close>

section \<open>The order of the mutexes\<close>

fun lock_rank :: "lock \<Rightarrow> nat" where
  "lock_rank SEND_LOCK = 0"
| "lock_rank RECV_LOCK = 1"
| "lock_rank PEER_LOCK = 2"
| "lock_rank VCLOCK_MTX = 3"
| "lock_rank STATS_LOCK = 4"

lemma lock_rank_inj: "lock_rank a = lock_rank b \<Longrightarrow> a = b"
  by (cases a; cases b) simp_all

instantiation lock :: linorder
begin

definition less_eq_lock :: "lock \<Rightarrow> lock \<Rightarrow> bool" where
  "a \<le> b \<longleftrightarrow> lock_rank a \<le> lock_rank b"

definition less_lock :: "lock \<Rightarrow> lock \<Rightarrow> bool" where
  "a < b \<longleftrightarrow> lock_rank a < lock_rank b"

instance
  by standard (auto simp: less_eq_lock_def less_lock_def intro: lock_rank_inj)

end

lemma finite_locks: "finite (A :: lock set)"
proof (rule finite_subset)
  show "A \<subseteq> {SEND_LOCK, RECV_LOCK, PEER_LOCK, VCLOCK_MTX, STATS_LOCK}"
    using lock.exhaust by blast
qed simp

section \<open>The discipline\<close>

text \<open>The mutexes held after the events, when every event keeps the order.\<close>

fun run_locks :: "lock set \<Rightarrow> lock_event list \<Rightarrow> lock set option" where
  "run_locks H [] = Some H"
| "run_locks H (Lock l # es) = (if \<forall>h \<in> H. h < l then run_locks (insert l H) es else None)"
| "run_locks H (Unlock l # es) = (if l \<in> H then run_locks (H - {l}) es else None)"

lemma run_locks_append:
  "run_locks H (as @ bs) = (case run_locks H as of None \<Rightarrow> None | Some H \<Rightarrow> run_locks H bs)"
  by (induction H as rule: run_locks.induct) auto

definition locking :: "lock set \<Rightarrow> node \<Rightarrow> lock set \<Rightarrow> node \<Rightarrow> bool" where
  "locking H s H' s' \<longleftrightarrow> (\<exists>es. lock_trace s' = lock_trace s @ es \<and> run_locks H es = Some H')"

abbreviation orderly :: "node \<Rightarrow> node \<Rightarrow> bool" where
  "orderly s s' \<equiv> locking {} s {} s'"

lemma locking_trans: "locking H s H' t \<Longrightarrow> locking H' t H'' u \<Longrightarrow> locking H s H'' u"
  unfolding locking_def using run_locks_append by fastforce

lemma locking_same [simp]: "lock_trace s' = lock_trace s \<Longrightarrow> locking H s H s'"
  by (simp add: locking_def)

text \<open>The state before or after may be changed where the trace is not concerned.\<close>

lemma locking_cong: "lock_trace s = lock_trace t \<Longrightarrow> lock_trace s' = lock_trace t' \<Longrightarrow> locking H s H' s' = locking H t H' t'"
  by (simp add: locking_def)

lemma locking_lock: "\<forall>h \<in> H. h < l \<Longrightarrow> locking H s (insert l H) (mutex_lock l s)"
  by (simp add: locking_def mutex_lock_def)

lemma locking_unlock: "l \<in> H \<Longrightarrow> locking H s (H - {l}) (mutex_unlock l s)"
  by (simp add: locking_def mutex_unlock_def)

text \<open>A critical section that itself keeps the trace.\<close>

lemma locking_section:
  "\<forall>h \<in> H. h < l \<Longrightarrow> lock_trace s' = lock_trace s @ [Lock l, Unlock l] \<Longrightarrow> locking H s H s'"
  by (auto simp: locking_def)

lemma trace_steps [simp]:
  "lock_trace (mutex_lock l s) = lock_trace s @ [Lock l]"
  "lock_trace (mutex_unlock l s) = lock_trace s @ [Unlock l]"
  "lock_trace (c_sendto b n a s) = lock_trace s"
  by (simp_all add: mutex_lock_def mutex_unlock_def c_sendto_def split: option.splits)

section \<open>The operations\<close>

lemma enqueue_locks: "lock_trace (enqueue_outgoing out s) = lock_trace s @ [Lock SEND_LOCK, Unlock SEND_LOCK]"
  by (simp add: enqueue_outgoing_def with_lock_def)

lemma get_addr_locks:
  assumes "cbc_peer_get_addr_copy p s = Inr (a, s')"
  shows "lock_trace s' = lock_trace s @ [Lock PEER_LOCK, Unlock PEER_LOCK]"
  using arg_cong [OF cbc_peer_get_addr_copy_Inr(2) [OF assms], of lock_trace] by simp

lemma section_orderly [intro]:
  "lock_trace s' = lock_trace s @ [Lock l, Unlock l] \<Longrightarrow> orderly s s'"
  by (rule locking_section) simp_all

lemma enqueue_orderly [intro]: "lock_trace t = lock_trace s \<Longrightarrow> orderly s (enqueue_outgoing out t)"
  by (rule section_orderly [of _ _ SEND_LOCK]) (simp add: enqueue_locks)

lemma get_addr_orderly: "cbc_peer_get_addr_copy p s = Inr (a, s') \<Longrightarrow> orderly s s'"
  using get_addr_locks by blast

lemma send_answer_locks:
  assumes "send_answer k c p s = Inr s'" shows "orderly s s'"
proof -
  obtain msg m a t where a: "cbc_peer_get_addr_copy (ucast p) (s\<lparr>mem := m\<rparr>) = Inr (a, t)"
    and rest: "(if a = None then Inr t else
       let (r, m) = cbc_outgoing_msg_create (set_clock c msg) a (mem t)
       in andthen (result_unwrap r) (\<lambda>out. Inr (enqueue_outgoing out (t\<lparr>mem := m\<rparr>)))) = Inr s'"
    using assms by (auto simp: send_answer_def)
  have 1: "orderly s t" using get_addr_locks [OF a] by auto
  have "orderly t s'"
    using rest by (auto simp: Let_def split: if_splits prod.splits)
  with 1 show ?thesis by (rule locking_trans)
qed

lemma ack_received_message_locks: "ack_received_message c p s = Inr s' \<Longrightarrow> orderly s s'"
  by (auto simp: ack_received_message_eq split: if_splits intro: send_answer_locks)

lemma request_retransmission_locks:
  assumes "request_retransmission p s = Inr s'" shows "orderly s s'"
proof -
  obtain c where "send_answer CBC_RETRANSMIT_REQ c p (mutex_unlock VCLOCK_MTX (mutex_lock VCLOCK_MTX s)) = Inr s'"
    using assms by (auto simp: request_retransmission_eq split: if_splits)
  from send_answer_locks [OF this] show ?thesis
    by (rule locking_trans [OF section_orderly, rotated]) simp
qed

lemma held_pass_locks: "held_pass p i hs s = Inr (b, s') \<Longrightarrow> locking {RECV_LOCK} s {RECV_LOCK} s'"
proof (induction p i hs s arbitrary: b s' rule: held_pass.induct)
  case (2 p i h hs s)
  let ?t = "mutex_unlock VCLOCK_MTX (mutex_lock VCLOCK_MTX s)"
  have sec: "locking {RECV_LOCK} s {RECV_LOCK} u" if "lock_trace u = lock_trace ?t" for u
    by (rule locking_section [of _ VCLOCK_MTX]) (simp_all add: that less_lock_def)
  show ?case
  proof (cases "sender_pid h = p")
    case True
    with "2.prems" obtain c where
      c: "check_msg_causality (vclock s) (ucast p) (ucast (rcvd_clock h)) = Inr c" by auto
    show ?thesis
    proof (cases "c = CAUSALITY_DELIVER")
      case True
      with c \<open>sender_pid h = p\<close> "2.prems" show ?thesis by (auto simp: Let_def intro!: sec)
    next
      case False
      with c \<open>sender_pid h = p\<close> "2.prems" have "held_pass p (Suc i) hs ?t = Inr (b, s')" by simp
      from "2.IH"(1) [OF True c False this] sec [of ?t] show ?thesis by (blast intro: locking_trans)
    qed
  qed (use 2 in simp)
qed simp

lemma try_deliver_locks: "try_deliver_held_msgs p s = Inr s' \<Longrightarrow> locking {RECV_LOCK} s {RECV_LOCK} s'"
proof (induction p s rule: try_deliver_held_msgs.induct)
  case (1 p s)
  from "1.prems" obtain b t where t: "held_pass p 0 (held_msg_buffer s) s = Inr (b, t)"
    "(if b then try_deliver_held_msgs p t else Inr t) = Inr s'"
    by (subst (asm) try_deliver_held_msgs.simps) auto
  then show ?case using held_pass_locks [OF t(1)] "1.IH" [OF t(1) refl] by (auto split: if_splits intro: locking_trans)
qed

text \<open>The critical section of a delivery, and of holding a message.\<close>

lemma locking_enclosed:
  assumes "locking H s H t" "l \<notin> H" "\<forall>h \<in> H. h < l" "locking (insert l H) (mutex_lock l t) (insert l H) u"
    "lock_trace s' = lock_trace u @ [Unlock l]"
  shows "locking H s H s'"
proof -
  have "locking H t (insert l H) (mutex_lock l t)" using assms(3) by (rule locking_lock)
  moreover have "locking (insert l H) u H s'"
    using assms(2,5) by (auto simp: locking_def)
  ultimately show ?thesis using assms(1,4) by (blast intro: locking_trans)
qed

lemma handle_data_msg_cases:
  assumes "handle_data_msg msg p s = Inr s'"
  shows "error_branch msg p (classified s) = Inr s' \<or> deliver_branch msg p (classified s) = Inr s'
    \<or> hold_branch msg p (classified s) = Inr s'"
proof -
  obtain c rcvd m where
    r: "cbc_received_msg_create msg p (mem s) = (result_new_ok rcvd, m)"
    and rest: "(case c of CAUSALITY_ERROR \<Rightarrow> error_branch msg p (classified s)
      | CAUSALITY_DELIVER \<Rightarrow> deliver_branch msg p (classified s)
      | CAUSALITY_HOLD \<Rightarrow> hold_branch msg p (classified s)) = Inr s'"
  proof -
    obtain c r m where c: "check_msg_causality (vclock s) (ucast p) (ucast (clock (header msg))) = Inr c"
      and r: "cbc_received_msg_create msg p (mem s) = (r, m)"
      using assms by (cases "cbc_received_msg_create msg p (mem s)") (auto simp: handle_data_msg_def Let_def)
    obtain rcvd where rcvd: "r = result_new_ok rcvd" using assms c r by (auto simp: handle_data_msg_def Let_def)
    then have "rcvd = rcvd_of msg p" "m = snd (calloc (mem s))" using r cbc_received_msg_create_Inr by auto
    then have "(case c of CAUSALITY_ERROR \<Rightarrow> error_branch msg p (classified s)
      | CAUSALITY_DELIVER \<Rightarrow> deliver_branch msg p (classified s)
      | CAUSALITY_HOLD \<Rightarrow> hold_branch msg p (classified s)) = handle_data_msg msg p s"
      using c r rcvd
      by (cases c) (simp_all add: handle_data_msg_def Let_def classified_def error_branch_def
          deliver_branch_def hold_branch_def held_already_def)
    with assms r rcvd that show thesis by simp
  qed
  then show ?thesis by (cases c) auto
qed

lemma andthen_InrE:
  assumes "andthen r f = Inr y" obtains x where "r = Inr x" "f x = Inr y"
  using assms by auto

lemma deliver_branch_locks:
  assumes "deliver_branch msg p s = Inr s'" shows "orderly s s'"
proof -
  let ?v = "\<lambda>t vc. with_lock VCLOCK_MTX (\<lambda>s. s\<lparr>vclock := vc\<rparr>) (mutex_lock RECV_LOCK t)"
  let ?w = "\<lambda>t vc. ?v t vc \<lparr>delivery_queue := arrput (delivery_queue (?v t vc)) (rcvd_of msg p)\<rparr>"
  obtain t vc u where t: "ack_received_message (clock (header msg)) p s = Inr t"
    and u: "(if kind (header msg) = CBC_RETRANSMIT then try_deliver_held_msgs p (?w t vc) else Inr (?w t vc)) = Inr u"
    and s': "Inr (mutex_unlock RECV_LOCK u) = (Inr s' :: node res)"
    using assms unfolding deliver_branch_def Let_def by (elim andthen_InrE) (rule that)
  have "locking {RECV_LOCK} (mutex_lock RECV_LOCK t) {RECV_LOCK} (?w t vc)"
    by (rule locking_section [of _ VCLOCK_MTX]) (simp_all add: less_lock_def with_lock_def)
  moreover have "locking {RECV_LOCK} (?w t vc) {RECV_LOCK} u"
    using u try_deliver_locks by (simp split: if_splits)
  ultimately have "locking {RECV_LOCK} (mutex_lock RECV_LOCK t) {RECV_LOCK} u" by (rule locking_trans)
  then show ?thesis
    using locking_enclosed [OF ack_received_message_locks [OF t], of RECV_LOCK u s'] s' by auto
qed

lemma hold_branch_locks:
  assumes "hold_branch msg p s = Inr s'" shows "orderly s s'"
proof -
  obtain t u where t: "ack_received_message (clock (header msg)) p s = Inr t"
    and u: "request_retransmission p (mutex_unlock RECV_LOCK u) = Inr s'"
    and tr: "lock_trace u = lock_trace (mutex_lock RECV_LOCK t)"
    using assms by (auto simp: hold_branch_def Let_def split: if_splits)
  have "orderly t (mutex_unlock RECV_LOCK u)" by (rule section_orderly [of _ _ RECV_LOCK]) (simp add: tr)
  with ack_received_message_locks [OF t] request_retransmission_locks [OF u]
  show ?thesis by (blast intro: locking_trans)
qed

lemma handle_data_msg_locks:
  assumes "handle_data_msg msg p s = Inr s'" shows "orderly s s'"
proof -
  have c: "orderly s (classified s)" unfolding classified_def by (rule section_orderly [of _ _ VCLOCK_MTX]) simp
  have "orderly (classified s) s'" using handle_data_msg_cases [OF assms]
  proof (elim disjE)
    assume "error_branch msg p (classified s) = Inr s'"
    then obtain t where t: "ack_received_message (clock (header msg)) p (classified s) = Inr t"
      "lock_trace s' = lock_trace t" by (auto simp: error_branch_def split: if_splits)
    from ack_received_message_locks [OF t(1)] show ?thesis by (simp add: locking_def t(2))
  qed (rule deliver_branch_locks hold_branch_locks; assumption)+
  with c show ?thesis by (rule locking_trans)
qed

text \<open>A critical section whose body is an operation without mutexes of its own.\<close>

lemma orderly_around:
  "lock_trace t = lock_trace s @ [Lock l] \<Longrightarrow> lock_trace s' = lock_trace t @ [Unlock l] \<Longrightarrow> orderly s s'"
  by (rule section_orderly [of _ _ l]) simp

lemma register_ack_trace: "register_ack ack p s = Inr s' \<Longrightarrow> lock_trace s' = lock_trace s"
  by (auto simp: register_ack_def Let_def split: if_splits option.splits)

lemma queue_retransmission_locks:
  assumes "queue_retransmission msg p s = Inr s'" shows "orderly s s'"
proof -
  let ?s = "mutex_lock SEND_LOCK s"
  have sec: "orderly s (mutex_unlock SEND_LOCK (?s\<lparr>mem := m\<rparr>))" for m
    by (rule section_orderly [of _ _ SEND_LOCK]) simp
  obtain idx where idx: "find_sent (\<lambda>m. clock (header (sent_message m)) = clock (header msg)) 0
      (sent_msg_buffer ?s) ?s = Inr idx"
    using assms unfolding queue_retransmission_def Let_def by (auto split: if_splits)
  show ?thesis
  proof (cases idx)
    case None
    with assms idx sec [of "mem s"] show ?thesis
      by (auto simp: queue_retransmission_def Let_def split: if_splits intro!: section_orderly [of _ _ SEND_LOCK])
  next
    case (Some i)
    with assms idx obtain sent m where body: "andthen (cbc_peer_get_addr_copy (ucast p) (mutex_unlock SEND_LOCK (?s\<lparr>mem := m\<rparr>)))
       (\<lambda>(a, t). let (r, m) = cbc_outgoing_msg_create (set_clock (clock (header msg)) sent) a (mem t)
          in andthen (result_unwrap r) (\<lambda>out. Inr (enqueue_outgoing out (t\<lparr>mem := m\<rparr>)))) = Inr s'"
      by (auto simp: queue_retransmission_def Let_def split: if_splits)
    then obtain a t where a: "cbc_peer_get_addr_copy (ucast p) (mutex_unlock SEND_LOCK (?s\<lparr>mem := m\<rparr>)) = Inr (a, t)"
      and out: "(let (r, m) = cbc_outgoing_msg_create (set_clock (clock (header msg)) sent) a (mem t)
          in andthen (result_unwrap r) (\<lambda>out. Inr (enqueue_outgoing out (t\<lparr>mem := m\<rparr>)))) = Inr s'"
      by auto
    have "orderly t s'" using out by (auto simp: Let_def split: prod.splits)
    with sec get_addr_orderly [OF a] show ?thesis by (blast intro: locking_trans)
  qed
qed

lemma dispatch_msg_locks:
  assumes "dispatch_msg msg p s = Inr s'" shows "orderly s s'"
proof -
  have mem: "orderly s (t\<lparr>mem := m\<rparr>)" if "orderly s t" for t m using that by (simp add: locking_def)
  show ?thesis
  proof (cases "kind (header msg)")
    case CBC_ACK
    then obtain t where "register_ack msg p (mutex_lock SEND_LOCK s) = Inr t"
      "lock_trace s' = lock_trace t @ [Unlock SEND_LOCK]"
      using assms by (auto simp: dispatch_msg_def Let_def)
    with register_ack_trace show ?thesis by (intro orderly_around [of t s SEND_LOCK]) auto
  qed (use assms in \<open>auto simp: dispatch_msg_def intro: handle_data_msg_locks queue_retransmission_locks mem\<close>)
qed

lemma parse_and_dispatch_locks:
  assumes "parse_and_dispatch bs p s = Inr s'" shows "orderly s s'"
proof -
  obtain r m where "(if result_is_err r then Inr (s\<lparr>mem := c_free 1 m\<rparr>)
      else andthen (result_expect r ''unreachable'') (\<lambda>msg. dispatch_msg msg p (s\<lparr>mem := c_free 1 m\<rparr>))) = Inr s'"
    using assms by (auto simp: parse_and_dispatch_def Let_def)
  moreover have "orderly s s'" if "dispatch_msg msg p (s\<lparr>mem := k\<rparr>) = Inr s'" for msg k
    using dispatch_msg_locks [OF that] by (simp add: locking_def)
  ultimately show ?thesis by (auto split: if_splits)
qed

lemma find_by_addr_locks:
  "cbc_peer_find_by_addr a s = (q, t) \<Longrightarrow> lock_trace t = lock_trace s @ [Lock PEER_LOCK, Unlock PEER_LOCK]"
  by (auto simp: cbc_peer_find_by_addr_def Let_def)

lemma c_recvfrom_trace: "c_recvfrom fails n peek s = Some (k, bs, a, t) \<Longrightarrow> lock_trace t = lock_trace s"
  by (auto simp: c_recvfrom_def split: if_splits list.splits)

lemma recv_full_locks:
  assumes "recv_full fails n s = Some (Inr s')" shows "orderly s s'"
proof -
  obtain k bs a t where t: "c_recvfrom fails n False s = Some (k, bs, a, t)"
    using assms by (auto simp: recv_full_def split: option.splits)
  obtain q u where u: "cbc_peer_find_by_addr (the a) t = (q, u)" by (cases "cbc_peer_find_by_addr (the a) t")
  have "orderly s u" by (rule section_orderly [of _ _ PEER_LOCK])
      (simp add: find_by_addr_locks [OF u] c_recvfrom_trace [OF t])
  moreover have "s' = t\<lparr>mem := c_free 1 (mem t)\<rparr> \<or> orderly u s'"
    using assms t u by (auto simp: recv_full_def Let_def split: if_splits intro: parse_and_dispatch_locks)
  ultimately show ?thesis using c_recvfrom_trace [OF t] by (auto intro: locking_trans)
qed

lemma cbc_recv_iteration_locks:
  assumes "cbc_recv_iteration peek_fails recv_fails hb s = Some (Inr (hb', s'))" shows "orderly s s'"
proof -
  obtain k bs a t where t: "c_recvfrom peek_fails hdr_size True s = Some (k, bs, a, t)"
    using assms by (auto simp: cbc_recv_iteration_def split: option.splits)
  have "lock_trace s' = lock_trace t \<or> (\<exists>n m. recv_full recv_fails n (t\<lparr>mem := m\<rparr>) = Some (Inr s'))"
    using assms t by (auto simp: cbc_recv_iteration_def Let_def split: if_splits prod.splits)
  then have "lock_trace s' = lock_trace t \<or> orderly t s'" using recv_full_locks by (fastforce simp: locking_def)
  then show ?thesis using c_recvfrom_trace [OF t] by (auto simp: locking_def)
qed

lemma cbc_receive_locks: "cbc_receive s = (r, s') \<Longrightarrow> orderly s s'"
  by (auto simp: cbc_receive_def Let_def with_lock_def locking_def split: list.splits)

section \<open>The operations of the sending side\<close>

lemma peer_locks:
  "cbc_add_peer inet_addr p ipv4 port s = Inr (r, s') \<Longrightarrow> orderly s s'" "orderly s (cbc_remove_peer p s)"
proof -
  assume "cbc_add_peer inet_addr p ipv4 port s = Inr (r, s')"
  then have "lock_trace s' = lock_trace s \<or> lock_trace s' = lock_trace s @ [Lock PEER_LOCK, Unlock PEER_LOCK]"
    by (auto simp: cbc_add_peer_def Let_def with_lock_def split: option.splits if_splits sum.splits prod.splits)
  then show "orderly s s'" by auto
next
  show "orderly s (cbc_remove_peer p s)"
    by (rule section_orderly [of _ _ PEER_LOCK]) (simp add: cbc_remove_peer_def with_lock_def split: option.splits)
qed

lemma get_current_clock_locks: "get_current_clock s = Inr (c, s') \<Longrightarrow> orderly s s'"
  by (rule section_orderly [of _ _ VCLOCK_MTX]) (auto simp: get_current_clock_def Let_def)

lemma find_old_messages_locks: "find_old_messages c s = Inr (old, s') \<Longrightarrow> orderly s s'"
  by (rule section_orderly [of _ _ SEND_LOCK]) (auto simp: find_old_messages_def Let_def)

lemma find_unacked_peers_locks: "find_unacked_peers p s = Inr (ts, s') \<Longrightarrow> orderly s s'"
  by (rule section_orderly [of _ _ PEER_LOCK]) (auto simp: find_unacked_peers_def Let_def)

lemma find_dead_loop_locks: "find_dead_loop dead ds s = Inr (ds', s') \<Longrightarrow> orderly s s'"
proof (induction dead ds s rule: find_dead_loop.induct)
  case (2 p dead ds s)
  then obtain ts t where t: "find_unacked_peers p s = Inr (ts, t)" by auto
  from find_unacked_peers_locks [OF t] 2 t show ?case
    by (auto split: if_splits intro: locking_trans)
qed simp

lemma mark_acked_trace: "mark_acked ds ps s = Inr s' \<Longrightarrow> lock_trace s' = lock_trace s"
  by (induction ds ps s rule: mark_acked.induct) fastforce+

lemma purge_acked_trace: "purge_acked s = Inr s' \<Longrightarrow> lock_trace s' = lock_trace s"
proof (induction s rule: purge_acked.induct)
  case (1 s)
  from "1.prems" obtain idx where i: "find_sent (\<lambda>m. ack_bitmap m = ack_target m) 0 (sent_msg_buffer s) s = Inr idx"
    "(case idx of None \<Rightarrow> Inr s | Some i \<Rightarrow> purge_acked (s\<lparr>sent_msg_buffer := arrdel (sent_msg_buffer s) i\<rparr>)) = Inr s'"
    by (subst (asm) purge_acked.simps) auto
  show ?case
  proof (cases idx)
    case (Some k)
    with i "1.IH" [OF i(1) Some] show ?thesis by simp
  qed (use i in simp)
qed

lemma handle_dead_peers_locks:
  assumes "handle_dead_peers ds s = Inr s'" shows "orderly s s'"
proof -
  define t where "t = (let r = int (length (peers s)) - int (length ds);
       s = mutex_unlock PEER_LOCK (mutex_lock PEER_LOCK s);
       s = (if r < 1 then s\<lparr>state := CBC_DISCONNECTED\<rparr> else s);
       s = (if r < int (length (peers s)) div 2 then s\<lparr>state := CBC_DISCONNECTED\<rparr> else s);
       s = mutex_lock PEER_LOCK (mutex_lock RECV_LOCK (mutex_lock SEND_LOCK s))
     in s\<lparr>peers := mark_dead ds (peers s)\<rparr>)"
  have t: "lock_trace t = lock_trace s @ [Lock PEER_LOCK, Unlock PEER_LOCK, Lock SEND_LOCK, Lock RECV_LOCK, Lock PEER_LOCK]"
    by (simp add: t_def Let_def)
  have "ds \<noteq> [] \<and> peers s \<noteq> []"
    using assms by (cases "ds = []"; cases "peers s = []") (simp_all add: handle_dead_peers_def Let_def)
  then have "handle_dead_peers ds s = andthen (mark_acked ds (sent_msg_buffer t) t) (\<lambda>s. andthen (purge_acked s) (\<lambda>s.
      Inr (mutex_unlock SEND_LOCK (mutex_unlock RECV_LOCK (mutex_unlock PEER_LOCK s)))))"
    by (simp add: handle_dead_peers_def t_def Let_def)
  with assms obtain u v where "mark_acked ds (sent_msg_buffer t) t = Inr u" "purge_acked u = Inr v"
    and s': "s' = mutex_unlock SEND_LOCK (mutex_unlock RECV_LOCK (mutex_unlock PEER_LOCK v))"
    by auto
  then have "lock_trace v = lock_trace t" using mark_acked_trace purge_acked_trace by metis
  then show ?thesis by (simp add: locking_def s' t less_lock_def insert_Diff_if)
qed

lemma queue_retransmit_one_locks:
  assumes "queue_retransmit_one j p q s = Inr s'" shows "orderly s s'"
proof -
  obtain a t where t: "cbc_peer_get_addr_copy q s = Inr (a, t)"
    using assms by (auto simp: queue_retransmit_one_def)
  obtain m r k where m: "read_sent p t = Inr m" "cbc_msg_create CBC_RETRANSMIT (payload (sent_message m))
      (len (header (sent_message m))) (mem t) = Inr (result_new_ok r, k)"
    using assms t by (auto simp: queue_retransmit_one_def Let_def)
  obtain x k' where "cbc_outgoing_msg_create r a k = (x, k')" by (cases "cbc_outgoing_msg_create r a k")
  with assms t m have "orderly t s'"
    by (auto simp: queue_retransmit_one_def Let_def split: if_splits)
  with get_addr_orderly [OF t] show ?thesis by (rule locking_trans)
qed

lemma queue_retransmit_messages_locks: "queue_retransmit_messages j p qs s = Inr s' \<Longrightarrow> orderly s s'"
proof (induction j p qs s rule: queue_retransmit_messages.induct)
  case (2 j p q qs s)
  then obtain t where "queue_retransmit_one j p q s = Inr t" "queue_retransmit_messages (Suc j) p qs t = Inr s'" by auto
  with 2 queue_retransmit_one_locks show ?case by (blast intro: locking_trans)
qed simp

lemma retransmit_messages_locks: "retransmit_messages old s = Inr s' \<Longrightarrow> orderly s s'"
proof (induction old s rule: retransmit_messages.induct)
  case (1 old s)
  show ?case
  proof (cases "old = []")
    case True
    with "1.prems" show ?thesis by (subst (asm) retransmit_messages.simps) simp
  next
    case False
    obtain p rest where pop: "arrpop old = (p, rest)" by (cases "arrpop old")
    with "1.prems" False obtain ts t where u: "find_unacked_peers p s = Inr (ts, t)"
      and body: "(if ts = [] then Inr t else andthen (queue_retransmit_messages 0 p ts t) (retransmit_messages rest)) = Inr s'"
      by (subst (asm) retransmit_messages.simps) auto
    have "orderly t s'"
    proof (cases "ts = []")
      case False
      with body obtain v where v: "queue_retransmit_messages 0 p ts t = Inr v" "retransmit_messages rest v = Inr s'" by auto
      from "1.IH" [OF \<open>old \<noteq> []\<close> pop [symmetric] refl u refl False v(1)] v queue_retransmit_messages_locks
      show ?thesis by (blast intro: locking_trans)
    qed (use body in simp)
    with find_unacked_peers_locks [OF u] show ?thesis by (rule locking_trans)
  qed
qed

lemma handle_old_messages_locks:
  assumes "handle_old_messages s = Inr s'" shows "orderly s s'"
proof (cases "sent_msg_buffer s = [] \<or> peers s = []")
  case True
  with assms show ?thesis by (auto simp: handle_old_messages_def)
next
  case False
  with assms obtain c t where t: "get_current_clock s = Inr (c, t)"
    and "andthen (find_old_messages c t) (\<lambda>(old_msgs, s).
        if old_msgs = [] then Inr s
        else
          andthen (filter_dead_messages (ucast c) old_msgs s) (\<lambda>(dead_msgs, old_msgs).
          andthen (if dead_msgs = [] then Inr s
                   else
                     andthen (find_dead_peers dead_msgs s) (\<lambda>(dead_peers, s).
                     if dead_peers = [] then Inr s else handle_dead_peers dead_peers s)) (\<lambda>s.
          retransmit_messages old_msgs s))) = Inr s'"
    by (auto simp: handle_old_messages_def)
  then obtain old u where u: "find_old_messages c t = Inr (old, u)"
    and body: "(if old = [] then Inr u else andthen (filter_dead_messages (ucast c) old u) (\<lambda>(dead_msgs, old_msgs).
          andthen (if dead_msgs = [] then Inr u
                   else
                     andthen (find_dead_peers dead_msgs u) (\<lambda>(dead_peers, s).
                     if dead_peers = [] then Inr s else handle_dead_peers dead_peers s)) (\<lambda>s.
          retransmit_messages old_msgs s))) = Inr s'"
    by (elim andthen_InrE) auto
  have "orderly u s'"
  proof (cases "old = []")
    case False
    with body obtain d where "(\<lambda>(dead_msgs, old_msgs).
          andthen (if dead_msgs = [] then Inr u
                   else
                     andthen (find_dead_peers dead_msgs u) (\<lambda>(dead_peers, s).
                     if dead_peers = [] then Inr s else handle_dead_peers dead_peers s)) (\<lambda>s.
          retransmit_messages old_msgs s)) d = Inr s'"
      unfolding if_not_P [OF False] by (elim andthen_InrE)
    then obtain dead rest v where
      v: "(if dead = [] then Inr u else andthen (find_dead_peers dead u) (\<lambda>(dead_peers, s).
          if dead_peers = [] then Inr s else handle_dead_peers dead_peers s)) = Inr v"
      and w: "retransmit_messages rest v = Inr s'"
      by (cases d) (simp only: prod.case, elim andthen_InrE, blast)
    have "orderly u v"
    proof (cases "dead = []")
      case False
      with v obtain ds x where "find_dead_peers dead u = Inr (ds, x)" "ds = [] \<and> v = x \<or> handle_dead_peers ds x = Inr v"
        by (auto split: if_splits)
      then show ?thesis using find_dead_loop_locks handle_dead_peers_locks
        by (metis find_dead_peers_def locking_trans)
    qed (use v in simp)
    then show ?thesis using retransmit_messages_locks [OF w] by (rule locking_trans)
  qed (use body in simp)
  with get_current_clock_locks [OF t] find_old_messages_locks [OF u] show ?thesis by (blast intro: locking_trans)
qed

lemma cbc_send_locks:
  assumes "cbc_send pl n s = Inr (r, s')" shows "orderly s s'"
proof (cases "pl = None \<or> n = 0 \<or> peers s = []")
  case True
  with assms have "s' = s" by (auto simp: cbc_send_def split: if_splits)
  then show ?thesis by simp
next
  case False
  with assms obtain q m where q: "cbc_msg_create CBC_DATA pl (ucast n) (mem s) = Inr (q, m)"
    by (auto simp: cbc_send_def)
  show ?thesis
  proof (cases q rule: result_cases)
    case (Ok msg)
    let ?vc = "\<lambda>vc. mutex_unlock VCLOCK_MTX (mutex_lock VCLOCK_MTX (s\<lparr>mem := m\<rparr>)\<lparr>vclock := vc\<rparr>)"
    from False assms q Ok obtain vc out k where
      h: "handle_old_messages (enqueue_outgoing out (?vc vc\<lparr>mem := k\<rparr>)) = Inr s'"
      by (auto simp: cbc_send_def Let_def result_new_ok_def split: prod.splits)
    have "orderly s (?vc vc)" by (rule section_orderly [of _ _ VCLOCK_MTX]) simp
    moreover have "orderly (?vc vc) (enqueue_outgoing out (?vc vc\<lparr>mem := k\<rparr>))" by (rule enqueue_orderly) simp
    ultimately show ?thesis using handle_old_messages_locks [OF h] by (blast intro: locking_trans)
  next
    case (Err e)
    with False assms q have "s' = s\<lparr>mem := m\<rparr>" by (auto simp: cbc_send_def Let_def result_new_err_def)
    then show ?thesis by simp
  qed
qed

lemma broadcast_loop_trace:
  "broadcast_loop bs n ps tg d k s = Inr (tg', d', k', s') \<Longrightarrow> lock_trace s' = lock_trace s"
  by (induction bs n ps tg d k s rule: broadcast_loop.induct)
    (auto simp: c_rand_def Let_def split: if_splits)

lemma broadcast_locks:
  assumes "broadcast bs n s = Inr (tg, s')" shows "orderly s s'"
proof -
  obtain tg' d k t where t: "broadcast_loop bs n (peers s) 0 0 0 (mutex_lock PEER_LOCK s) = Inr (tg', d, k, t)"
    and s': "lock_trace s' = lock_trace t @ [Unlock PEER_LOCK, Lock STATS_LOCK, Unlock STATS_LOCK]"
    using assms by (auto simp: broadcast_def Let_def with_lock_def)
  show ?thesis using broadcast_loop_trace [OF t] by (simp add: locking_def s')
qed

lemma send_single_locks: "orderly s (send_single dr f g bs n out s)"
  by (rule section_orderly [of _ _ STATS_LOCK]) (simp add: send_single_def count_stat_def with_lock_def)

lemma record_sent_locks: "lock_trace t = lock_trace s \<Longrightarrow> orderly s (record_sent m t)"
  by (rule section_orderly [of _ _ SEND_LOCK]) (simp add: record_sent_def with_lock_def)

lemma send_by_kind_locks:
  assumes "send_by_kind dr bs n out s = Inr (m, s')" shows "orderly s s'"
proof (cases "kind (header (out_message out))")
  case CBC_DATA
  with assms obtain tg t where t: "broadcast bs n s = Inr (tg, t)" by (auto simp: send_by_kind_def Let_def)
  have "orderly t s'"
    using assms CBC_DATA t by (auto simp: send_by_kind_def Let_def intro!: record_sent_locks split: prod.splits)
  with broadcast_locks [OF t] show ?thesis by (rule locking_trans)
qed (use assms in \<open>auto simp: send_by_kind_def Let_def send_single_locks\<close>)

lemma cbc_send_iteration_locks:
  assumes "cbc_send_iteration s = Some (Inr s')" shows "orderly s s'"
proof -
  obtain out q where q: "send_queue s = out # q"
    using assms by (auto simp: cbc_send_iteration_def split: list.splits)
  let ?t = "with_lock SEND_LOCK (\<lambda>s. s\<lparr>send_queue := arrdel (send_queue s) 0\<rparr>) s"
  obtain bs n m where m: "cbc_msg_serialize (out_message out) (mem ?t) = Inr (bs, n, m)"
    using assms q by (auto simp: cbc_send_iteration_def Let_def)
  obtain r u where u: "c_rand (?t\<lparr>mem := m\<rparr>) = (r, u)" by (cases "c_rand (?t\<lparr>mem := m\<rparr>)")
  obtain msg v where v: "send_by_kind (sim_drops r) bs n out u = Inr (msg, v)" "lock_trace s' = lock_trace v"
    using assms q m u by (auto simp: cbc_send_iteration_def Let_def)
  have "orderly s u" by (rule section_orderly [of _ _ SEND_LOCK]) (use u in \<open>auto simp: c_rand_def with_lock_def\<close>)
  moreover have "orderly u s'" using send_by_kind_locks [OF v(1)] by (simp add: locking_def v(2))
  ultimately show ?thesis by (rule locking_trans)
qed

lemma cbc_collect_statistics_locks:
  assumes "cbc_collect_statistics J s = Inr (j, s')" shows "orderly s s'"
proof -
  have "lock_trace s' = lock_trace s @ [Lock SEND_LOCK, Unlock SEND_LOCK, Lock RECV_LOCK, Unlock RECV_LOCK,
      Lock VCLOCK_MTX, Unlock VCLOCK_MTX, Lock STATS_LOCK, Unlock STATS_LOCK]"
    using assms by (auto simp: cbc_collect_statistics_def Let_def split: prod.splits)
  then show ?thesis by (simp add: locking_def)
qed

section \<open>Every operation\<close>

lemma cbc_step_locks: "cbc_step s s' \<Longrightarrow> orderly s s'"
  by (induction rule: cbc_step.induct)
    (auto intro: cbc_send_locks cbc_receive_locks cbc_send_iteration_locks cbc_recv_iteration_locks peer_locks)

text \<open>
  C13: Every call and every round of a thread, on any state and with any failures, and every
  collection of statistics, appends to the mutex history a sequence in which each mutex is taken
  only while every mutex held comes before it in the order send, receive, peers, vector clock,
  statistics (so no mutex is locked twice), only held mutexes are released, and none is held at
  the end, on the early returns as well.
\<close>

theorem lock_discipline:
  assumes "cbc_step s s' \<or> (\<exists>J :: json cjson. \<exists>j. cbc_collect_statistics J s = Inr (j, s'))"
  shows "\<exists>es. lock_trace s' = lock_trace s @ es \<and> run_locks {} es = Some {}"
proof -
  have "orderly s s'" using assms cbc_step_locks cbc_collect_statistics_locks by (elim disjE exE) simp_all
  then show ?thesis by (simp only: locking_def)
qed

theorem lock_discipline_witness:
  "\<exists>s'. cbc_step (initial_node 0 5 [worker_peer 1]) s' \<and> (\<exists>es. lock_trace s' = lock_trace (initial_node 0 5 [worker_peer 1]) @ es
     \<and> run_locks {} es = Some {})"
proof -
  let ?s = "initial_node 0 5 [worker_peer 1]"
  have "cbc_step ?s (cbc_remove_peer 1 ?s)" by (rule step_remove_peer)
  with lock_discipline [of ?s "cbc_remove_peer 1 ?s"] show ?thesis by blast
qed

section \<open>Threads\<close>

text \<open>
  The mutex events of a thread that makes any calls and rounds one after the other, each on a
  state that the other threads may have changed meanwhile.
\<close>

inductive thread_events :: "lock_event list \<Rightarrow> bool" where
  thread_idle: "thread_events []"
| thread_call: "thread_events es \<Longrightarrow> cbc_step s s' \<Longrightarrow> lock_trace s' = lock_trace s @ fs \<Longrightarrow>
     thread_events (es @ fs)"
| thread_collect: "thread_events es \<Longrightarrow> cbc_collect_statistics (J :: json cjson) s = Inr (j, s') \<Longrightarrow>
     lock_trace s' = lock_trace s @ fs \<Longrightarrow> thread_events (es @ fs)"

lemma thread_events_run: "thread_events es \<Longrightarrow> run_locks {} es = Some {}"
proof (induction rule: thread_events.induct)
  case (thread_call es s s' fs)
  then show ?case using cbc_step_locks [of s s'] by (simp add: locking_def run_locks_append)
next
  case (thread_collect es J s j s' fs)
  then show ?case using cbc_collect_statistics_locks [of J s j s'] by (simp add: locking_def run_locks_append)
qed simp

text \<open>
  Threads with the mutexes they hold and the events they have left. A mutex that is held, by
  whichever thread, cannot be taken.
\<close>

type_synonym lock_threads = "(lock set \<times> lock_event list) list"

definition held_locks :: "lock_threads \<Rightarrow> lock set" where
  "held_locks ts = (\<Union>t \<in> set ts. fst t)"

inductive lock_step :: "lock_threads \<Rightarrow> lock_threads \<Rightarrow> bool" where
  acquire: "i < length ts \<Longrightarrow> ts ! i = (H, Lock l # es) \<Longrightarrow> l \<notin> held_locks ts \<Longrightarrow>
     lock_step ts (ts[i := (insert l H, es)])"
| release: "i < length ts \<Longrightarrow> ts ! i = (H, Unlock l # es) \<Longrightarrow> lock_step ts (ts[i := (H - {l}, es)])"

inductive lock_reach :: "lock_threads \<Rightarrow> lock_threads \<Rightarrow> bool" where
  lock_refl: "lock_reach ts ts"
| lock_more: "lock_reach ts us \<Longrightarrow> lock_step us vs \<Longrightarrow> lock_reach ts vs"

text \<open>Every thread can end with nothing held, and no mutex is held twice.\<close>

definition threads_ok :: "lock_threads \<Rightarrow> bool" where
  "threads_ok ts \<longleftrightarrow> (\<forall>t \<in> set ts. run_locks (fst t) (snd t) = Some {})
     \<and> (\<forall>i < length ts. \<forall>j < length ts. i \<noteq> j \<longrightarrow> fst (ts ! i) \<inter> fst (ts ! j) = {})"

definition events_left :: "lock_threads \<Rightarrow> nat" where
  "events_left ts = sum_list (map (\<lambda>t. length (snd t)) ts)"

lemma held_locks_nth: "i < length ts \<Longrightarrow> fst (ts ! i) \<subseteq> held_locks ts"
  unfolding held_locks_def by (rule UN_upper) simp

lemma threads_ok_nth: "threads_ok ts \<Longrightarrow> i < length ts \<Longrightarrow> ts ! i = (H, es) \<Longrightarrow> run_locks H es = Some {}"
  using nth_mem by (fastforce simp: threads_ok_def)

lemma threads_ok_update:
  assumes "threads_ok ts" "i < length ts" "run_locks H es = Some {}"
    "\<forall>j < length ts. i \<noteq> j \<longrightarrow> H \<inter> fst (ts ! j) = {}"
  shows "threads_ok (ts[i := (H, es)])"
  unfolding threads_ok_def
proof (intro conjI allI impI ballI)
  fix t assume "t \<in> set (ts[i := (H, es)])"
  then have "t = (H, es) \<or> t \<in> set ts" using set_update_subset_insert by fastforce
  then show "run_locks (fst t) (snd t) = Some {}" using assms(1,3) by (auto simp: threads_ok_def)
next
  fix j k assume jk: "j < length (ts[i := (H, es)])" "k < length (ts[i := (H, es)])" "j \<noteq> k"
  then have old: "fst (ts ! j) \<inter> fst (ts ! k) = {}" using assms(1) by (simp add: threads_ok_def)
  consider "j = i" | "k = i" | "j \<noteq> i" "k \<noteq> i" by blast
  then show "fst (ts[i := (H, es)] ! j) \<inter> fst (ts[i := (H, es)] ! k) = {}"
  proof cases
    case 1
    then show ?thesis using assms(2,4) jk by simp
  next
    case 2
    then have "H \<inter> fst (ts ! j) = {}" using assms(4) jk by simp
    then show ?thesis using assms(2) jk 2 by (simp add: Int_commute)
  qed (use old in simp)
qed

lemma lock_step_ok:
  assumes "lock_step ts us" "threads_ok ts" shows "threads_ok us"
  using assms
proof (induction rule: lock_step.induct)
  case (acquire i ts H l es)
  have "run_locks (insert l H) es = Some {}"
    using threads_ok_nth [OF acquire(4,1,2)] by (simp split: if_splits)
  moreover have "insert l H \<inter> fst (ts ! j) = {}" if "j < length ts" "i \<noteq> j" for j
  proof -
    have "fst (ts ! i) \<inter> fst (ts ! j) = {}" using acquire(1,4) that by (simp add: threads_ok_def)
    then show ?thesis using acquire(2,3) held_locks_nth [OF that(1)] by auto
  qed
  ultimately show ?case using threads_ok_update [OF acquire(4,1)] by blast
next
  case (release i ts H l es)
  have "run_locks (H - {l}) es = Some {}"
    using threads_ok_nth [OF release(3,1,2)] by (simp split: if_splits)
  moreover have "(H - {l}) \<inter> fst (ts ! j) = {}" if "j < length ts" "i \<noteq> j" for j
  proof -
    have "fst (ts ! i) \<inter> fst (ts ! j) = {}" using release(1,3) that by (simp add: threads_ok_def)
    then show ?thesis using release(2) by auto
  qed
  ultimately show ?case using threads_ok_update [OF release(3,1)] by blast
qed

lemma lock_reach_ok: "lock_reach ts us \<Longrightarrow> threads_ok ts \<Longrightarrow> threads_ok us"
  by (induction rule: lock_reach.induct) (auto intro: lock_step_ok)

lemma events_left_update:
  "i < length ts \<Longrightarrow> snd (ts ! i) = e # es \<Longrightarrow> Suc (events_left (ts[i := (H, es)])) = events_left ts"
  by (induction ts arbitrary: i) (auto simp: events_left_def nth_Cons split: nat.splits)

lemma lock_step_left: "lock_step ts us \<Longrightarrow> Suc (events_left us) = events_left ts"
  by (induction rule: lock_step.induct) (auto intro: events_left_update)

text \<open>The thread that holds the last mutex in the order, or any thread when none is held, can go on.\<close>

lemma threads_progress:
  assumes ok: "threads_ok ts" and stuck: "\<nexists>us. lock_step ts us"
  shows "\<forall>t \<in> set ts. t = ({}, [])"
proof -
  have next_lock: "\<exists>l es. snd (ts ! i) = Lock l # es \<and> (\<forall>h \<in> fst (ts ! i). h < l) \<and> l \<in> held_locks ts"
    if i: "i < length ts" "snd (ts ! i) \<noteq> []" for i
  proof -
    obtain e es H where e: "ts ! i = (H, e # es)" using i(2) by (cases "ts ! i") (auto simp: neq_Nil_conv)
    show ?thesis
    proof (cases e)
      case (Lock l)
      with e i stuck have "l \<in> held_locks ts" by (meson lock_step.acquire)
      with threads_ok_nth [OF ok i(1) e] Lock e show ?thesis by (auto split: if_splits)
    qed (use e i stuck lock_step.release in blast)
  qed
  have none: "held_locks ts = {}"
  proof (rule ccontr)
    assume ne: "held_locks ts \<noteq> {}"
    then have "Max (held_locks ts) \<in> held_locks ts" using finite_locks by (rule Max_in [rotated])
    then obtain i where i: "i < length ts" "Max (held_locks ts) \<in> fst (ts ! i)"
      by (auto simp: held_locks_def in_set_conv_nth)
    have "snd (ts ! i) \<noteq> []"
      using threads_ok_nth [OF ok i(1), of "fst (ts ! i)" "snd (ts ! i)"] i(2) by auto
    from next_lock [OF i(1) this] i(2) obtain l where "Max (held_locks ts) < l" "l \<in> held_locks ts" by blast
    then show False using Max_ge [OF finite_locks] by (meson leD)
  qed
  show ?thesis
  proof
    fix t assume "t \<in> set ts"
    then obtain i where i: "i < length ts" "ts ! i = t" by (auto simp: in_set_conv_nth)
    then have "snd t = []" using next_lock none by fastforce
    moreover have "fst t = {}" using held_locks_nth [OF i(1)] i(2) none by simp
    ultimately show "t = ({}, [])" by (cases t) simp
  qed
qed

lemma threads_finish: "threads_ok ts \<Longrightarrow> \<exists>us. lock_reach ts us \<and> (\<forall>t \<in> set us. t = ({}, []))"
proof (induction "events_left ts" arbitrary: ts)
  case 0
  then have "\<nexists>us. lock_step ts us" using lock_step_left by fastforce
  with threads_progress 0 show ?case by (blast intro: lock_refl)
next
  case (Suc n)
  show ?case
  proof (cases "\<exists>us. lock_step ts us")
    case True
    then obtain us where us: "lock_step ts us" ..
    then have "n = events_left us" using lock_step_left Suc(2) by fastforce
    from Suc(1) [OF this lock_step_ok [OF us Suc(3)]] obtain vs where
      vs: "lock_reach us vs" "\<forall>t \<in> set vs. t = ({}, [])" by blast
    have "lock_reach ts vs"
      using vs(1) us by (induction rule: lock_reach.induct) (auto intro: lock_reach.intros)
    with vs(2) show ?thesis by blast
  qed (use threads_progress Suc(3) in \<open>blast intro: lock_refl\<close>)
qed

text \<open>
  C12: The mutexes of a context never deadlock. Let any number of threads, the two of the library
  and those of the application, each make any sequence of calls and rounds. In every state they
  reach, however they are interleaved, no mutex is held by two threads, and either all threads
  have finished and hold nothing, or one of them can go on; each such step is progress, so every
  execution ends with all threads finished.
\<close>

theorem no_deadlock:
  assumes "\<forall>t \<in> set ts. fst t = {} \<and> thread_events (snd t)" and "lock_reach ts us"
  shows "(\<forall>i < length us. \<forall>j < length us. i \<noteq> j \<longrightarrow> fst (us ! i) \<inter> fst (us ! j) = {})
    \<and> ((\<forall>u \<in> set us. u = ({}, [])) \<or> (\<exists>vs. lock_step us vs))
    \<and> (\<forall>vs. lock_step us vs \<longrightarrow> Suc (events_left vs) = events_left us)
    \<and> (\<exists>vs. lock_reach us vs \<and> (\<forall>v \<in> set vs. v = ({}, [])))"
proof -
  have "threads_ok ts" using assms(1) thread_events_run by (auto simp: threads_ok_def)
  then have ok: "threads_ok us" using assms(2) lock_reach_ok by blast
  with threads_progress [OF ok] threads_finish [OF ok] lock_step_left show ?thesis
    unfolding threads_ok_def by blast
qed

text \<open>Two threads remove a peer; the first is in its critical section.\<close>

theorem no_deadlock_witness:
  "\<exists>us. lock_reach (replicate 2 ({}, [Lock PEER_LOCK, Unlock PEER_LOCK])) us
     \<and> held_locks us = {PEER_LOCK} \<and> (\<exists>vs. lock_reach us vs \<and> set vs \<subseteq> {({}, [])})"
proof -
  let ?es = "[Lock PEER_LOCK, Unlock PEER_LOCK]"
  let ?ts = "[({}, ?es), ({}, ?es)] :: lock_threads"
  let ?us = "[({PEER_LOCK}, [Unlock PEER_LOCK]), ({}, ?es)] :: lock_threads"
  let ?s = "initial_node 0 5 [worker_peer 1]"
  have "thread_events ([] @ ?es)"
    by (rule thread_call [OF thread_idle step_remove_peer [of ?s 1]])
      (simp add: cbc_remove_peer_def with_lock_def worker_peer_def new_node_def)
  then have ev: "\<forall>t \<in> set ?ts. fst t = {} \<and> thread_events (snd t)" by simp
  have "lock_step ?ts (?ts[0 := (insert PEER_LOCK {}, [Unlock PEER_LOCK])])"
    by (rule acquire) (simp_all add: held_locks_def)
  then have reach: "lock_reach ?ts ?us" by (auto intro: lock_refl lock_more)
  have "replicate 2 ({} :: lock set, ?es) = ?ts" by (simp add: eval_nat_numeral)
  moreover have "held_locks ?us = {PEER_LOCK}" by (simp add: held_locks_def)
  moreover have "\<exists>vs. lock_reach ?us vs \<and> set vs \<subseteq> {({}, [])}" using no_deadlock [OF ev reach] by fastforce
  ultimately show ?thesis using reach by metis
qed

end
