(* ===== verification/HashFun.thy ===== *)
theory HashFun
  imports Prelude
begin

text \<open>
  The hash functions of \<open>include/lib/stb_ds.h\<close> on a 64-bit host: \<open>stbds_hash_string\<close>,
  \<open>stbds_hash_bytes\<close> with its special cases for 4 and 8 bytes, and the variant of SipHash
  with one round per word. Also the constants of the generator of table seeds and the
  logarithm kept in a table.

  A byte shifted in an \<open>int\<close> expression, as in \<open>d[3] << 24\<close>, wraps in 32 bits, and its
  conversion to \<open>size_t\<close> extends the sign, as gcc and clang compile it.
\<close>

section \<open>Rotations\<close>

definition STBDS_SIZE_T_BITS :: nat where
  "STBDS_SIZE_T_BITS = 64"

definition STBDS_ROTATE_LEFT :: "u64 \<Rightarrow> nat \<Rightarrow> u64" where
  "STBDS_ROTATE_LEFT v n = push_bit n v OR drop_bit (STBDS_SIZE_T_BITS - n) v"

definition STBDS_ROTATE_RIGHT :: "u64 \<Rightarrow> nat \<Rightarrow> u64" where
  "STBDS_ROTATE_RIGHT v n = drop_bit n v OR push_bit (STBDS_SIZE_T_BITS - n) v"

section \<open>Strings\<close>

text \<open>The loop over the characters before the terminating zero, then the mix function.\<close>

fun hash_string_loop :: "u8 list \<Rightarrow> u64 \<Rightarrow> u64" where
  "hash_string_loop [] hash = hash"
| "hash_string_loop (c # str) hash = hash_string_loop str (STBDS_ROTATE_LEFT hash 9 + ucast c)"

definition stbds_hash_string :: "u8 list \<Rightarrow> u64 \<Rightarrow> u64" where
  "stbds_hash_string str seed =
     (let hash = hash_string_loop str seed;
          hash = hash XOR seed;
          hash = NOT hash + push_bit 18 hash;
          hash = hash XOR (hash XOR STBDS_ROTATE_RIGHT hash 31);
          hash = hash * 21;
          hash = hash XOR (hash XOR STBDS_ROTATE_RIGHT hash 11);
          hash = hash + push_bit 6 hash;
          hash = hash XOR STBDS_ROTATE_RIGHT hash 22
      in hash + seed)"

section \<open>Bytes\<close>

text \<open>\<open>d[0] | (d[1] << 8) | (d[2] << 16) | (d[3] << 24)\<close> as a 32-bit pattern.\<close>

definition load_int :: "u8 list \<Rightarrow> u32" where
  "load_int d = ucast (d ! 0) OR push_bit 8 (ucast (d ! 1)) OR push_bit 16 (ucast (d ! 2))
     OR push_bit 24 (ucast (d ! 3))"

text \<open>Eight bytes: both halves are ints, so each is sign-extended.\<close>

definition load_size_t :: "u8 list \<Rightarrow> u64" where
  "load_size_t d = scast (load_int d) OR push_bit 16 (push_bit 16 (scast (load_int (drop 4 d))))"

text \<open>\<open>STBDS_SIPROUND\<close>\<close>

definition siphash_round :: "u64 \<times> u64 \<times> u64 \<times> u64 \<Rightarrow> u64 \<times> u64 \<times> u64 \<times> u64" where
  "siphash_round = (\<lambda>(v0, v1, v2, v3).
     let v0 = v0 + v1; v1 = STBDS_ROTATE_LEFT v1 13; v1 = v1 XOR v0; v0 = STBDS_ROTATE_LEFT v0 (STBDS_SIZE_T_BITS div 2);
         v2 = v2 + v3; v3 = STBDS_ROTATE_LEFT v3 16; v3 = v3 XOR v2;
         v2 = v2 + v1; v1 = STBDS_ROTATE_LEFT v1 17; v1 = v1 XOR v2; v2 = STBDS_ROTATE_LEFT v2 (STBDS_SIZE_T_BITS div 2);
         v0 = v0 + v3; v3 = STBDS_ROTATE_LEFT v3 21; v3 = v3 XOR v0
     in (v0, v1, v2, v3))"

text \<open>A word goes into the state before and after the \<open>STBDS_SIPHASH_C_ROUNDS\<close>, which is 1.\<close>

definition siphash_word :: "u64 \<Rightarrow> u64 \<times> u64 \<times> u64 \<times> u64 \<Rightarrow> u64 \<times> u64 \<times> u64 \<times> u64" where
  "siphash_word data = (\<lambda>(v0, v1, v2, v3).
     let (v0, v1, v2, v3) = siphash_round (v0, v1, v2, v3 XOR data)
     in (v0 XOR data, v1, v2, v3))"

text \<open>The loop over whole words; what is left are fewer than 8 bytes.\<close>

fun siphash_words :: "u8 list \<Rightarrow> u64 \<times> u64 \<times> u64 \<times> u64 \<Rightarrow> (u64 \<times> u64 \<times> u64 \<times> u64) \<times> u8 list" where
  "siphash_words d v =
     (if 8 \<le> length d then siphash_words (drop 8 d) (siphash_word (load_size_t d) v) else (v, d))"

declare siphash_words.simps [simp del]

text \<open>The \<open>switch\<close> over the rest of \<open>r\<close> bytes, every case falling through to the next.\<close>

definition siphash_tail :: "nat \<Rightarrow> u8 list \<Rightarrow> u64" where
  "siphash_tail n d =
     (let r = length d;
          data = push_bit (STBDS_SIZE_T_BITS - 8) (of_nat n);
          data = (if 7 \<le> r then data OR push_bit 24 (push_bit 24 (ucast (d ! 6))) else data);
          data = (if 6 \<le> r then data OR push_bit 20 (push_bit 20 (ucast (d ! 5))) else data);
          data = (if 5 \<le> r then data OR push_bit 16 (push_bit 16 (ucast (d ! 4))) else data);
          data = (if 4 \<le> r then data OR scast (push_bit 24 (ucast (d ! 3)) :: u32) else data);
          data = (if 3 \<le> r then data OR push_bit 16 (ucast (d ! 2)) else data);
          data = (if 2 \<le> r then data OR push_bit 8 (ucast (d ! 1)) else data)
      in if 1 \<le> r then data OR ucast (d ! 0) else data)"

definition stbds_siphash_bytes :: "u8 list \<Rightarrow> u64 \<Rightarrow> u64" where
  "stbds_siphash_bytes p seed =
     (let v0 = (push_bit 16 (push_bit 16 0x736f6d65) + 0x70736575) XOR seed;
          v1 = (push_bit 16 (push_bit 16 0x646f7261) + 0x6e646f6d) XOR NOT seed;
          v2 = (push_bit 16 (push_bit 16 0x6c796765) + 0x6e657261) XOR seed;
          v3 = (push_bit 16 (push_bit 16 0x74656462) + 0x79746573) XOR NOT seed;
          (v, d) = siphash_words p (v0, v1, v2, v3);
          (v0, v1, v2, v3) = siphash_word (siphash_tail (length p) d) v;
          (v0, v1, v2, v3) = siphash_round (v0, v1, v2 XOR 0xff, v3)
      in v1 XOR v2 XOR v3)"

text \<open>The key of 4 bytes is hashed in 32 bits; the seed is cut to them when it is mixed in.\<close>

definition hash_4_bytes :: "u32 \<Rightarrow> u64 \<Rightarrow> u64" where
  "hash_4_bytes hash seed =
     (let hash = ucast (ucast hash XOR seed) :: u32;
          hash = (hash XOR 61) XOR drop_bit 16 hash;
          hash = hash + push_bit 3 hash;
          hash = hash XOR drop_bit 4 hash;
          hash = hash * 0x27d4eb2d;
          hash = ucast (ucast hash XOR seed) :: u32;
          hash = hash XOR drop_bit 15 hash
      in (push_bit 16 (push_bit 16 (ucast hash)) OR ucast hash) XOR seed)"

definition hash_8_bytes :: "u64 \<Rightarrow> u64 \<Rightarrow> u64" where
  "hash_8_bytes hash seed =
     (let hash = hash XOR seed;
          hash = NOT hash + push_bit 21 hash;
          hash = hash XOR STBDS_ROTATE_RIGHT hash 24;
          hash = hash * 265;
          hash = hash XOR STBDS_ROTATE_RIGHT hash 14;
          hash = hash XOR seed;
          hash = hash * 21;
          hash = hash XOR STBDS_ROTATE_RIGHT hash 28;
          hash = hash + push_bit 31 hash
      in NOT hash + push_bit 18 hash)"

definition stbds_hash_bytes :: "u8 list \<Rightarrow> u64 \<Rightarrow> u64" where
  "stbds_hash_bytes p seed =
     (if length p = 4 then hash_4_bytes (load_int p) seed
      else if length p = 8 then hash_8_bytes (load_size_t p) seed
      else stbds_siphash_bytes p seed)"

section \<open>Seeds and sizes\<close>

text \<open>The macro \<open>stbds_load_32_or_64\<close> on a 64-bit host; \<open>temp\<close> is cut to its low half.\<close>

definition stbds_load_32_or_64 :: "u64 \<Rightarrow> u64 \<Rightarrow> u64 \<Rightarrow> u64" where
  "stbds_load_32_or_64 v32 v64_hi v64_lo =
     (let temp = v64_lo XOR v32;
          temp = drop_bit 16 (drop_bit 16 (push_bit 16 (push_bit 16 temp)))
      in push_bit 16 (push_bit 16 v64_hi) XOR (temp XOR v32))"

text \<open>The global seed: its first value, what \<open>stbds_rand_seed\<close> makes of it, and its next one.\<close>

definition stbds_hash_seed :: u64 where
  "stbds_hash_seed = 0x31415926"

definition stbds_rand_seed :: "u64 \<Rightarrow> u64" where
  "stbds_rand_seed seed = seed"

definition next_hash_seed :: "u64 \<Rightarrow> u64" where
  "next_hash_seed hash_seed =
     hash_seed * stbds_load_32_or_64 2147001325 0x27bb2ee6 0x87b0b0fd
       + stbds_load_32_or_64 715136305 0 0xb504f32d"

lemma next_hash_seed_lcg: "next_hash_seed s = s * 2862933555777941757 + 3037000493"
  by (simp add: next_hash_seed_def stbds_load_32_or_64_def)

function log2_loop :: "nat \<Rightarrow> nat \<Rightarrow> nat" where
  "log2_loop slot_count n = (if slot_count > 1 then log2_loop (drop_bit 1 slot_count) (Suc n) else n)"
  by pat_completeness auto
termination
  by (relation "measure fst") (simp_all add: drop_bit_eq_div)

declare log2_loop.simps [simp del]

definition stbds_log2 :: "nat \<Rightarrow> nat" where
  "stbds_log2 slot_count = log2_loop slot_count 0"

lemma log2_loop_pow: "log2_loop (2 ^ k) n = n + k"
proof (induction k arbitrary: n)
  case (Suc k)
  have "log2_loop (2 ^ Suc k) n = log2_loop (2 ^ k) (Suc n)"
    using one_less_power [of "2 :: nat" "Suc k"] by (subst log2_loop.simps) (simp add: drop_bit_eq_div)
  with Suc show ?case by simp
qed (simp add: log2_loop.simps)

lemma stbds_log2_pow: "stbds_log2 (2 ^ k) = k"
  by (simp add: stbds_log2_def log2_loop_pow)

section \<open>Sign extension\<close>

lemma bit_u8: "8 \<le> n \<Longrightarrow> \<not> bit (w :: u8) n"
  using bit_imp_le_length [of w n] by auto

lemma load_int_sign: "bit (load_int d) 31 = bit (d ! 3) 7"
  by (simp add: load_int_def bit_simps bit_u8)

lemma bit_7: "128 \<le> unat (w :: u8) \<Longrightarrow> bit w 7"
proof -
  assume a: "128 \<le> unat w"
  have "unat w < 256" using unsigned_less [where ?'b = 8 and w = w] by simp
  with a have "unat w div 128 = 1" by simp
  with a have "bit (unat w) 7" by (simp add: bit_iff_odd)
  then show "bit w 7" by (simp add: bit_unsigned_iff)
qed

text \<open>A negative first half fills the upper 32 bits, whatever the second half is.\<close>

lemma load_size_t_negative:
  assumes "bit (d ! 3) 7" shows "load_size_t d = scast (load_int d)"
proof (rule bit_word_eqI)
  fix n assume "n < LENGTH(64)"
  then show "bit (load_size_t d) n = bit (scast (load_int d) :: u64) n"
    using assms load_int_sign [of d] by (auto simp: load_size_t_def bit_simps min_def)
qed

text \<open>
  The hash of a key of 8 bytes ignores its second half when the fourth byte is 128 or more
  (the sign of the first half fills the upper 32 bits of the word that is hashed): all keys with
  the same first half collide, for every seed.
\<close>

theorem hash_bytes_ignores_half:
  assumes "length p = 8" "length q = 8" "take 4 p = take 4 q" "128 \<le> unat (p ! 3)"
  shows "stbds_hash_bytes p seed = stbds_hash_bytes q seed"
proof -
  have nth: "p ! i = q ! i" if "i < 4" for i
    using that arg_cong [OF assms(3), of "\<lambda>xs. xs ! i"] by simp
  have bit: "bit (p ! 3) 7" using assms(4) by (rule bit_7)
  have "load_int p = load_int q" using nth by (simp add: load_int_def)
  then show ?thesis
    using assms(1,2) bit nth [of 3] by (simp add: stbds_hash_bytes_def load_size_t_negative)
qed

text \<open>Two keys with different second halves, and the seed the library starts with.\<close>

theorem hash_bytes_ignores_half_witness:
  "stbds_hash_bytes [1, 2, 3, 200, 5, 6, 7, 8] 0x31415926 = stbds_hash_bytes [1, 2, 3, 200, 0, 0, 0, 0] 0x31415926"
  by (rule hash_bytes_ignores_half) simp_all

end
