(* ===== verification/HashIndex.thy ===== *)
theory HashIndex
  imports HashFun StbDs
begin

text \<open>
  The hash index of \<open>include/lib/stb_ds.h\<close>: an open-addressing table of buckets of 8 slots. A
  slot has the hash of a key and the index of its element in the array; hash 0 marks an empty
  slot and hash 1 a deleted one. A search starts at the slot given by the low bits of the hash,
  goes once around the bucket of that slot, then to the bucket 1 further on, 2 further, and so
  on. Also the arena that stores the strings of a table.

  Sizes and positions are \<open>nat\<close>; \<open>x & ~7\<close> on them is written \<open>push_bit 3 (drop_bit 3 x)\<close>.
  The search loops have no bound in the code and are \<open>partial_function (option)\<close> here: that
  they return is a theorem about tables with an empty slot.
\<close>

section \<open>Structures\<close>

definition STBDS_BUCKET_LENGTH :: nat where
  "STBDS_BUCKET_LENGTH = 8"

definition STBDS_BUCKET_SHIFT :: nat where
  "STBDS_BUCKET_SHIFT = 3"

definition STBDS_BUCKET_MASK :: nat where
  "STBDS_BUCKET_MASK = STBDS_BUCKET_LENGTH - 1"

definition STBDS_INDEX_EMPTY :: int where
  "STBDS_INDEX_EMPTY = -1"

definition STBDS_INDEX_DELETED :: int where
  "STBDS_INDEX_DELETED = -2"

definition STBDS_INDEX_IN_USE :: "int \<Rightarrow> bool" where
  "STBDS_INDEX_IN_USE x \<longleftrightarrow> x \<ge> 0"

definition STBDS_HASH_EMPTY :: u64 where
  "STBDS_HASH_EMPTY = 0"

definition STBDS_HASH_DELETED :: u64 where
  "STBDS_HASH_DELETED = 1"

lemmas stbds_constants = STBDS_BUCKET_LENGTH_def STBDS_BUCKET_SHIFT_def STBDS_BUCKET_MASK_def
  STBDS_INDEX_EMPTY_def STBDS_INDEX_DELETED_def STBDS_INDEX_IN_USE_def STBDS_HASH_EMPTY_def STBDS_HASH_DELETED_def

record stbds_hash_bucket =
  bucket_hash :: "u64 list"
  bucket_index :: "int list"

datatype string_mode = STBDS_SH_NONE | STBDS_SH_DEFAULT | STBDS_SH_STRDUP | STBDS_SH_ARENA

text \<open>
  The blocks of an arena in the order of the list \<open>storage\<close>, each with an identity (its
  address) and its bytes.
\<close>

record stbds_string_arena =
  arena_storage :: "(nat \<times> u8 list) list"
  remaining :: nat
  block :: u8
  string_mode :: string_mode

text \<open>\<open>temp_key\<close> is \<open>None\<close> as long as it is not initialised.\<close>

record stbds_hash_index =
  temp_key :: "u8 list option"
  slot_count :: nat
  used_count :: nat
  used_count_threshold :: nat
  used_count_shrink_threshold :: nat
  tombstone_count :: nat
  tombstone_count_threshold :: nat
  hi_seed :: u64
  slot_count_log2 :: nat
  hi_string :: stbds_string_arena
  storage :: "stbds_hash_bucket list"

section \<open>Access to the slots\<close>

definition stbds_probe_position :: "u64 \<Rightarrow> nat \<Rightarrow> nat \<Rightarrow> nat" where
  "stbds_probe_position hash n log2 = unat (hash AND of_nat (n - 1))"

definition bucket_of :: "nat \<Rightarrow> stbds_hash_index \<Rightarrow> stbds_hash_bucket" where
  "bucket_of pos t = storage t ! drop_bit STBDS_BUCKET_SHIFT pos"

definition write_slot :: "nat \<Rightarrow> u64 \<Rightarrow> int \<Rightarrow> stbds_hash_index \<Rightarrow> stbds_hash_index" where
  "write_slot pos hash index t =
     (let i = drop_bit STBDS_BUCKET_SHIFT pos; z = pos AND STBDS_BUCKET_MASK; b = storage t ! i in
      t\<lparr>storage := (storage t)[i := b\<lparr>bucket_hash := (bucket_hash b)[z := hash],
                                     bucket_index := (bucket_index b)[z := index]\<rparr>]\<rparr>)"

text \<open>The first slot of the bucket of a position.\<close>

definition bucket_base :: "nat \<Rightarrow> nat" where
  "bucket_base pos = push_bit STBDS_BUCKET_SHIFT (drop_bit STBDS_BUCKET_SHIFT pos)"

text \<open>The two inner loops of every search: from the position to the end of the bucket, and
  from the start of the bucket to the position.\<close>

definition first_part :: "nat \<Rightarrow> nat list" where
  "first_part pos = [pos AND STBDS_BUCKET_MASK..<STBDS_BUCKET_LENGTH]"

definition second_part :: "nat \<Rightarrow> nat list" where
  "second_part pos = [0..<pos AND STBDS_BUCKET_MASK]"

definition next_pos :: "stbds_hash_index \<Rightarrow> nat \<Rightarrow> nat \<Rightarrow> nat" where
  "next_pos t pos step = (pos + step) AND (slot_count t - 1)"

section \<open>Finding a slot\<close>

datatype scan = Hit nat | Vacant nat | Go_on

text \<open>One inner loop of \<open>stbds_hm_find_slot\<close>; \<open>eq\<close> is \<open>stbds_is_key_equal\<close> for the key.\<close>

fun find_scan :: "u64 \<Rightarrow> (int \<Rightarrow> bool res) \<Rightarrow> stbds_hash_bucket \<Rightarrow> nat list \<Rightarrow> scan res" where
  "find_scan hash eq b [] = Inr Go_on"
| "find_scan hash eq b (i # is) =
     (if bucket_hash b ! i = hash
      then andthen (eq (bucket_index b ! i)) (\<lambda>e. if e then Inr (Hit i) else find_scan hash eq b is)
      else if bucket_hash b ! i = STBDS_HASH_EMPTY then Inr (Vacant i)
      else find_scan hash eq b is)"

partial_function (option) find_loop ::
  "u64 \<Rightarrow> (int \<Rightarrow> bool res) \<Rightarrow> stbds_hash_index \<Rightarrow> nat \<Rightarrow> nat \<Rightarrow> int res option" where
  "find_loop hash eq t pos step =
     (case andthen (find_scan hash eq (bucket_of pos t) (first_part pos)) (\<lambda>r.
           if r = Go_on then find_scan hash eq (bucket_of pos t) (second_part pos) else Inr r)
      of Inl e \<Rightarrow> Some (Inl e)
       | Inr r \<Rightarrow>
           (case r of
              Hit i \<Rightarrow> Some (Inr (int (bucket_base pos + i)))
            | Vacant i \<Rightarrow> Some (Inr (-1))
            | Go_on \<Rightarrow> find_loop hash eq t (next_pos t pos step) (step + STBDS_BUCKET_LENGTH)))"

declare find_loop.simps [code]

section \<open>Building an index\<close>

text \<open>One inner loop of the copying: the first empty slot among the given ones.\<close>

fun empty_scan :: "stbds_hash_bucket \<Rightarrow> nat list \<Rightarrow> nat option" where
  "empty_scan b [] = None"
| "empty_scan b (z # zs) = (if bucket_hash b ! z = 0 then Some z else empty_scan b zs)"

partial_function (option) rehash_loop :: "stbds_hash_index \<Rightarrow> nat \<Rightarrow> nat \<Rightarrow> nat option" where
  "rehash_loop t pos step =
     (case empty_scan (bucket_of pos t) (first_part pos) of
        Some z \<Rightarrow> Some (bucket_base pos + z)
      | None \<Rightarrow>
          (case empty_scan (bucket_of pos t) (second_part pos) of
             Some z \<Rightarrow> Some (bucket_base pos + z)
           | None \<Rightarrow> rehash_loop t (next_pos t pos step) (step + STBDS_BUCKET_LENGTH)))"

declare rehash_loop.simps [code]

text \<open>A slot of the old table, if it is in use, gets a slot of the new one.\<close>

definition rehash_slot :: "u64 \<Rightarrow> int \<Rightarrow> stbds_hash_index \<Rightarrow> stbds_hash_index option" where
  "rehash_slot hash index t =
     (if STBDS_INDEX_IN_USE index
      then map_option (\<lambda>pos. write_slot pos hash index t)
             (rehash_loop t (stbds_probe_position hash (slot_count t) (slot_count_log2 t)) STBDS_BUCKET_LENGTH)
      else Some t)"

fun rehash_slots :: "(u64 \<times> int) list \<Rightarrow> stbds_hash_index \<Rightarrow> stbds_hash_index option" where
  "rehash_slots [] t = Some t"
| "rehash_slots ((hash, index) # olds) t = Option.bind (rehash_slot hash index t) (rehash_slots olds)"

text \<open>The slots of a table in the order of the two loops over it.\<close>

definition all_slots :: "stbds_hash_index \<Rightarrow> (u64 \<times> int) list" where
  "all_slots t = concat (map (\<lambda>b. zip (bucket_hash b) (bucket_index b)) (storage t))"

definition empty_bucket :: stbds_hash_bucket where
  "empty_bucket = \<lparr>bucket_hash = replicate STBDS_BUCKET_LENGTH STBDS_HASH_EMPTY,
     bucket_index = replicate STBDS_BUCKET_LENGTH STBDS_INDEX_EMPTY\<rparr>"

definition no_strings :: stbds_string_arena where
  "no_strings = \<lparr>arena_storage = [], remaining = 0, block = 0, string_mode = STBDS_SH_NONE\<rparr>"

text \<open>
  \<open>ot\<close> is the table to copy, or NULL; \<open>hash_seed\<close> is the global variable
  \<open>stbds_hash_seed\<close>, returned with its new value.
\<close>

definition fresh_index :: "nat \<Rightarrow> u64 \<Rightarrow> stbds_string_arena \<Rightarrow> stbds_hash_index" where
  "fresh_index n sd strings =
     \<lparr>temp_key = None, slot_count = n, used_count = 0,
      used_count_threshold = n - drop_bit 2 n,
      used_count_shrink_threshold = (if n \<le> STBDS_BUCKET_LENGTH then 0 else drop_bit 2 n),
      tombstone_count = 0,
      tombstone_count_threshold = drop_bit 3 n + drop_bit 4 n,
      hi_seed = sd, slot_count_log2 = stbds_log2 n, hi_string = strings,
      storage = replicate (drop_bit STBDS_BUCKET_SHIFT n) empty_bucket\<rparr>"

definition stbds_make_hash_index ::
  "nat \<Rightarrow> stbds_hash_index option \<Rightarrow> u64 \<Rightarrow> (stbds_hash_index \<times> u64) option" where
  "stbds_make_hash_index n ot hash_seed =
     (case ot of
        None \<Rightarrow> Some (fresh_index n hash_seed no_strings, next_hash_seed hash_seed)
      | Some ot \<Rightarrow>
          map_option (\<lambda>t. (t, hash_seed))
            (rehash_slots (all_slots ot) ((fresh_index n (hi_seed ot) (hi_string ot))\<lparr>used_count := used_count ot\<rparr>)))"

section \<open>Finding a slot to put into\<close>

datatype put_step = Put_hit int | Put_vacant nat int | Put_go_on int

text \<open>One inner loop of \<open>stbds_hmput_key\<close>, which remembers the first deleted slot.\<close>

fun put_scan ::
  "u64 \<Rightarrow> (int \<Rightarrow> bool res) \<Rightarrow> stbds_hash_bucket \<Rightarrow> nat \<Rightarrow> nat list \<Rightarrow> int \<Rightarrow> put_step res" where
  "put_scan hash eq b base [] tombstone = Inr (Put_go_on tombstone)"
| "put_scan hash eq b base (i # is) tombstone =
     (if bucket_hash b ! i = hash
      then andthen (eq (bucket_index b ! i)) (\<lambda>e.
           if e then Inr (Put_hit (bucket_index b ! i)) else put_scan hash eq b base is tombstone)
      else if bucket_hash b ! i = 0 then
        Inr (Put_vacant (base + i) tombstone)
      else put_scan hash eq b base is
             (if tombstone < 0 \<and> bucket_index b ! i = STBDS_INDEX_DELETED then int (base + i) else tombstone))"

text \<open>
  The search: the key is present, with the index of its element, and was found in the first
  inner loop or in the second; or it is absent, with the empty slot and the deleted slot seen
  before, or -1.
\<close>

datatype put_result = Present int bool | Absent nat int

definition put_outcome :: "bool \<Rightarrow> put_step \<Rightarrow> put_result + int" where
  "put_outcome first r =
     (case r of Put_hit i \<Rightarrow> Inl (Present i first) | Put_vacant pos tombstone \<Rightarrow> Inl (Absent pos tombstone)
      | Put_go_on tombstone \<Rightarrow> Inr tombstone)"

partial_function (option) put_loop ::
  "u64 \<Rightarrow> (int \<Rightarrow> bool res) \<Rightarrow> stbds_hash_index \<Rightarrow> nat \<Rightarrow> nat \<Rightarrow> int \<Rightarrow> put_result res option" where
  "put_loop hash eq t pos step tombstone =
     (case andthen (put_scan hash eq (bucket_of pos t) (bucket_base pos) (first_part pos) tombstone) (\<lambda>r.
           case put_outcome True r of
             Inl p \<Rightarrow> Inr (Inl p)
           | Inr tombstone \<Rightarrow>
               andthen (put_scan hash eq (bucket_of pos t) (bucket_base pos) (second_part pos) tombstone) (\<lambda>r.
               Inr (put_outcome False r)))
      of Inl e \<Rightarrow> Some (Inl e)
       | Inr r \<Rightarrow>
           (case r of
              Inl p \<Rightarrow> Some (Inr p)
            | Inr tombstone \<Rightarrow> put_loop hash eq t (next_pos t pos step) (step + STBDS_BUCKET_LENGTH) tombstone))"

declare put_loop.simps [code]

section \<open>Strings of a table\<close>

definition STBDS_STRING_ARENA_BLOCKSIZE_MIN :: nat where
  "STBDS_STRING_ARENA_BLOCKSIZE_MIN = 512"

definition STBDS_STRING_ARENA_BLOCKSIZE_MAX :: nat where
  "STBDS_STRING_ARENA_BLOCKSIZE_MAX = push_bit 20 1"

text \<open>\<open>str\<close> are the characters before the terminating zero; \<open>junk\<close> fills a new block.\<close>

definition new_string_block :: "u8 \<Rightarrow> nat \<Rightarrow> stbds_string_arena \<Rightarrow> nat \<times> u8 list" where
  "new_string_block junk n a = (length (arena_storage a), replicate n junk)"

text \<open>The last part: the string goes to the end of what remains of the first block.\<close>

definition carve :: "u8 list \<Rightarrow> stbds_string_arena \<Rightarrow> (nat \<times> nat) \<times> stbds_string_arena" where
  "carve bytes a =
     (let (b, old) = hd (arena_storage a); p = remaining a - length bytes in
      ((b, p), a\<lparr>remaining := p,
         arena_storage := (b, take p old @ bytes @ drop (p + length bytes) old) # tl (arena_storage a)\<rparr>))"

definition stbds_stralloc :: "u8 \<Rightarrow> u8 list \<Rightarrow> stbds_string_arena \<Rightarrow> (nat \<times> nat) \<times> stbds_string_arena" where
  "stbds_stralloc junk str a =
     (let bytes = str @ [0] in
      if length bytes > remaining a then
        let blocksize = push_bit (unat (drop_bit 1 (block a))) STBDS_STRING_ARENA_BLOCKSIZE_MIN;
            a = (if blocksize < STBDS_STRING_ARENA_BLOCKSIZE_MAX then a\<lparr>block := block a + 1\<rparr> else a)
        in if length bytes > blocksize then
             let sb = (length (arena_storage a), bytes) in
             ((fst sb, 0),
              case arena_storage a of
                b # bs \<Rightarrow> a\<lparr>arena_storage := b # sb # bs\<rparr>
              | [] \<Rightarrow> a\<lparr>arena_storage := [sb], remaining := 0\<rparr>)
           else
             let sb = new_string_block junk blocksize a in
             carve bytes (a\<lparr>arena_storage := sb # arena_storage a, remaining := blocksize\<rparr>)
      else carve bytes a)"

text \<open>The number of blocks freed, and the zeroed arena.\<close>

definition stbds_strreset :: "stbds_string_arena \<Rightarrow> nat \<times> stbds_string_arena" where
  "stbds_strreset a = (length (arena_storage a), no_strings)"

end
