(* ===== verification/HashMap.thy ===== *)
theory HashMap
  imports HashIndex
begin

text \<open>
  The hash maps of \<open>include/lib/stb_ds.h\<close>: an array of elements, of which the one before the
  first is the default element, and a hash index over their keys.

  A map is NULL (\<open>None\<close>) or an \<open>hm_array\<close>; \<open>elems\<close> is the array with the default element in
  front, so the element with index i of the index is at position i + 1. Keys are the bytes
  compared by \<open>memcmp\<close>, or the characters of a string before its zero: two strings are the
  same key iff they have the same characters, and a string the caller owns is taken not to
  change. Arrays are lists (\<open>StbDs\<close>), and \<open>realloc\<close> succeeds.
\<close>

section \<open>Maps\<close>

datatype hm_mode = STBDS_HM_BINARY | STBDS_HM_STRING

record 'v hm_elem =
  hm_key :: "u8 list"
  hm_value :: 'v

record 'v hm_array =
  elems :: "'v hm_elem list"
  hash_table :: "stbds_hash_index option"
  temp :: int

type_synonym 'v hmap = "'v hm_array option"

text \<open>The value made of zero bytes, and what fresh memory holds.\<close>

record 'v hm_env =
  zero_value :: 'v
  junk_value :: 'v
  junk_byte :: u8

text \<open>Calls that can run forever or fail.\<close>

definition othen :: "'a res option \<Rightarrow> ('a \<Rightarrow> 'b res option) \<Rightarrow> 'b res option" where
  "othen r f = (case r of None \<Rightarrow> None | Some (Inl e) \<Rightarrow> Some (Inl e) | Some (Inr x) \<Rightarrow> f x)"

text \<open>A new array with the default element, all bytes 0; its key is never read.\<close>

definition new_hm_array :: "'v hm_env \<Rightarrow> 'v hm_array" where
  "new_hm_array E = \<lparr>elems = [\<lparr>hm_key = [], hm_value = zero_value E\<rparr>], hash_table = None, temp = 0\<rparr>"

text \<open>The hash of a key; 0 and 1 are moved out of the way of the marks.\<close>

definition hash_of_key :: "hm_mode \<Rightarrow> u8 list \<Rightarrow> u64 \<Rightarrow> u64" where
  "hash_of_key mode key sd =
     (let hash = (if mode = STBDS_HM_STRING then stbds_hash_string key sd else stbds_hash_bytes key sd)
      in if hash < 2 then hash + 2 else hash)"

definition stbds_is_key_equal :: "'v hm_elem list \<Rightarrow> u8 list \<Rightarrow> int \<Rightarrow> bool res" where
  "stbds_is_key_equal es key i =
     (if -1 \<le> i \<and> i + 1 < int (length es) then Inr (hm_key (es ! nat (i + 1)) = key)
      else Inl (Undefined_behaviour ''element index out of range''))"

definition stbds_hm_find_slot ::
  "hm_mode \<Rightarrow> u8 list \<Rightarrow> 'v hm_elem list \<Rightarrow> stbds_hash_index \<Rightarrow> int res option" where
  "stbds_hm_find_slot mode key es t =
     (let hash = hash_of_key mode key (hi_seed t) in
      find_loop hash (stbds_is_key_equal es key) t
        (stbds_probe_position hash (slot_count t) (slot_count_log2 t)) STBDS_BUCKET_LENGTH)"

definition index_at :: "nat \<Rightarrow> stbds_hash_index \<Rightarrow> int" where
  "index_at pos t = bucket_index (bucket_of pos t) ! (pos AND STBDS_BUCKET_MASK)"

definition hash_at :: "nat \<Rightarrow> stbds_hash_index \<Rightarrow> u64" where
  "hash_at pos t = bucket_hash (bucket_of pos t) ! (pos AND STBDS_BUCKET_MASK)"

section \<open>Reading\<close>

definition stbds_hmget_key_ts ::
  "'v hm_env \<Rightarrow> hm_mode \<Rightarrow> u8 list \<Rightarrow> 'v hmap \<Rightarrow> ('v hm_array \<times> int) res option" where
  "stbds_hmget_key_ts E mode key a =
     (case a of
        None \<Rightarrow> Some (Inr (new_hm_array E, STBDS_INDEX_EMPTY))
      | Some a \<Rightarrow>
          (case hash_table a of
             None \<Rightarrow> Some (Inr (a, -1))
           | Some t \<Rightarrow>
               othen (stbds_hm_find_slot mode key (elems a) t) (\<lambda>slot.
               Some (Inr (a, if slot < 0 then STBDS_INDEX_EMPTY else index_at (nat slot) t)))))"

definition stbds_hmget_key ::
  "'v hm_env \<Rightarrow> hm_mode \<Rightarrow> u8 list \<Rightarrow> 'v hmap \<Rightarrow> 'v hm_array res option" where
  "stbds_hmget_key E mode key a =
     othen (stbds_hmget_key_ts E mode key a) (\<lambda>(a, i). Some (Inr (a\<lparr>temp := i\<rparr>)))"

text \<open>\<open>hmgeti\<close> and \<open>hmget\<close>, and with strings \<open>shgeti\<close> and \<open>shget\<close>.\<close>

definition stbds_hmgeti :: "'v hm_env \<Rightarrow> hm_mode \<Rightarrow> u8 list \<Rightarrow> 'v hmap \<Rightarrow> (int \<times> 'v hmap) res option" where
  "stbds_hmgeti E mode key a =
     othen (stbds_hmget_key E mode key a) (\<lambda>a. Some (Inr (temp a, Some a)))"

definition stbds_hmget :: "'v hm_env \<Rightarrow> hm_mode \<Rightarrow> u8 list \<Rightarrow> 'v hmap \<Rightarrow> ('v \<times> 'v hmap) res option" where
  "stbds_hmget E mode key a =
     othen (stbds_hmget_key E mode key a) (\<lambda>a. Some (Inr (hm_value (elems a ! nat (temp a + 1)), Some a)))"

text \<open>\<open>hmgets\<close>, the element; \<open>hmgetp_null\<close>, NULL for no element; \<open>hmget_ts\<close>, which does not write \<open>temp\<close>.\<close>

definition stbds_hmgets :: "'v hm_env \<Rightarrow> hm_mode \<Rightarrow> u8 list \<Rightarrow> 'v hmap \<Rightarrow> ('v hm_elem \<times> 'v hmap) res option" where
  "stbds_hmgets E mode key a =
     othen (stbds_hmget_key E mode key a) (\<lambda>a. Some (Inr (elems a ! nat (temp a + 1), Some a)))"

definition stbds_hmgetp_null ::
  "'v hm_env \<Rightarrow> hm_mode \<Rightarrow> u8 list \<Rightarrow> 'v hmap \<Rightarrow> ('v hm_elem option \<times> 'v hmap) res option" where
  "stbds_hmgetp_null E mode key a =
     othen (stbds_hmget_key E mode key a) (\<lambda>a.
     Some (Inr (if temp a = -1 then None else Some (elems a ! nat (temp a + 1)), Some a)))"

definition stbds_hmget_ts :: "'v hm_env \<Rightarrow> hm_mode \<Rightarrow> u8 list \<Rightarrow> 'v hmap \<Rightarrow> ('v \<times> 'v hmap) res option" where
  "stbds_hmget_ts E mode key a =
     othen (stbds_hmget_key_ts E mode key a) (\<lambda>(a, temp). Some (Inr (hm_value (elems a ! nat (temp + 1)), Some a)))"

definition stbds_hmlen :: "'v hmap \<Rightarrow> nat" where
  "stbds_hmlen a = (case a of None \<Rightarrow> 0 | Some a \<Rightarrow> length (elems a) - 1)"

section \<open>The default element\<close>

definition stbds_hmput_default :: "'v hm_env \<Rightarrow> 'v hmap \<Rightarrow> 'v hm_array" where
  "stbds_hmput_default E a =
     (case a of
        None \<Rightarrow> new_hm_array E
      | Some a \<Rightarrow> if elems a = [] then a\<lparr>elems := elems (new_hm_array E)\<rparr> else a)"

definition stbds_hmdefault :: "'v hm_env \<Rightarrow> 'v \<Rightarrow> 'v hmap \<Rightarrow> 'v hmap" where
  "stbds_hmdefault E v a =
     (let a = stbds_hmput_default E a in Some (a\<lparr>elems := (hd (elems a))\<lparr>hm_value := v\<rparr> # tl (elems a)\<rparr>))"

definition stbds_hmdefaults :: "'v hm_env \<Rightarrow> 'v hm_elem \<Rightarrow> 'v hmap \<Rightarrow> 'v hmap" where
  "stbds_hmdefaults E s a =
     (let a = stbds_hmput_default E a in Some (a\<lparr>elems := s # tl (elems a)\<rparr>))"

section \<open>Putting\<close>

text \<open>The table to put into: a first one, one of twice the size, or the present one.\<close>

definition grown_table ::
  "hm_mode \<Rightarrow> stbds_hash_index option \<Rightarrow> u64 \<Rightarrow> (stbds_hash_index \<times> u64) option" where
  "grown_table mode table hash_seed =
     (case table of
        None \<Rightarrow>
          map_option (\<lambda>(nt, s). (nt\<lparr>hi_string := (hi_string nt)\<lparr>string_mode :=
              if mode = STBDS_HM_STRING then STBDS_SH_DEFAULT else STBDS_SH_NONE\<rparr>\<rparr>, s))
            (stbds_make_hash_index STBDS_BUCKET_LENGTH None hash_seed)
      | Some t \<Rightarrow>
          if used_count t \<ge> used_count_threshold t
          then stbds_make_hash_index (slot_count t * 2) (Some t) hash_seed
          else Some (t, hash_seed))"

text \<open>The copy of the key in the new element, and what the table notes about it.\<close>

definition store_key :: "'v hm_env \<Rightarrow> u8 list \<Rightarrow> stbds_hash_index \<Rightarrow> stbds_hash_index" where
  "store_key E key t =
     (case string_mode (hi_string t) of
        STBDS_SH_STRDUP \<Rightarrow> t\<lparr>temp_key := Some key\<rparr>
      | STBDS_SH_ARENA \<Rightarrow>
          t\<lparr>temp_key := Some key, hi_string := snd (stbds_stralloc (junk_byte E) key (hi_string t))\<rparr>
      | STBDS_SH_DEFAULT \<Rightarrow> t\<lparr>temp_key := Some key\<rparr>
      | STBDS_SH_NONE \<Rightarrow> t)"

definition stbds_hmput_key ::
  "'v hm_env \<Rightarrow> hm_mode \<Rightarrow> u8 list \<Rightarrow> 'v hmap \<Rightarrow> u64 \<Rightarrow> ('v hm_array \<times> u64) res option" where
  "stbds_hmput_key E mode key a hash_seed =
     (let a = (case a of None \<Rightarrow> new_hm_array E | Some a \<Rightarrow> a) in
      othen (map_option Inr (grown_table mode (hash_table a) hash_seed)) (\<lambda>(t, hash_seed).
      let hash = hash_of_key mode key (hi_seed t) in
      othen (put_loop hash (stbds_is_key_equal (elems a) key) t
               (stbds_probe_position hash (slot_count t) (slot_count_log2 t)) STBDS_BUCKET_LENGTH (-1)) (\<lambda>r.
      case r of
        Present i first \<Rightarrow>
          let t = (if first \<and> mode = STBDS_HM_STRING
                   then t\<lparr>temp_key := Some (hm_key (elems a ! nat (i + 1)))\<rparr> else t)
          in Some (Inr (a\<lparr>hash_table := Some t, temp := i\<rparr>, hash_seed))
      | Absent pos tombstone \<Rightarrow>
          let (pos, t) = (if tombstone \<ge> 0
                          then (nat tombstone, t\<lparr>tombstone_count := tombstone_count t - 1\<rparr>) else (pos, t));
              t = t\<lparr>used_count := used_count t + 1\<rparr>;
              i = int (length (elems a));
              t = store_key E key (write_slot pos hash (i - 1) t)
          in Some (Inr (\<lparr>elems = elems a @ [\<lparr>hm_key = key, hm_value = junk_value E\<rparr>],
                         hash_table = Some t, temp = i - 1\<rparr>, hash_seed)))))"

definition write_elem :: "int \<Rightarrow> 'v hm_elem \<Rightarrow> 'v hm_array \<Rightarrow> 'v hm_array" where
  "write_elem i e a = a\<lparr>elems := (elems a)[nat (i + 1) := e]\<rparr>"

text \<open>\<open>hmput\<close> writes key and value, \<open>shput\<close> the value only.\<close>

definition stbds_hmput :: "'v hm_env \<Rightarrow> u8 list \<Rightarrow> 'v \<Rightarrow> 'v hmap \<Rightarrow> u64 \<Rightarrow> ('v hmap \<times> u64) res option" where
  "stbds_hmput E k v a hash_seed =
     othen (stbds_hmput_key E STBDS_HM_BINARY k a hash_seed) (\<lambda>(a, hash_seed).
     Some (Inr (Some (write_elem (temp a) \<lparr>hm_key = k, hm_value = v\<rparr> a), hash_seed)))"

definition stbds_shput :: "'v hm_env \<Rightarrow> u8 list \<Rightarrow> 'v \<Rightarrow> 'v hmap \<Rightarrow> u64 \<Rightarrow> ('v hmap \<times> u64) res option" where
  "stbds_shput E k v a hash_seed =
     othen (stbds_hmput_key E STBDS_HM_STRING k a hash_seed) (\<lambda>(a, hash_seed).
     Some (Inr (Some (write_elem (temp a) ((elems a ! nat (temp a + 1))\<lparr>hm_value := v\<rparr>) a), hash_seed)))"

text \<open>\<open>hmputs\<close> writes an element; \<open>shputi\<close> also returns the index.\<close>

definition stbds_hmputs :: "'v hm_env \<Rightarrow> 'v hm_elem \<Rightarrow> 'v hmap \<Rightarrow> u64 \<Rightarrow> ('v hmap \<times> u64) res option" where
  "stbds_hmputs E s a hash_seed =
     othen (stbds_hmput_key E STBDS_HM_BINARY (hm_key s) a hash_seed) (\<lambda>(a, hash_seed).
     Some (Inr (Some (write_elem (temp a) s a), hash_seed)))"

definition stbds_shputi :: "'v hm_env \<Rightarrow> u8 list \<Rightarrow> 'v \<Rightarrow> 'v hmap \<Rightarrow> u64 \<Rightarrow> (int \<times> 'v hmap \<times> u64) res option" where
  "stbds_shputi E k v a hash_seed =
     othen (stbds_hmput_key E STBDS_HM_STRING k a hash_seed) (\<lambda>(a, hash_seed).
     let a = write_elem (temp a) ((elems a ! nat (temp a + 1))\<lparr>hm_value := v\<rparr>) a
     in Some (Inr (temp a, Some a, hash_seed)))"

text \<open>
  \<open>shputs\<close> overwrites the whole element and then sets its key to the key last noted in the
  table.
\<close>

definition stbds_shputs :: "'v hm_env \<Rightarrow> 'v hm_elem \<Rightarrow> 'v hmap \<Rightarrow> u64 \<Rightarrow> ('v hmap \<times> u64) res option" where
  "stbds_shputs E s a hash_seed =
     othen (stbds_hmput_key E STBDS_HM_STRING (hm_key s) a hash_seed) (\<lambda>(a, hash_seed).
     case hash_table a of
       None \<Rightarrow> Some (Inl (Undefined_behaviour ''NULL table''))
     | Some t \<Rightarrow>
         (case temp_key t of
            None \<Rightarrow> Some (Inl (Undefined_behaviour ''temp_key not initialised''))
          | Some k \<Rightarrow> Some (Inr (Some (write_elem (temp a) (s\<lparr>hm_key := k\<rparr>) a), hash_seed))))"

text \<open>\<open>sh_new_strdup\<close> and \<open>sh_new_arena\<close>\<close>

definition stbds_shmode_func :: "'v hm_env \<Rightarrow> string_mode \<Rightarrow> u64 \<Rightarrow> ('v hmap \<times> u64) option" where
  "stbds_shmode_func E m hash_seed =
     map_option (\<lambda>(h, s). (Some ((new_hm_array E)\<lparr>hash_table := Some (h\<lparr>hi_string := (hi_string h)\<lparr>string_mode := m\<rparr>\<rparr>)\<rparr>), s))
       (stbds_make_hash_index STBDS_BUCKET_LENGTH None hash_seed)"

section \<open>Deleting\<close>

text \<open>
  The last element is moved over the deleted one; its slot, found by its key, gets the new
  index.
\<close>

definition move_last ::
  "hm_mode \<Rightarrow> int \<Rightarrow> 'v hm_elem list \<Rightarrow> stbds_hash_index \<Rightarrow> ('v hm_elem list \<times> stbds_hash_index) res option" where
  "move_last mode old_index es t =
     (let final_index = int (length es) - 1 - 1 in
      if old_index = final_index then Some (Inr (es, t))
      else
        let es = es[nat (old_index + 1) := es ! nat (final_index + 1)] in
        othen (stbds_hm_find_slot mode (hm_key (es ! nat (old_index + 1))) es t) (\<lambda>slot.
        if slot < 0 then Some (Inl (Undefined_behaviour ''slot out of range''))
        else Some (Inr (es, write_slot (nat slot) (hash_at (nat slot) t) old_index t))))"

text \<open>The table after a deletion: half the size, rebuilt, or as it is.\<close>

definition shrunk_table :: "stbds_hash_index \<Rightarrow> u64 \<Rightarrow> (stbds_hash_index \<times> u64) option" where
  "shrunk_table t hash_seed =
     (if used_count t < used_count_shrink_threshold t \<and> slot_count t > STBDS_BUCKET_LENGTH
      then stbds_make_hash_index (drop_bit 1 (slot_count t)) (Some t) hash_seed
      else if tombstone_count t > tombstone_count_threshold t
      then stbds_make_hash_index (slot_count t) (Some t) hash_seed
      else Some (t, hash_seed))"

definition stbds_hmdel_key ::
  "hm_mode \<Rightarrow> u8 list \<Rightarrow> 'v hmap \<Rightarrow> u64 \<Rightarrow> ('v hmap \<times> u64) res option" where
  "stbds_hmdel_key mode key a hash_seed =
     (case a of
        None \<Rightarrow> Some (Inr (None, hash_seed))
      | Some a \<Rightarrow>
          let a = a\<lparr>temp := 0\<rparr> in
          (case hash_table a of
             None \<Rightarrow> Some (Inr (Some a, hash_seed))
           | Some t \<Rightarrow>
               othen (stbds_hm_find_slot mode key (elems a) t) (\<lambda>slot.
               if slot < 0 then Some (Inr (Some a, hash_seed))
               else
                 let old_index = index_at (nat slot) t;
                     t = t\<lparr>used_count := used_count t - 1, tombstone_count := tombstone_count t + 1\<rparr>;
                     t = write_slot (nat slot) STBDS_HASH_DELETED STBDS_INDEX_DELETED t
                 in
                 othen (move_last mode old_index (elems a) t) (\<lambda>(es, t).
                 othen (map_option Inr (shrunk_table t hash_seed)) (\<lambda>(t, hash_seed).
                 Some (Inr (Some \<lparr>elems = butlast es, hash_table = Some t, temp = 1\<rparr>, hash_seed)))))))"

text \<open>\<open>hmdel\<close> and \<open>shdel\<close>: whether there was something to delete, and the map.\<close>

definition stbds_hmdel :: "hm_mode \<Rightarrow> u8 list \<Rightarrow> 'v hmap \<Rightarrow> u64 \<Rightarrow> (int \<times> 'v hmap \<times> u64) res option" where
  "stbds_hmdel mode key a hash_seed =
     othen (stbds_hmdel_key mode key a hash_seed) (\<lambda>(a, hash_seed).
     Some (Inr ((case a of None \<Rightarrow> 0 | Some a \<Rightarrow> temp a), a, hash_seed)))"

section \<open>Freeing\<close>

text \<open>The number of blocks \<open>hmfree\<close> frees: strings it has copied, the arena, the table and the array.\<close>

definition stbds_hmfree_func :: "'v hm_array \<Rightarrow> nat" where
  "stbds_hmfree_func a =
     (case hash_table a of
        None \<Rightarrow> 1
      | Some t \<Rightarrow>
          (if string_mode (hi_string t) = STBDS_SH_STRDUP then length (elems a) - 1 else 0)
            + fst (stbds_strreset (hi_string t)) + 2)"

definition stbds_hmfree :: "'v hmap \<Rightarrow> nat \<times> 'v hmap" where
  "stbds_hmfree a = ((case a of None \<Rightarrow> 0 | Some a \<Rightarrow> stbds_hmfree_func a), None)"

end
