(* ===== verification/HashProbe.thy ===== *)
theory HashProbe
  imports HashMap
begin

text \<open>
  The order in which the searches of the hash index visit the slots. Round r starts at the
  bucket 0 + 1 + \<dots> + r buckets after the first one; modulo a power of 2 these triangular numbers
  are all different, so the rounds visit every bucket exactly once, and the search every slot.
  The three search loops are the searches along this list of slots.
\<close>

section \<open>Positions\<close>

lemma position_arith [simp]:
  "drop_bit STBDS_BUCKET_SHIFT p = p div 8" "(p :: nat) AND STBDS_BUCKET_MASK = p mod 8" "bucket_base p = 8 * (p div 8)"
proof -
  show m: "p AND STBDS_BUCKET_MASK = p mod 8"
    using take_bit_eq_mask [of 3 p] by (simp add: stbds_constants mask_eq_exp_minus_1 take_bit_eq_mod)
  show "drop_bit STBDS_BUCKET_SHIFT p = p div 8" by (simp add: stbds_constants drop_bit_eq_div)
  then show "bucket_base p = 8 * (p div 8)" by (simp add: bucket_base_def stbds_constants push_bit_eq_mult)
qed

lemma nat_and_pow: "(x :: nat) AND (2 ^ k - 1) = x mod 2 ^ k"
  using take_bit_eq_mask [of k x] by (simp add: mask_eq_exp_minus_1 take_bit_eq_mod)

lemma next_pos_pow: "slot_count t = 2 ^ k \<Longrightarrow> next_pos t pos step = (pos + step) mod 2 ^ k"
  unfolding next_pos_def by (simp only: nat_and_pow)

lemma probe_position_pow: "stbds_probe_position hash (2 ^ k) l = unat hash mod 2 ^ k"
proof -
  have "(of_nat (2 ^ k - 1) :: u64) = mask k" by (simp add: mask_eq_exp_minus_1 of_nat_diff)
  then have "hash AND of_nat (2 ^ k - 1) = take_bit k hash" by (simp only: take_bit_eq_mask)
  moreover have "unat (take_bit k hash) = take_bit k (unat hash)" by (rule unsigned_take_bit_eq)
  ultimately show ?thesis by (simp only: stbds_probe_position_def take_bit_eq_mod)
qed

lemma nat_mod_add_cancel:
  assumes "(h + a) mod n = (h + b) mod n" shows "a mod n = (b :: nat) mod n"
proof -
  have "int (h + a) mod int n = int (h + b) mod int n" using assms by (simp only: zmod_int [symmetric])
  then have "int n dvd int a - int b" by (simp add: mod_eq_dvd_iff)
  then have "int a mod int n = int b mod int n" by (simp add: mod_eq_dvd_iff)
  then show ?thesis by (simp only: zmod_int [symmetric] of_nat_eq_iff)
qed

section \<open>Triangular numbers modulo a power of 2\<close>

fun tri :: "nat \<Rightarrow> nat" where
  "tri 0 = 0"
| "tri (Suc r) = tri r + Suc r"

lemma double_tri: "2 * tri r = r * Suc r"
  by (induction r) auto

lemma tri_mono: "r \<le> s \<Longrightarrow> tri r \<le> tri s"
  by (induction s) (auto simp: le_Suc_eq)

lemma tri_less_distinct:
  assumes "r < s" "s < 2 ^ m" shows "tri r mod 2 ^ m \<noteq> tri s mod 2 ^ m"
proof
  assume eq: "tri r mod 2 ^ m = tri s mod 2 ^ m"
  have "2 ^ m dvd tri s - tri r"
    using eq tri_mono [of r s] assms(1) by (metis less_imp_le mod_eq_dvd_iff_nat)
  then have "2 ^ Suc m dvd 2 * (tri s - tri r)" by simp
  also have "2 * (tri s - tri r) = (s - r) * (s + r + 1)"
  proof -
    obtain d where s: "s = r + d" using assms(1) less_imp_add_positive by blast
    show ?thesis using double_tri [of r] double_tri [of s] unfolding s by (simp add: algebra_simps)
  qed
  finally have d: "2 ^ Suc m dvd (s - r) * (s + r + 1)" .
  have "odd (s - r) \<or> odd (s + r + 1)" using assms(1) by presburger
  then show False
  proof
    assume "odd (s - r)"
    then have "coprime (2 ^ Suc m) (s - r)" by simp
    with d have "2 ^ Suc m dvd s + r + 1" by (simp only: coprime_dvd_mult_right_iff)
    then have "2 ^ Suc m \<le> s + r + 1" by (rule dvd_imp_le) simp
    with assms show False by simp
  next
    assume "odd (s + r + 1)"
    then have "coprime (2 ^ Suc m) (s + r + 1)" by simp
    with d have "2 ^ Suc m dvd s - r" by (simp only: coprime_dvd_mult_left_iff)
    then have "2 ^ Suc m \<le> s - r" by (rule dvd_imp_le) (use assms(1) in simp)
    with assms show False by simp
  qed
qed

lemma tri_inj: "r < 2 ^ m \<Longrightarrow> s < 2 ^ m \<Longrightarrow> tri r mod 2 ^ m = tri s mod 2 ^ m \<Longrightarrow> r = s"
  using tri_less_distinct [of r s m] tri_less_distinct [of s r m] by (metis linorder_neqE_nat)

section \<open>The order of the slots\<close>

text \<open>The position of round r, and the slot visited j-th.\<close>

definition round_pos :: "nat \<Rightarrow> nat \<Rightarrow> nat \<Rightarrow> nat" where
  "round_pos n h r = (h + 8 * tri r) mod n"

definition probe :: "nat \<Rightarrow> nat \<Rightarrow> nat \<Rightarrow> nat" where
  "probe n h j = 8 * (round_pos n h (j div 8) div 8) + (h + j) mod 8"

lemma round_pos_mod8: "8 dvd n \<Longrightarrow> round_pos n h r mod 8 = h mod 8"
  by (simp add: round_pos_def mod_mod_cancel)

lemma round_pos_next:
  "(round_pos n h r + 8 * Suc r) mod n = round_pos n h (Suc r)"
proof -
  have "h + 8 * tri r + 8 * Suc r = h + 8 * tri (Suc r)" by simp
  then show ?thesis unfolding round_pos_def by (simp only: mod_add_left_eq)
qed

lemma pow_8_dvd: "3 \<le> k \<Longrightarrow> (8 :: nat) dvd 2 ^ k"
  using le_imp_power_dvd [of 3 k "2 :: nat"] by simp

lemma probe_lt:
  assumes "8 dvd n" "0 < n" shows "probe n h j < n"
proof -
  obtain m where m: "n = 8 * m" using assms(1) by blast
  have "round_pos n h (j div 8) < m * 8" using assms(2) m by (simp add: round_pos_def mult.commute)
  then have "round_pos n h (j div 8) div 8 < m" by (rule less_mult_imp_div_less)
  moreover have "(h + j) mod 8 < 8" by simp
  ultimately show ?thesis unfolding probe_def m by linarith
qed

lemma probe_inj:
  assumes "3 \<le> k" "i < 2 ^ k" "j < 2 ^ k" "probe (2 ^ k) h i = probe (2 ^ k) h j"
  shows "i = j"
proof -
  let ?n = "2 ^ k :: nat" and ?m = "k - 3"
  have n: "?n = 8 * 2 ^ ?m" using assms(1) power_add [of "2 :: nat" 3 "k - 3"] by simp
  let ?p = "\<lambda>j. round_pos ?n h (j div 8)"
  have b: "(h + i) mod 8 = (h + j) mod 8 \<and> ?p i div 8 = ?p j div 8"
  proof -
    have *: "x = y \<and> a = b" if "x < 8" "y < 8" "8 * a + x = 8 * b + y" for x y a b :: nat
      using that by presburger
    show ?thesis by (rule *) (use assms(4) in \<open>simp_all add: probe_def\<close>)
  qed
  then have "?p i = ?p j"
    using round_pos_mod8 [OF pow_8_dvd [OF assms(1)], of h "i div 8"] round_pos_mod8 [OF pow_8_dvd [OF assms(1)], of h "j div 8"]
    by (metis mod_mult_div_eq)
  then have "8 * tri (i div 8) mod ?n = 8 * tri (j div 8) mod ?n"
    unfolding round_pos_def by (rule nat_mod_add_cancel)
  then have "tri (i div 8) mod 2 ^ ?m = tri (j div 8) mod 2 ^ ?m" unfolding n by (simp flip: mult_mod_right)
  moreover have "i div 8 < 2 ^ ?m" "j div 8 < 2 ^ ?m" using assms(2,3) unfolding n by (auto simp: less_mult_imp_div_less)
  ultimately have "i div 8 = j div 8" by (metis tri_inj)
  moreover have "i mod 8 = j mod 8" using b by (blast intro: nat_mod_add_cancel)
  ultimately show ?thesis by (metis mod_mult_div_eq)
qed

lemma probe_inj_on: "3 \<le> k \<Longrightarrow> inj_on (probe (2 ^ k) h) {..<2 ^ k}"
  by (rule inj_onI) (auto intro: probe_inj)

text \<open>The search visits every slot.\<close>

lemma probe_image:
  assumes "3 \<le> k" shows "probe (2 ^ k) h ` {..<2 ^ k} = {..<2 ^ k}"
proof (rule card_subset_eq)
  show "probe (2 ^ k) h ` {..<2 ^ k} \<subseteq> {..<2 ^ k}"
    using probe_lt [OF pow_8_dvd [OF assms]] by auto
  show "card (probe (2 ^ k) h ` {..<2 ^ k}) = card {..<2 ^ k :: nat}"
    by (rule card_image [OF probe_inj_on [OF assms]])
qed simp

lemma probe_surj:
  assumes "3 \<le> k" "p < 2 ^ k" obtains j where "j < 2 ^ k" "probe (2 ^ k) h j = p"
  using probe_image [OF assms(1), of h] assms(2) by (metis imageE lessThan_iff)

text \<open>The slots of round r, in the order of the two inner loops.\<close>

lemma round_slots:
  assumes "8 dvd n" and pos_def: "pos = round_pos n h r"
  shows "map (\<lambda>i. bucket_base pos + i) (first_part pos @ second_part pos) = map (probe n h) [8 * r..<8 * Suc r]"
proof -
  have m: "pos mod 8 = h mod 8" unfolding pos_def by (rule round_pos_mod8 [OF assms(1)])
  have parts: "first_part pos @ second_part pos = map (\<lambda>i. (h mod 8 + i) mod 8) [0..<8]"
  proof -
    have "first_part pos @ second_part pos = [h mod 8..<8] @ [0..<h mod 8]"
      by (simp only: first_part_def second_part_def position_arith m) (simp add: stbds_constants)
    moreover have "\<forall>c \<in> set [0..<8]. [c..<8] @ [0..<c] = map (\<lambda>i. (c + i) mod 8) [0..<8 :: nat]" by code_simp
    ultimately show ?thesis by simp
  qed
  have "[8 * r..<8 * Suc r] = map (\<lambda>i. 8 * r + i) [0..<8]"
    using map_add_upt [of "8 * r" 8] by (simp add: add.commute)
  then have "map (probe n h) [8 * r..<8 * Suc r] = map (\<lambda>i. probe n h (8 * r + i)) [0..<8]" by (simp add: comp_def)
  also have "\<dots> = map (\<lambda>i. 8 * (pos div 8) + (h mod 8 + i) mod 8) [0..<8]"
  proof (rule map_cong [OF refl])
    fix i assume "i \<in> set [0..<8 :: nat]"
    then have "(8 * r + i) div 8 = r" by simp
    moreover have "(h + (8 * r + i)) mod 8 = (h + i + 8 * r) mod 8" by (simp only: add.assoc add.commute add.left_commute)
    then have "(h + (8 * r + i)) mod 8 = (h mod 8 + i) mod 8" by (simp add: mod_add_left_eq)
    ultimately show "probe n h (8 * r + i) = 8 * (pos div 8) + (h mod 8 + i) mod 8" by (simp only: probe_def pos_def)
  qed
  finally show ?thesis unfolding parts by (simp add: comp_def)
qed

end
