(* ===== verification/HashSearch.thy ===== *)
theory HashSearch
  imports HashProbe
begin

text \<open>
  The three search loops on a well-formed index. Each is a search along the list of slots in
  the order of \<open>probe\<close>, and returns as soon as that list has a slot to stop at.
\<close>

section \<open>Well-formed indices\<close>

definition bucket_wf :: "stbds_hash_bucket \<Rightarrow> bool" where
  "bucket_wf b \<longleftrightarrow> length (bucket_hash b) = 8 \<and> length (bucket_index b) = 8"

definition index_wf :: "stbds_hash_index \<Rightarrow> bool" where
  "index_wf t \<longleftrightarrow> (\<exists>k \<ge> 3. slot_count t = 2 ^ k) \<and> length (storage t) = slot_count t div 8
     \<and> (\<forall>b \<in> set (storage t). bucket_wf b)"

lemma index_wf_pow:
  assumes "index_wf t" obtains k where "3 \<le> k" "slot_count t = 2 ^ k"
  using assms by (auto simp: index_wf_def)

lemma index_wf_count: "index_wf t \<Longrightarrow> 8 dvd slot_count t \<and> 8 \<le> slot_count t"
  by (erule index_wf_pow) (auto simp: pow_8_dvd intro: dvd_imp_le)

lemma index_wf_bucket:
  assumes "index_wf t" "p < slot_count t" shows "p div 8 < length (storage t)" "bucket_wf (storage t ! (p div 8))"
proof -
  show "p div 8 < length (storage t)"
    using assms index_wf_count [OF assms(1)] by (auto simp: index_wf_def elim!: dvdE intro: less_mult_imp_div_less)
  then show "bucket_wf (storage t ! (p div 8))" using assms(1) by (simp add: index_wf_def)
qed

text \<open>The other fields do not matter to the slots.\<close>

definition same_slots :: "stbds_hash_index \<Rightarrow> stbds_hash_index \<Rightarrow> bool" where
  "same_slots t u \<longleftrightarrow> slot_count t = slot_count u \<and> storage t = storage u"

lemma same_slots_simps:
  assumes "same_slots t u"
  shows "index_wf t = index_wf u" "hash_at p t = hash_at p u" "index_at p t = index_at p u" "slot_count t = slot_count u"
    "bucket_of p t = bucket_of p u"
  using assms by (simp_all add: same_slots_def index_wf_def hash_at_def index_at_def bucket_of_def)

lemma write_slot_fields [simp]:
  "slot_count (write_slot p h i t) = slot_count t" "used_count (write_slot p h i t) = used_count t"
  "used_count_threshold (write_slot p h i t) = used_count_threshold t"
  "used_count_shrink_threshold (write_slot p h i t) = used_count_shrink_threshold t"
  "tombstone_count (write_slot p h i t) = tombstone_count t"
  "tombstone_count_threshold (write_slot p h i t) = tombstone_count_threshold t"
  "hi_seed (write_slot p h i t) = hi_seed t" "slot_count_log2 (write_slot p h i t) = slot_count_log2 t"
  "hi_string (write_slot p h i t) = hi_string t" "temp_key (write_slot p h i t) = temp_key t"
  by (simp_all add: write_slot_def Let_def)

lemma write_slot_wf:
  assumes "index_wf t" "p < slot_count t" shows "index_wf (write_slot p h i t)"
proof -
  note b = index_wf_bucket [OF assms]
  have "bucket_wf c" if "c \<in> set ((storage t)[p div 8 := b])" "bucket_wf b" for b c
    using that set_update_subset_insert [of "storage t" "p div 8" b] assms(1) by (auto simp: index_wf_def)
  then show ?thesis
    using assms(1) b by (auto simp: index_wf_def write_slot_def Let_def bucket_wf_def)
qed

lemma write_slot_at:
  assumes "index_wf t" "p < slot_count t" "q < slot_count t"
  shows "hash_at q (write_slot p h i t) = (if q = p then h else hash_at q t)"
    "index_at q (write_slot p h i t) = (if q = p then i else index_at q t)"
proof -
  note b = index_wf_bucket [OF assms(1,2)]
  have m: "p mod 8 < 8" by simp
  have ne: "q mod 8 \<noteq> p mod 8" if "q \<noteq> p" "q div 8 = p div 8"
    using that by (metis mod_mult_div_eq)
  show "hash_at q (write_slot p h i t) = (if q = p then h else hash_at q t)"
    using b m ne by (auto simp: hash_at_def bucket_of_def write_slot_def Let_def bucket_wf_def nth_list_update)
  show "index_at q (write_slot p h i t) = (if q = p then i else index_at q t)"
    using b m ne by (auto simp: index_at_def bucket_of_def write_slot_def Let_def bucket_wf_def nth_list_update)
qed

section \<open>Searches along a list of slots\<close>

fun find_along :: "u64 \<Rightarrow> (int \<Rightarrow> bool res) \<Rightarrow> stbds_hash_index \<Rightarrow> nat list \<Rightarrow> int option res" where
  "find_along hash eq t [] = Inr None"
| "find_along hash eq t (p # ps) =
     (if hash_at p t = hash
      then andthen (eq (index_at p t)) (\<lambda>e. if e then Inr (Some (int p)) else find_along hash eq t ps)
      else if hash_at p t = 0 then Inr (Some (-1)) else find_along hash eq t ps)"

fun empty_along :: "stbds_hash_index \<Rightarrow> nat list \<Rightarrow> nat option" where
  "empty_along t [] = None"
| "empty_along t (p # ps) = (if hash_at p t = 0 then Some p else empty_along t ps)"

fun put_along ::
  "u64 \<Rightarrow> (int \<Rightarrow> bool res) \<Rightarrow> stbds_hash_index \<Rightarrow> nat list \<Rightarrow> int \<Rightarrow> put_step res" where
  "put_along hash eq t [] tombstone = Inr (Put_go_on tombstone)"
| "put_along hash eq t (p # ps) tombstone =
     (if hash_at p t = hash
      then andthen (eq (index_at p t)) (\<lambda>e.
           if e then Inr (Put_hit (index_at p t)) else put_along hash eq t ps tombstone)
      else if hash_at p t = 0 then Inr (Put_vacant p tombstone)
      else put_along hash eq t ps
             (if tombstone < 0 \<and> index_at p t = STBDS_INDEX_DELETED then int p else tombstone))"

lemma find_along_append:
  "find_along hash eq t (ps @ qs) = andthen (find_along hash eq t ps) (\<lambda>r.
     case r of None \<Rightarrow> find_along hash eq t qs | Some x \<Rightarrow> Inr (Some x))"
  by (induction ps) (auto simp: andthen_def split: sum.splits)

lemma empty_along_append:
  "empty_along t (ps @ qs) = (case empty_along t ps of None \<Rightarrow> empty_along t qs | Some p \<Rightarrow> Some p)"
  by (induction ps) auto

lemma put_along_append:
  "put_along hash eq t (ps @ qs) tombstone = andthen (put_along hash eq t ps tombstone) (\<lambda>r.
     case r of Put_go_on tombstone \<Rightarrow> put_along hash eq t qs tombstone | _ \<Rightarrow> Inr r)"
  by (induction ps arbitrary: tombstone) (auto simp: andthen_def split: sum.splits)

text \<open>A scan of the slots \<open>is\<close> of one bucket is a search along their positions.\<close>

lemma at_base:
  assumes "i < 8"
  shows "hash_at (bucket_base pos + i) t = bucket_hash (bucket_of pos t) ! i"
    "index_at (bucket_base pos + i) t = bucket_index (bucket_of pos t) ! i"
  using assms by (simp_all add: hash_at_def index_at_def bucket_of_def)

definition scan_result :: "nat \<Rightarrow> scan \<Rightarrow> int option" where
  "scan_result base r = (case r of Hit i \<Rightarrow> Some (int (base + i)) | Vacant i \<Rightarrow> Some (-1) | Go_on \<Rightarrow> None)"

lemma find_scan_along:
  "\<forall>i \<in> set is. i < 8 \<Longrightarrow>
     find_along hash eq t (map (\<lambda>i. bucket_base pos + i) is)
       = andthen (find_scan hash eq (bucket_of pos t) is) (\<lambda>r. Inr (scan_result (bucket_base pos) r))"
proof (induction "is")
  case (Cons i "is")
  then show ?case
    using at_base [of i pos t]
    by (auto simp: scan_result_def andthen_def STBDS_HASH_EMPTY_def simp del: position_arith split: sum.splits)
qed (simp add: scan_result_def)

lemma empty_scan_along:
  "\<forall>i \<in> set is. i < 8 \<Longrightarrow>
     empty_along t (map (\<lambda>i. bucket_base pos + i) is)
       = map_option (\<lambda>i. bucket_base pos + i) (empty_scan (bucket_of pos t) is)"
proof (induction "is")
  case (Cons i "is")
  then show ?case using at_base [of i pos t] by (simp del: position_arith)
qed simp

lemma put_scan_along:
  "\<forall>i \<in> set is. i < 8 \<Longrightarrow>
     put_along hash eq t (map (\<lambda>i. bucket_base pos + i) is) tombstone
       = put_scan hash eq (bucket_of pos t) (bucket_base pos) is tombstone"
proof (induction "is" arbitrary: tombstone)
  case (Cons i "is")
  then show ?case
    using at_base [of i pos t] by (auto simp: andthen_def simp del: position_arith split: sum.splits)
qed simp

lemma parts_lt: "\<forall>i \<in> set (first_part pos). i < 8" "\<forall>i \<in> set (second_part pos). i < 8"
proof -
  have "pos AND STBDS_BUCKET_MASK < 8" by simp
  then show "\<forall>i \<in> set (first_part pos). i < 8" "\<forall>i \<in> set (second_part pos). i < 8"
    unfolding first_part_def second_part_def by (auto simp: STBDS_BUCKET_LENGTH_def simp del: position_arith)
qed

section \<open>The loops\<close>

lemma round_cases:
  assumes "index_wf t" "pos = round_pos (slot_count t) h r"
  shows "map (\<lambda>i. bucket_base pos + i) (first_part pos) @ map (\<lambda>i. bucket_base pos + i) (second_part pos)
      = map (probe (slot_count t) h) [8 * r..<8 * Suc r]"
    "next_pos t pos (8 * Suc r) = round_pos (slot_count t) h (Suc r)"
proof -
  show "map (\<lambda>i. bucket_base pos + i) (first_part pos) @ map (\<lambda>i. bucket_base pos + i) (second_part pos)
      = map (probe (slot_count t) h) [8 * r..<8 * Suc r]"
    using round_slots [OF _ assms(2)] index_wf_count [OF assms(1)] by (simp only: map_append)
  obtain k where "slot_count t = 2 ^ k" using index_wf_pow [OF assms(1)] by blast
  then show "next_pos t pos (8 * Suc r) = round_pos (slot_count t) h (Suc r)"
    using next_pos_pow [of t k pos "8 * Suc r"] round_pos_next [of "slot_count t" h r] assms(2) by simp
qed

lemma find_loop_round:
  assumes "index_wf t" "pos = round_pos (slot_count t) h r"
  shows "find_loop hash eq t pos (8 * Suc r) =
    (case find_along hash eq t (map (probe (slot_count t) h) [8 * r..<8 * Suc r]) of
       Inl e \<Rightarrow> Some (Inl e)
     | Inr (Some x) \<Rightarrow> Some (Inr x)
     | Inr None \<Rightarrow> find_loop hash eq t (round_pos (slot_count t) h (Suc r)) (8 * Suc (Suc r)))"
proof -
  have step: "8 * Suc r + STBDS_BUCKET_LENGTH = 8 * Suc (Suc r)" by (simp add: STBDS_BUCKET_LENGTH_def)
  show ?thesis
    unfolding round_cases(1) [OF assms, symmetric] find_along_append
      find_scan_along [OF parts_lt(1)] find_scan_along [OF parts_lt(2)]
    by (subst find_loop.simps, unfold step round_cases(2) [OF assms])
      (auto simp: andthen_def scan_result_def simp del: position_arith split: sum.splits scan.splits)
qed

lemma rehash_loop_round:
  assumes "index_wf t" "pos = round_pos (slot_count t) h r"
  shows "rehash_loop t pos (8 * Suc r) =
    (case empty_along t (map (probe (slot_count t) h) [8 * r..<8 * Suc r]) of
       Some x \<Rightarrow> Some x
     | None \<Rightarrow> rehash_loop t (round_pos (slot_count t) h (Suc r)) (8 * Suc (Suc r)))"
proof -
  have step: "8 * Suc r + STBDS_BUCKET_LENGTH = 8 * Suc (Suc r)" by (simp add: STBDS_BUCKET_LENGTH_def)
  show ?thesis
    unfolding round_cases(1) [OF assms, symmetric] empty_along_append
      empty_scan_along [OF parts_lt(1)] empty_scan_along [OF parts_lt(2)]
    by (subst rehash_loop.simps, unfold step round_cases(2) [OF assms])
      (auto simp del: position_arith split: option.splits)
qed

definition outcome_of_step :: "put_step \<Rightarrow> bool \<Rightarrow> put_result" where
  "outcome_of_step r first = (case r of Put_hit i \<Rightarrow> Present i first | Put_vacant p tombstone \<Rightarrow> Absent p tombstone
     | Put_go_on tombstone \<Rightarrow> Absent 0 tombstone)"

lemma put_loop_round:
  assumes "index_wf t" "pos = round_pos (slot_count t) h r"
  shows "case put_along hash eq t (map (probe (slot_count t) h) [8 * r..<8 * Suc r]) tombstone of
       Inl e \<Rightarrow> put_loop hash eq t pos (8 * Suc r) tombstone = Some (Inl e)
     | Inr (Put_go_on tb) \<Rightarrow> put_loop hash eq t pos (8 * Suc r) tombstone
          = put_loop hash eq t (round_pos (slot_count t) h (Suc r)) (8 * Suc (Suc r)) tb
     | Inr x \<Rightarrow> \<exists>first. put_loop hash eq t pos (8 * Suc r) tombstone = Some (Inr (outcome_of_step x first))"
proof -
  have step: "8 * Suc r + STBDS_BUCKET_LENGTH = 8 * Suc (Suc r)" by (simp add: STBDS_BUCKET_LENGTH_def)
  note loop = put_loop.simps [of hash eq t pos "8 * Suc r" tombstone, unfolded step round_cases(2) [OF assms]]
  show ?thesis
    unfolding round_cases(1) [OF assms, symmetric] put_along_append
      put_scan_along [OF parts_lt(1)] put_scan_along [OF parts_lt(2)] loop
    by (auto simp: andthen_def put_outcome_def outcome_of_step_def simp del: position_arith
        split: sum.splits put_step.splits)
qed

text \<open>From round r on, when the rest of the slots has one to stop at.\<close>

lemma upt_rounds: "8 * r < n \<Longrightarrow> 8 dvd n \<Longrightarrow> [8 * r..<n] = [8 * r..<8 * Suc r] @ [8 * Suc r..<n]"
proof -
  assume "8 * r < n" "8 dvd n"
  then have "n = 8 * Suc r + (n - 8 * Suc r)" by (auto elim!: dvdE)
  then show ?thesis using upt_add_eq_append [of "8 * r" "8 * Suc r" "n - 8 * Suc r"] by simp
qed

lemma find_loop_along:
  assumes "index_wf t" "find_along hash eq t (map (probe (slot_count t) h) [8 * r..<slot_count t]) = Inr (Some x)"
  shows "find_loop hash eq t (round_pos (slot_count t) h r) (8 * Suc r) = Some (Inr x)"
  using assms(2)
proof (induction "slot_count t - 8 * r" arbitrary: r rule: less_induct)
  case less
  have lt: "8 * r < slot_count t" using less.prems by (cases "8 * r < slot_count t") auto
  note split = upt_rounds [OF lt, of] index_wf_count [OF assms(1)]
  let ?f = "find_along hash eq t (map (probe (slot_count t) h) [8 * r..<8 * Suc r])"
  have f: "andthen ?f (\<lambda>q. case q of None \<Rightarrow> find_along hash eq t (map (probe (slot_count t) h) [8 * Suc r..<slot_count t])
      | Some y \<Rightarrow> Inr (Some y)) = Inr (Some x)"
    using less.prems split by (simp only: find_along_append [symmetric] map_append [symmetric])
  then obtain q where q: "?f = Inr q" by auto
  show ?case
  proof (cases q)
    case None
    with f q have "find_along hash eq t (map (probe (slot_count t) h) [8 * Suc r..<slot_count t]) = Inr (Some x)" by simp
    then have "find_loop hash eq t (round_pos (slot_count t) h (Suc r)) (8 * Suc (Suc r)) = Some (Inr x)"
      using less.hyps [of "Suc r"] lt by simp
    with find_loop_round [OF assms(1) refl, of hash eq h r] q None show ?thesis by simp
  next
    case (Some y)
    with find_loop_round [OF assms(1) refl, of hash eq h r] q f show ?thesis by simp
  qed
qed

lemma rehash_loop_along:
  assumes "index_wf t" "empty_along t (map (probe (slot_count t) h) [8 * r..<slot_count t]) = Some x"
  shows "rehash_loop t (round_pos (slot_count t) h r) (8 * Suc r) = Some x"
  using assms(2)
proof (induction "slot_count t - 8 * r" arbitrary: r rule: less_induct)
  case less
  have lt: "8 * r < slot_count t" using less.prems by (cases "8 * r < slot_count t") auto
  let ?f = "empty_along t (map (probe (slot_count t) h) [8 * r..<8 * Suc r])"
  have f: "(case ?f of None \<Rightarrow> empty_along t (map (probe (slot_count t) h) [8 * Suc r..<slot_count t]) | Some y \<Rightarrow> Some y) = Some x"
    using less.prems upt_rounds [OF lt] index_wf_count [OF assms(1)]
    by (simp only: empty_along_append [symmetric] map_append [symmetric])
  show ?case
  proof (cases ?f)
    case None
    with f have "empty_along t (map (probe (slot_count t) h) [8 * Suc r..<slot_count t]) = Some x" by simp
    then have "rehash_loop t (round_pos (slot_count t) h (Suc r)) (8 * Suc (Suc r)) = Some x"
      using less.hyps [of "Suc r"] lt by simp
    with rehash_loop_round [OF assms(1) refl, of h r] None show ?thesis by simp
  next
    case (Some y)
    with rehash_loop_round [OF assms(1) refl, of h r] f show ?thesis by simp
  qed
qed

lemma put_loop_along:
  assumes "index_wf t" "put_along hash eq t (map (probe (slot_count t) h) [8 * r..<slot_count t]) tombstone = Inr x"
    "\<And>tb. x \<noteq> Put_go_on tb"
  shows "\<exists>first. put_loop hash eq t (round_pos (slot_count t) h r) (8 * Suc r) tombstone = Some (Inr (outcome_of_step x first))"
  using assms(2)
proof (induction "slot_count t - 8 * r" arbitrary: r tombstone rule: less_induct)
  case less
  have lt: "8 * r < slot_count t" using less.prems assms(3) by (cases "8 * r < slot_count t") auto
  let ?f = "put_along hash eq t (map (probe (slot_count t) h) [8 * r..<8 * Suc r]) tombstone"
  have f: "andthen ?f (\<lambda>q. case q of
      Put_go_on tb \<Rightarrow> put_along hash eq t (map (probe (slot_count t) h) [8 * Suc r..<slot_count t]) tb | _ \<Rightarrow> Inr q) = Inr x"
    using less.prems upt_rounds [OF lt] index_wf_count [OF assms(1)]
    by (simp only: put_along_append [symmetric] map_append [symmetric])
  then obtain q where q: "?f = Inr q" by auto
  note round = put_loop_round [OF assms(1) refl, of hash eq h r tombstone, unfolded q, simplified]
  show ?case
  proof (cases "\<exists>tb. q = Put_go_on tb")
    case True
    then obtain tb where tb: "q = Put_go_on tb" by blast
    with f q have "put_along hash eq t (map (probe (slot_count t) h) [8 * Suc r..<slot_count t]) tb = Inr x" by simp
    from less.hyps [OF _ this] round tb lt show ?thesis by simp
  next
    case False
    with f q have "q = x" by (cases q) auto
    with round False show ?thesis by (cases q) auto
  qed
qed

text \<open>The searches as the operations start them.\<close>

lemma searches:
  assumes "index_wf t" and start_def: "start = stbds_probe_position hash (slot_count t) l"
    and path_def: "path = map (probe (slot_count t) (unat hash)) [0..<slot_count t]"
  shows "find_along hash eq t path = Inr (Some x) \<Longrightarrow> find_loop hash eq t start STBDS_BUCKET_LENGTH = Some (Inr x)"
    "empty_along t path = Some p \<Longrightarrow> rehash_loop t start STBDS_BUCKET_LENGTH = Some p"
    "put_along hash eq t path tb = Inr y \<Longrightarrow> (\<And>tb. y \<noteq> Put_go_on tb) \<Longrightarrow>
       \<exists>first. put_loop hash eq t start STBDS_BUCKET_LENGTH tb = Some (Inr (outcome_of_step y first))"
proof -
  obtain k where "slot_count t = 2 ^ k" using index_wf_pow [OF assms(1)] by blast
  then have start: "start = round_pos (slot_count t) (unat hash) 0"
    by (simp add: start_def probe_position_pow round_pos_def)
  have len: "STBDS_BUCKET_LENGTH = 8 * Suc 0" by (simp add: STBDS_BUCKET_LENGTH_def)
  show "find_along hash eq t path = Inr (Some x) \<Longrightarrow> find_loop hash eq t start STBDS_BUCKET_LENGTH = Some (Inr x)"
    using find_loop_along [OF assms(1), of hash eq "unat hash" 0 x] by (simp add: start len path_def)
  show "empty_along t path = Some p \<Longrightarrow> rehash_loop t start STBDS_BUCKET_LENGTH = Some p"
    using rehash_loop_along [OF assms(1), of "unat hash" 0 p] by (simp add: start len path_def)
  show "\<exists>first. put_loop hash eq t start STBDS_BUCKET_LENGTH tb = Some (Inr (outcome_of_step y first))"
    if "put_along hash eq t path tb = Inr y" "\<And>tb. y \<noteq> Put_go_on tb"
    using put_loop_along [OF assms(1), of hash eq "unat hash" 0 tb y] that by (simp add: start len path_def)
qed

end
