(* ===== verification/HashSlots.thy ===== *)
theory HashSlots
  imports HashSearch
begin

text \<open>
  What the slots of an index say. \<open>slots_ok H ks I t\<close>: the slots in use are those of the keys
  \<open>ks ! i\<close> with i in \<open>I\<close>, each once and with its hash, and no slot that a search for the key
  visits before is empty. Insertions, deletions, changes of an index and the copying into a new
  table keep it. The locale has what is asked of a hash function: that no key gets the hash of
  an empty or a deleted slot.
\<close>

section \<open>The invariant of the slots\<close>

definition slots_ok ::
  "(u8 list \<Rightarrow> u64) \<Rightarrow> (nat \<Rightarrow> u8 list) \<Rightarrow> nat set \<Rightarrow> stbds_hash_index \<Rightarrow> bool" where
  "slots_ok H key I t \<longleftrightarrow> index_wf t
     \<and> (\<forall>p < slot_count t. hash_at p t = 0 \<and> index_at p t = -1 \<or> hash_at p t = 1 \<and> index_at p t = -2
          \<or> (\<exists>i \<in> I. index_at p t = int i \<and> hash_at p t = H (key i)))
     \<and> (\<forall>i \<in> I. \<exists>j < slot_count t. index_at (probe (slot_count t) (unat (H (key i))) j) t = int i
          \<and> (\<forall>j' < j. hash_at (probe (slot_count t) (unat (H (key i))) j') t \<noteq> 0))
     \<and> (\<forall>p < slot_count t. \<forall>q < slot_count t. 0 \<le> index_at p t \<longrightarrow> index_at p t = index_at q t \<longrightarrow> p = q)"

lemma slots_okD:
  assumes "slots_ok H key I t"
  shows "index_wf t"
    "p < slot_count t \<Longrightarrow> hash_at p t = 0 \<and> index_at p t = -1 \<or> hash_at p t = 1 \<and> index_at p t = -2
       \<or> (\<exists>i \<in> I. index_at p t = int i \<and> hash_at p t = H (key i))"
    "p < slot_count t \<Longrightarrow> q < slot_count t \<Longrightarrow> 0 \<le> index_at p t \<Longrightarrow> index_at p t = index_at q t \<Longrightarrow> p = q"
  using assms by (auto simp: slots_ok_def)

lemma slots_ok_placed:
  assumes "slots_ok H key I t" "i \<in> I"
  obtains j where "j < slot_count t" "index_at (probe (slot_count t) (unat (H (key i))) j) t = int i"
    "\<forall>j' < j. hash_at (probe (slot_count t) (unat (H (key i))) j') t \<noteq> 0"
  using assms by (auto simp: slots_ok_def)

lemma probe_in_range: "index_wf t \<Longrightarrow> probe (slot_count t) h j < slot_count t"
  using index_wf_count [of t] by (intro probe_lt) auto

lemma slots_ok_cong:
  assumes "same_slots t u" shows "slots_ok H key I t = slots_ok H key I u"
  by (simp add: slots_ok_def same_slots_simps [OF assms])

lemma slots_ok_keys:
  assumes "\<And>i. i \<in> I \<Longrightarrow> key i = key' i" shows "slots_ok H key I t = slots_ok H key' I t"
proof -
  have "(\<forall>i \<in> I. P i (key i)) = (\<forall>i \<in> I. P i (key' i))" "(\<exists>i \<in> I. Q i (key i)) = (\<exists>i \<in> I. Q i (key' i))"
    for P Q :: "nat \<Rightarrow> u8 list \<Rightarrow> bool"
    using assms by auto
  from this(1) [of "\<lambda>i k. \<exists>j < slot_count t. index_at (probe (slot_count t) (unat (H k)) j) t = int i
          \<and> (\<forall>j' < j. hash_at (probe (slot_count t) (unat (H k)) j') t \<noteq> 0)"]
    this(2) [of "\<lambda>i k. index_at p t = int i \<and> hash_at p t = H k" for p]
  show ?thesis by (simp add: slots_ok_def)
qed

text \<open>The slots in use, the deleted ones and the empty ones.\<close>

definition deleted_slots :: "stbds_hash_index \<Rightarrow> nat set" where
  "deleted_slots t = {p. p < slot_count t \<and> index_at p t = -2}"

lemma finite_deleted [simp]: "finite (deleted_slots t)"
  by (simp add: deleted_slots_def)

lemma in_use_card:
  assumes "slots_ok H key I t"
  shows "card {p. p < slot_count t \<and> 0 \<le> index_at p t} = card I" "finite I"
proof -
  let ?S = "{p. p < slot_count t \<and> 0 \<le> index_at p t}" and ?f = "\<lambda>p. nat (index_at p t)"
  have in_I: "?f p \<in> I" if "p \<in> ?S" for p
    using slots_okD(2) [OF assms, of p] that by auto
  have onto: "i \<in> ?f ` ?S" if i: "i \<in> I" for i
  proof -
    obtain j where j: "index_at (probe (slot_count t) (unat (H (key i))) j) t = int i"
      using slots_ok_placed [OF assms i] by blast
    have "probe (slot_count t) (unat (H (key i))) j \<in> ?S"
      using probe_in_range [OF slots_okD(1) [OF assms]] j by simp
    then show ?thesis by (rule rev_image_eqI) (simp add: j)
  qed
  have img: "?f ` ?S = I"
    using in_I onto by (intro equalityI subsetI) (auto simp del: mem_Collect_eq)
  have "inj_on ?f ?S"
  proof (rule inj_onI)
    fix p q assume a: "p \<in> ?S" "q \<in> ?S" "?f p = ?f q"
    then have "index_at p t = index_at q t" by (simp add: eq_nat_nat_iff)
    with a show "p = q" using slots_okD(3) [OF assms, of p q] by simp
  qed
  from card_image [OF this] show "card ?S = card I" by (simp only: img)
  have "finite ?S" by simp
  from finite_imageI [OF this, of ?f] show "finite I" by (simp only: img)
qed

lemma empty_slot_exists:
  assumes "slots_ok H key I t" "card I + card (deleted_slots t) < slot_count t"
  obtains p where "p < slot_count t" "hash_at p t = 0"
proof -
  let ?S = "{p. p < slot_count t \<and> 0 \<le> index_at p t}"
  have lt: "card (?S \<union> deleted_slots t) < slot_count t"
    using card_Un_le [of ?S "deleted_slots t"] in_use_card(1) [OF assms(1)] assms(2) by simp
  have "\<not> {..<slot_count t} \<subseteq> ?S \<union> deleted_slots t"
  proof
    assume "{..<slot_count t} \<subseteq> ?S \<union> deleted_slots t"
    from card_mono [OF _ this] have "slot_count t \<le> card (?S \<union> deleted_slots t)" by simp
    with lt show False by simp
  qed
  then obtain p where "p < slot_count t" "p \<notin> ?S" "p \<notin> deleted_slots t" by auto
  then have p: "p < slot_count t" "\<not> 0 \<le> index_at p t" "index_at p t \<noteq> -2" by (simp_all add: deleted_slots_def)
  have "hash_at p t = 0" using slots_okD(2) [OF assms(1) p(1)] p(2,3) by auto
  with p(1) show thesis by (rule that)
qed

text \<open>The first empty slot on the way of a hash.\<close>

lemma first_empty:
  assumes "slots_ok H key I t" "card I + card (deleted_slots t) < slot_count t"
  obtains j where "j < slot_count t" "hash_at (probe (slot_count t) h j) t = 0"
    "\<forall>j' < j. hash_at (probe (slot_count t) h j') t \<noteq> 0"
proof -
  let ?P = "\<lambda>j. hash_at (probe (slot_count t) h j) t = 0"
  obtain k where k: "3 \<le> k" "slot_count t = 2 ^ k" using index_wf_pow [OF slots_okD(1) [OF assms(1)]] by blast
  obtain p where p: "p < slot_count t" "hash_at p t = 0" using empty_slot_exists [OF assms] by blast
  obtain i where i: "i < 2 ^ k" "probe (2 ^ k) h i = p"
    using probe_surj [OF k(1), of p h] p(1) k(2) by auto
  have i: "i < slot_count t" "?P i" using i p(2) by (simp_all add: k(2))
  obtain j where j: "j = (LEAST j. ?P j)" by blast
  have "?P j" unfolding j using i(2) by (rule LeastI)
  moreover have "j \<le> i" unfolding j using i(2) by (rule Least_le)
  moreover have "\<forall>j' < j. \<not> ?P j'" unfolding j using not_less_Least [of _ ?P] by blast
  ultimately show thesis using i(1) that [of j] le_less_trans [of j i "slot_count t"] by blast
qed

section \<open>Searching the slots\<close>

lemma find_along_hit:
  "\<forall>q \<in> set as. hash_at q t \<noteq> 0 \<and> (hash_at q t = hash \<longrightarrow> eq (index_at q t) = Inr False) \<Longrightarrow>
     hash_at p t = hash \<Longrightarrow> eq (index_at p t) = Inr True \<Longrightarrow>
     find_along hash eq t (as @ p # bs) = Inr (Some (int p))"
  by (induction as) auto

lemma find_along_vacant:
  "\<forall>q \<in> set as. hash_at q t \<noteq> 0 \<and> (hash_at q t = hash \<longrightarrow> eq (index_at q t) = Inr False) \<Longrightarrow>
     hash_at p t = 0 \<Longrightarrow> hash \<noteq> 0 \<Longrightarrow> find_along hash eq t (as @ p # bs) = Inr (Some (-1))"
  by (induction as) auto

lemma empty_along_first:
  "\<forall>q \<in> set as. hash_at q t \<noteq> 0 \<Longrightarrow> hash_at p t = 0 \<Longrightarrow> empty_along t (as @ p # bs) = Some p"
  by (induction as) auto

lemma put_along_hit:
  "\<forall>q \<in> set as. hash_at q t \<noteq> 0 \<and> (hash_at q t = hash \<longrightarrow> eq (index_at q t) = Inr False) \<Longrightarrow>
     hash_at p t = hash \<Longrightarrow> eq (index_at p t) = Inr True \<Longrightarrow>
     put_along hash eq t (as @ p # bs) tb = Inr (Put_hit (index_at p t))"
  by (induction as arbitrary: tb) auto

lemma put_along_vacant:
  "\<forall>q \<in> set as. hash_at q t \<noteq> 0 \<and> (hash_at q t = hash \<longrightarrow> eq (index_at q t) = Inr False) \<Longrightarrow>
     hash_at p t = 0 \<Longrightarrow> hash \<noteq> 0 \<Longrightarrow>
     \<exists>tb'. put_along hash eq t (as @ p # bs) tb = Inr (Put_vacant p tb')
       \<and> (tb' = tb \<or> (\<exists>q \<in> set as. tb' = int q \<and> index_at q t = -2))"
proof (induction as arbitrary: tb)
  case (Cons a as)
  then have "hash_at a t \<noteq> 0" "hash_at a t = hash \<Longrightarrow> eq (index_at a t) = Inr False" by simp_all
  then show ?case
    using Cons.IH [of tb] Cons.IH [of "if tb < 0 \<and> index_at a t = -2 then int a else tb"] Cons.prems
    by (auto simp: STBDS_INDEX_DELETED_def split: if_splits)
qed simp

lemma path_split: "j < n \<Longrightarrow> map f [0..<n] = map f [0..<j] @ f j # map f [Suc j..<n]"
  using upt_add_eq_append [of 0 j "n - j"] upt_conv_Cons [of j n] by simp

locale key_hash =
  fixes H :: "u8 list \<Rightarrow> u64"
  assumes hash_ge: "2 \<le> H k"
begin

lemma hash_ne: "H k \<noteq> 0" "H k \<noteq> 1"
  using hash_ge [of k] by (auto simp: word_le_nat_alt)

text \<open>The slots before the one a search stops at.\<close>

lemma before_stop:
  assumes ok: "slots_ok H key I t" and eq: "\<forall>i \<in> I. eq (int i) = Inr (key i = k)"
    and j: "\<forall>j' < j. hash_at (probe (slot_count t) h j') t \<noteq> 0"
      "\<forall>j' < j. \<forall>i \<in> I. key i = k \<longrightarrow> index_at (probe (slot_count t) h j') t \<noteq> int i"
  shows "\<forall>q \<in> set (map (probe (slot_count t) h) [0..<j]). hash_at q t \<noteq> 0 \<and> (hash_at q t = H k \<longrightarrow> eq (index_at q t) = Inr False)"
proof -
  have "eq (index_at (probe (slot_count t) h j') t) = Inr False"
    if "j' < j" "hash_at (probe (slot_count t) h j') t = H k" for j'
    using slots_okD(2) [OF ok probe_in_range [OF slots_okD(1) [OF ok], of h j']] that hash_ne [of k] eq j(2) by auto
  with j(1) show ?thesis by auto
qed

lemma search_present:
  assumes ok: "slots_ok H key I t" and eq: "\<forall>i \<in> I. eq (int i) = Inr (key i = k)"
    and i: "i \<in> I" "key i = k" and inj: "inj_on key I"
  shows "\<exists>p < slot_count t. index_at p t = int i
     \<and> find_loop (H k) eq t (stbds_probe_position (H k) (slot_count t) l) STBDS_BUCKET_LENGTH = Some (Inr (int p))
     \<and> (\<exists>first. put_loop (H k) eq t (stbds_probe_position (H k) (slot_count t) l) STBDS_BUCKET_LENGTH tb = Some (Inr (Present (int i) first)))"
proof -
  let ?n = "slot_count t" and ?f = "probe (slot_count t) (unat (H k))"
  obtain j where j: "j < ?n" "index_at (?f j) t = int i" "\<forall>j' < j. hash_at (?f j') t \<noteq> 0"
    using slots_ok_placed [OF ok i(1)] i(2) by metis
  note range = probe_in_range [OF slots_okD(1) [OF ok]]
  obtain m where m: "3 \<le> m" "?n = 2 ^ m" using index_wf_pow [OF slots_okD(1) [OF ok]] by blast
  have "index_at (?f j') t \<noteq> int i'" if "j' < j" "i' \<in> I" "key i' = k" for j' i'
  proof
    assume a: "index_at (?f j') t = int i'"
    have "i' = i" using inj i that by (auto dest: inj_onD)
    with a j(2) slots_okD(3) [OF ok range range, of "unat (H k)" j' "unat (H k)" j] have "?f j' = ?f j" by simp
    with probe_inj [OF m(1), of j' j "unat (H k)"] m(2) that(1) j(1) show False by simp
  qed
  then have before: "\<forall>q \<in> set (map ?f [0..<j]). hash_at q t \<noteq> 0 \<and> (hash_at q t = H k \<longrightarrow> eq (index_at q t) = Inr False)"
    by (intro before_stop [OF ok eq j(3)]) auto
  have here: "hash_at (?f j) t = H k" "eq (index_at (?f j) t) = Inr True"
    using slots_okD(2) [OF ok range, of "unat (H k)" j] j(2) i eq by auto
  note path = path_split [OF j(1), of ?f]
  have 1: "find_along (H k) eq t (map ?f [0..<?n]) = Inr (Some (int (?f j)))"
    unfolding path by (rule find_along_hit [OF before here])
  have 2: "put_along (H k) eq t (map ?f [0..<?n]) tb = Inr (Put_hit (int i))"
    unfolding path using put_along_hit [OF before here] by (simp only: j(2))
  show ?thesis
    using searches(1) [OF slots_okD(1) [OF ok] refl refl 1, of l] searches(3) [OF slots_okD(1) [OF ok] refl refl 2, of l]
      range j(2) by (auto simp: outcome_of_step_def)
qed

lemma search_absent:
  assumes ok: "slots_ok H key I t" and eq: "\<forall>i \<in> I. eq (int i) = Inr (key i = k)"
    and k: "k \<notin> key ` I" and room: "card I + card (deleted_slots t) < slot_count t"
  shows "find_loop (H k) eq t (stbds_probe_position (H k) (slot_count t) l) STBDS_BUCKET_LENGTH = Some (Inr (-1))
     \<and> (\<exists>j tb. put_loop (H k) eq t (stbds_probe_position (H k) (slot_count t) l) STBDS_BUCKET_LENGTH (-1)
           = Some (Inr (Absent (probe (slot_count t) (unat (H k)) j) tb))
         \<and> j < slot_count t \<and> hash_at (probe (slot_count t) (unat (H k)) j) t = 0
         \<and> (\<forall>j' < j. hash_at (probe (slot_count t) (unat (H k)) j') t \<noteq> 0)
         \<and> (tb = -1 \<or> (\<exists>j' < j. tb = int (probe (slot_count t) (unat (H k)) j')
              \<and> index_at (probe (slot_count t) (unat (H k)) j') t = -2)))"
proof -
  let ?n = "slot_count t" and ?f = "probe (slot_count t) (unat (H k))"
  obtain j where j: "j < ?n" "hash_at (?f j) t = 0" "\<forall>j' < j. hash_at (?f j') t \<noteq> 0"
    using first_empty [OF ok room] by metis
  have before: "\<forall>q \<in> set (map ?f [0..<j]). hash_at q t \<noteq> 0 \<and> (hash_at q t = H k \<longrightarrow> eq (index_at q t) = Inr False)"
    by (rule before_stop [OF ok eq j(3)]) (use k in auto)
  note path = path_split [OF j(1), of ?f]
  have 1: "find_along (H k) eq t (map ?f [0..<?n]) = Inr (Some (-1))"
    unfolding path by (rule find_along_vacant [OF before j(2) hash_ne(1)])
  obtain tb where 2: "put_along (H k) eq t (map ?f [0..<?n]) (-1) = Inr (Put_vacant (?f j) tb)"
    and tb: "tb = -1 \<or> (\<exists>q \<in> set (map ?f [0..<j]). tb = int q \<and> index_at q t = -2)"
    unfolding path using put_along_vacant [OF before j(2) hash_ne(1)] by blast
  show ?thesis
    using searches(1) [OF slots_okD(1) [OF ok] refl refl 1, of l] searches(3) [OF slots_okD(1) [OF ok] refl refl 2, of l]
      j tb by (auto simp: outcome_of_step_def)
qed

end

end
