(* ===== verification/HashInv.thy ===== *)
theory HashInv
  imports HashSlots
begin

text \<open>
  The changes of the slots: a key goes into a free slot, a slot is marked as deleted, the index
  of a slot changes, and a table is copied into a new one. Each keeps \<open>slots_ok\<close>; the copy has
  no deleted slots.
\<close>

section \<open>Writing one slot\<close>

lemma slots_okI:
  assumes "index_wf t"
    "\<And>p. p < slot_count t \<Longrightarrow> hash_at p t = 0 \<and> index_at p t = -1 \<or> hash_at p t = 1 \<and> index_at p t = -2
       \<or> (\<exists>i \<in> I. index_at p t = int i \<and> hash_at p t = H (key i))"
    "\<And>i. i \<in> I \<Longrightarrow> \<exists>j < slot_count t. index_at (probe (slot_count t) (unat (H (key i))) j) t = int i
       \<and> (\<forall>j' < j. hash_at (probe (slot_count t) (unat (H (key i))) j') t \<noteq> 0)"
    "\<And>p q. p < slot_count t \<Longrightarrow> q < slot_count t \<Longrightarrow> 0 \<le> index_at p t \<Longrightarrow> index_at p t = index_at q t \<Longrightarrow> p = q"
  shows "slots_ok H key I t"
  using assms by (simp add: slots_ok_def)

text \<open>No slot becomes empty, and what is not in this slot stays where it is.\<close>

lemma placed_write:
  assumes ok: "slots_ok H key I t" and "i \<in> I" and pos: "pos < slot_count t" "index_at pos t \<noteq> int i" and h: "h \<noteq> 0"
  shows "\<exists>j < slot_count t. index_at (probe (slot_count t) (unat (H (key i))) j) (write_slot pos h x t) = int i
       \<and> (\<forall>j' < j. hash_at (probe (slot_count t) (unat (H (key i))) j') (write_slot pos h x t) \<noteq> 0)"
proof -
  obtain j where j: "j < slot_count t" "index_at (probe (slot_count t) (unat (H (key i))) j) t = int i"
    "\<forall>j' < j. hash_at (probe (slot_count t) (unat (H (key i))) j') t \<noteq> 0"
    using slots_ok_placed [OF ok assms(2)] by blast
  note at = write_slot_at [OF slots_okD(1) [OF ok] pos(1) probe_in_range [OF slots_okD(1) [OF ok]]]
  have "index_at (probe (slot_count t) (unat (H (key i))) j) (write_slot pos h x t) = int i"
    using j(2) pos(2) by (auto simp: at)
  moreover have "\<forall>j' < j. hash_at (probe (slot_count t) (unat (H (key i))) j') (write_slot pos h x t) \<noteq> 0"
    using j(3) h by (simp add: at)
  ultimately show ?thesis using j(1) by blast
qed

lemma slots_ok_insert:
  assumes ok: "slots_ok H key I t" and new: "i0 \<notin> I" and h: "H (key i0) \<noteq> 0"
    and pos: "pos = probe (slot_count t) (unat (H (key i0))) j" "j < slot_count t" "index_at pos t < 0"
      "\<forall>j' < j. hash_at (probe (slot_count t) (unat (H (key i0))) j') t \<noteq> 0"
  shows "slots_ok H key (insert i0 I) (write_slot pos (H (key i0)) (int i0) t)"
proof (rule slots_okI)
  note wf = slots_okD(1) [OF ok]
  have lt: "pos < slot_count t" unfolding pos(1) by (rule probe_in_range [OF wf])
  note at = write_slot_at [OF wf lt]
  show "index_wf (write_slot pos (H (key i0)) (int i0) t)" by (rule write_slot_wf [OF wf lt])
  fix p assume p: "p < slot_count (write_slot pos (H (key i0)) (int i0) t)"
  show "hash_at p (write_slot pos (H (key i0)) (int i0) t) = 0 \<and> index_at p (write_slot pos (H (key i0)) (int i0) t) = -1
      \<or> hash_at p (write_slot pos (H (key i0)) (int i0) t) = 1 \<and> index_at p (write_slot pos (H (key i0)) (int i0) t) = -2
      \<or> (\<exists>i \<in> insert i0 I. index_at p (write_slot pos (H (key i0)) (int i0) t) = int i
           \<and> hash_at p (write_slot pos (H (key i0)) (int i0) t) = H (key i))"
    using slots_okD(2) [OF ok, of p] p by (cases "p = pos") (auto simp: at)
  have old: "index_at q t \<noteq> int i0" if "q < slot_count t" for q
    using slots_okD(2) [OF ok that] new by auto
  fix q assume "q < slot_count (write_slot pos (H (key i0)) (int i0) t)"
    "0 \<le> index_at p (write_slot pos (H (key i0)) (int i0) t)"
    "index_at p (write_slot pos (H (key i0)) (int i0) t) = index_at q (write_slot pos (H (key i0)) (int i0) t)"
  then show "p = q"
    using p slots_okD(3) [OF ok, of p q] old [of p] old [of q] by (auto simp: at split: if_splits)
next
  note wf = slots_okD(1) [OF ok]
  have lt: "pos < slot_count t" unfolding pos(1) by (rule probe_in_range [OF wf])
  fix i assume "i \<in> insert i0 I"
  then show "\<exists>j < slot_count (write_slot pos (H (key i0)) (int i0) t).
      index_at (probe (slot_count (write_slot pos (H (key i0)) (int i0) t)) (unat (H (key i))) j) (write_slot pos (H (key i0)) (int i0) t) = int i
      \<and> (\<forall>j' < j. hash_at (probe (slot_count (write_slot pos (H (key i0)) (int i0) t)) (unat (H (key i))) j') (write_slot pos (H (key i0)) (int i0) t) \<noteq> 0)"
  proof
    assume "i = i0"
    moreover have "index_at (probe (slot_count t) (unat (H (key i0))) j) (write_slot pos (H (key i0)) (int i0) t) = int i0"
      using write_slot_at(2) [OF wf lt lt] by (simp add: pos(1))
    moreover have "\<forall>j' < j. hash_at (probe (slot_count t) (unat (H (key i0))) j') (write_slot pos (H (key i0)) (int i0) t) \<noteq> 0"
      using pos(4) h by (simp add: write_slot_at [OF wf lt probe_in_range [OF wf]])
    ultimately show ?thesis using pos(2) by auto
  next
    assume "i \<in> I"
    with placed_write [OF ok this lt _ h, of "int i0"] pos(3) show ?thesis by simp
  qed
qed

lemma slots_ok_delete:
  assumes ok: "slots_ok H key I t" and pos: "pos < slot_count t" "index_at pos t = int i0"
  shows "slots_ok H key (I - {i0}) (write_slot pos 1 (-2) t)"
proof (rule slots_okI)
  note wf = slots_okD(1) [OF ok]
  note at = write_slot_at [OF wf pos(1)]
  show "index_wf (write_slot pos 1 (-2) t)" by (rule write_slot_wf [OF wf pos(1)])
  fix p assume p: "p < slot_count (write_slot pos 1 (-2) t)"
  have "index_at p t \<noteq> int i0" if "p \<noteq> pos" using slots_okD(3) [OF ok, of p pos] p pos that by auto
  then show "hash_at p (write_slot pos 1 (-2) t) = 0 \<and> index_at p (write_slot pos 1 (-2) t) = -1
      \<or> hash_at p (write_slot pos 1 (-2) t) = 1 \<and> index_at p (write_slot pos 1 (-2) t) = -2
      \<or> (\<exists>i \<in> I - {i0}. index_at p (write_slot pos 1 (-2) t) = int i \<and> hash_at p (write_slot pos 1 (-2) t) = H (key i))"
    using slots_okD(2) [OF ok, of p] p by (cases "p = pos") (auto simp: at)
  fix q assume "q < slot_count (write_slot pos 1 (-2) t)" "0 \<le> index_at p (write_slot pos 1 (-2) t)"
    "index_at p (write_slot pos 1 (-2) t) = index_at q (write_slot pos 1 (-2) t)"
  then show "p = q"
    using p slots_okD(3) [OF ok, of p q] by (auto simp: at split: if_splits)
next
  fix i assume "i \<in> I - {i0}"
  then show "\<exists>j < slot_count (write_slot pos 1 (-2) t).
      index_at (probe (slot_count (write_slot pos 1 (-2) t)) (unat (H (key i))) j) (write_slot pos 1 (-2) t) = int i
      \<and> (\<forall>j' < j. hash_at (probe (slot_count (write_slot pos 1 (-2) t)) (unat (H (key i))) j') (write_slot pos 1 (-2) t) \<noteq> 0)"
    using placed_write [OF ok, of i pos 1 "-2"] pos by simp
qed

text \<open>The deleted slots after a write.\<close>

lemma deleted_write:
  assumes "index_wf t" "pos < slot_count t"
  shows "deleted_slots (write_slot pos h x t) = (if x = -2 then insert pos (deleted_slots t) else deleted_slots t - {pos})"
  using assms by (auto simp: deleted_slots_def write_slot_at split: if_splits)

lemma write_slot_twice:
  assumes "index_wf t" "pos < slot_count t"
  shows "write_slot pos h x (write_slot pos h' x' t) = write_slot pos h x t"
  using index_wf_bucket [OF assms] by (simp add: write_slot_def Let_def)

text \<open>A new index for a slot in use: as if it were deleted, and its key put there again.\<close>

lemma slots_ok_reindex:
  assumes ok: "slots_ok H key I t" and pos: "pos < slot_count t" "index_at pos t = int i" and i: "i \<in> I" "i' \<notin> I"
    and keys: "key' i' = key i" "\<And>l. l \<in> I - {i} \<Longrightarrow> key' l = key l" and h: "H (key i) \<noteq> 0"
  shows "slots_ok H key' (insert i' (I - {i})) (write_slot pos (hash_at pos t) (int i') t)"
    "deleted_slots (write_slot pos (hash_at pos t) (int i') t) = deleted_slots t"
proof -
  note wf = slots_okD(1) [OF ok]
  let ?u = "write_slot pos 1 (-2) t"
  obtain j where j: "j < slot_count t" "index_at (probe (slot_count t) (unat (H (key i))) j) t = int i"
    "\<forall>j' < j. hash_at (probe (slot_count t) (unat (H (key i))) j') t \<noteq> 0"
    using slots_ok_placed [OF ok i(1)] by blast
  have p: "pos = probe (slot_count t) (unat (H (key i))) j"
    using slots_okD(3) [OF ok pos(1) probe_in_range [OF wf]] pos(2) j(2) by simp
  have hash: "hash_at pos t = H (key i)" using slots_okD(2) [OF ok pos(1)] pos(2) by auto
  have del: "slots_ok H key' (I - {i}) ?u"
    using slots_ok_delete [OF ok pos] slots_ok_keys [OF keys(2), where H = H and t = ?u] by (simp only:)
  have "slots_ok H key' (insert i' (I - {i})) (write_slot pos (H (key' i')) (int i') ?u)"
  proof (rule slots_ok_insert [OF del, where j = j])
    show "i' \<notin> I - {i}" using i(2) by blast
    show "H (key' i') \<noteq> 0" using h keys(1) by simp
    show "pos = probe (slot_count ?u) (unat (H (key' i'))) j" using p keys(1) by simp
    show "j < slot_count ?u" using j(1) by simp
    show "index_at pos ?u < 0" using write_slot_at [OF wf pos(1) pos(1)] by simp
    show "\<forall>j' < j. hash_at (probe (slot_count ?u) (unat (H (key' i'))) j') ?u \<noteq> 0"
      using j(3) keys(1) by (simp add: write_slot_at [OF wf pos(1) probe_in_range [OF wf]])
  qed
  then show "slots_ok H key' (insert i' (I - {i})) (write_slot pos (hash_at pos t) (int i') t)"
    using keys(1) by (simp add: write_slot_twice [OF wf pos(1)] hash)
  have "pos \<notin> deleted_slots t" using pos(2) by (simp add: deleted_slots_def)
  then show "deleted_slots (write_slot pos (hash_at pos t) (int i') t) = deleted_slots t"
    by (simp add: deleted_write [OF wf pos(1)])
qed

section \<open>Copying a table\<close>

text \<open>A new table is empty.\<close>

lemma fresh_slots:
  assumes "3 \<le> k"
  shows "slots_ok H key {} (fresh_index (2 ^ k) sd strs)" "deleted_slots (fresh_index (2 ^ k) sd strs) = {}"
    "\<And>p. p < 2 ^ k \<Longrightarrow> hash_at p (fresh_index (2 ^ k) sd strs) = 0"
proof -
  let ?t = "fresh_index (2 ^ k) sd strs"
  have wf: "index_wf ?t"
    using assms by (auto simp: index_wf_def fresh_index_def bucket_wf_def empty_bucket_def STBDS_BUCKET_LENGTH_def)
  have at: "hash_at p ?t = 0 \<and> index_at p ?t = -1" if "p < 2 ^ k" for p
  proof -
    have "p div 8 < 2 ^ k div 8" using index_wf_bucket(1) [OF wf, of p] that by (simp add: fresh_index_def)
    moreover have "p mod 8 < 8" by simp
    ultimately show ?thesis
      by (simp add: hash_at_def index_at_def bucket_of_def fresh_index_def empty_bucket_def STBDS_BUCKET_LENGTH_def
          STBDS_HASH_EMPTY_def STBDS_INDEX_EMPTY_def)
  qed
  have n: "slot_count ?t = 2 ^ k" by (simp add: fresh_index_def)
  show "slots_ok H key {} ?t" by (rule slots_okI) (use wf at n in auto)
  show "deleted_slots ?t = {}" using at n by (auto simp: deleted_slots_def)
  show "\<And>p. p < 2 ^ k \<Longrightarrow> hash_at p ?t = 0" using at by blast
qed

text \<open>The slots in the order of the buckets.\<close>

lemma concat_blocks:
  "\<forall>b \<in> set bs. length (f b) = 8 \<Longrightarrow> concat (map f bs) = map (\<lambda>p. f (bs ! (p div 8)) ! (p mod 8)) [0..<8 * length bs]"
proof (induction bs rule: rev_induct)
  case (snoc b bs)
  have "[0..<8 * length (bs @ [b])] = [0..<8 * length bs] @ map (\<lambda>i. 8 * length bs + i) [0..<8]"
    using upt_add_eq_append [of 0 "8 * length bs" 8] map_add_upt [of "8 * length bs" 8] by (simp add: add.commute)
  moreover have "map (\<lambda>p. f ((bs @ [b]) ! (p div 8)) ! (p mod 8)) [0..<8 * length bs]
      = map (\<lambda>p. f (bs ! (p div 8)) ! (p mod 8)) [0..<8 * length bs]"
    by (rule map_cong [OF refl]) (simp add: nth_append less_mult_imp_div_less mult.commute)
  moreover have "map (\<lambda>i. f ((bs @ [b]) ! ((8 * length bs + i) div 8)) ! ((8 * length bs + i) mod 8)) [0..<8]
      = map (\<lambda>i. f b ! i) [0..<8]"
    by (rule map_cong [OF refl]) simp
  moreover have "map (\<lambda>i. f b ! i) [0..<8] = f b"
    using snoc.prems map_nth [of "f b"] by simp
  ultimately show ?case using snoc by (simp add: comp_def)
qed simp

lemma all_slots_at:
  assumes "index_wf t" shows "all_slots t = map (\<lambda>p. (hash_at p t, index_at p t)) [0..<slot_count t]"
proof -
  have len: "length (storage t) = slot_count t div 8" "\<forall>b \<in> set (storage t). bucket_wf b"
    using assms by (simp_all add: index_wf_def)
  have n: "8 * length (storage t) = slot_count t" using index_wf_count [OF assms] len(1) by simp
  have "all_slots t = map (\<lambda>p. zip (bucket_hash (storage t ! (p div 8))) (bucket_index (storage t ! (p div 8))) ! (p mod 8))
      [0..<8 * length (storage t)]"
    unfolding all_slots_def by (rule concat_blocks) (use len(2) in \<open>auto simp: bucket_wf_def\<close>)
  also have "\<dots> = map (\<lambda>p. (hash_at p t, index_at p t)) [0..<slot_count t]"
    unfolding n using index_wf_bucket(2) [OF assms]
    by (intro map_cong [OF refl]) (auto simp: hash_at_def index_at_def bucket_of_def bucket_wf_def)
  finally show ?thesis .
qed

text \<open>The indices in use of a list of slots.\<close>

definition in_use :: "(u64 \<times> int) list \<Rightarrow> nat list" where
  "in_use olds = map (\<lambda>(h, i). nat i) (filter (\<lambda>(h, i). 0 \<le> i) olds)"

lemma in_use_simps [simp]:
  "in_use [] = []" "in_use ((h, i) # olds) = (if 0 \<le> i then nat i # in_use olds else in_use olds)"
  by (simp_all add: in_use_def)

lemma in_use_all_slots:
  assumes ok: "slots_ok H key I t"
  shows "set (in_use (all_slots t)) = I" "distinct (in_use (all_slots t))" "length (in_use (all_slots t)) = card I"
    "\<forall>(h, i) \<in> set (all_slots t). 0 \<le> i \<longrightarrow> h = H (key (nat i))"
proof -
  note wf = slots_okD(1) [OF ok]
  have eq: "in_use (all_slots t) = map (\<lambda>p. nat (index_at p t)) (filter (\<lambda>p. 0 \<le> index_at p t) [0..<slot_count t])"
    by (simp add: all_slots_at [OF wf] in_use_def filter_map comp_def)
  have "inj_on (\<lambda>p. nat (index_at p t)) {p. p < slot_count t \<and> 0 \<le> index_at p t}"
    using slots_okD(3) [OF ok] by (intro inj_onI) (simp add: eq_nat_nat_iff)
  then show d: "distinct (in_use (all_slots t))"
    unfolding eq distinct_map by (auto simp: inj_on_def)
  have in_I: "nat (index_at p t) \<in> I" if "p < slot_count t" "0 \<le> index_at p t" for p
    using slots_okD(2) [OF ok that(1)] that(2) by auto
  have on: "i \<in> set (in_use (all_slots t))" if i: "i \<in> I" for i
  proof -
    obtain j where j: "index_at (probe (slot_count t) (unat (H (key i))) j) t = int i"
      using slots_ok_placed [OF ok i] by blast
    have "probe (slot_count t) (unat (H (key i))) j \<in> {p. p < slot_count t \<and> 0 \<le> index_at p t}"
      using probe_in_range [OF wf] j by simp
    from imageI [OF this, of "\<lambda>p. nat (index_at p t)"] show ?thesis by (simp add: eq j)
  qed
  show s: "set (in_use (all_slots t)) = I"
    using in_I on by (intro equalityI subsetI) (auto simp: eq)
  show "length (in_use (all_slots t)) = card I" using distinct_card [OF d] s by simp
  show "\<forall>(h, i) \<in> set (all_slots t). 0 \<le> i \<longrightarrow> h = H (key (nat i))"
    using slots_okD(2) [OF ok] by (fastforce simp: all_slots_at [OF wf])
qed

lemma write_slot_storage: "write_slot p h i t = t\<lparr>storage := storage (write_slot p h i t)\<rparr>"
  by (simp add: write_slot_def Let_def)

lemma storage_trans:
  "(u :: stbds_hash_index) = t\<lparr>storage := x\<rparr> \<Longrightarrow> v = u\<lparr>storage := y\<rparr> \<Longrightarrow> v = t\<lparr>storage := y\<rparr>"
  by simp

context key_hash
begin

lemma rehash_slot_ok:
  assumes ok: "slots_ok H key I t" and del: "deleted_slots t = {}" and room: "card I < slot_count t"
    and i: "0 \<le> i" "nat i \<notin> I" "h = H (key (nat i))"
  shows "\<exists>u. rehash_slot h i t = Some u \<and> slots_ok H key (insert (nat i) I) u \<and> deleted_slots u = {}
     \<and> u = t\<lparr>storage := storage u\<rparr>"
proof -
  note wf = slots_okD(1) [OF ok]
  obtain j where j: "j < slot_count t" "hash_at (probe (slot_count t) (unat h) j) t = 0"
    "\<forall>j' < j. hash_at (probe (slot_count t) (unat h) j') t \<noteq> 0"
    using first_empty [OF ok, of "unat h"] room del by auto
  let ?p = "probe (slot_count t) (unat h) j"
  have "empty_along t (map (probe (slot_count t) (unat h)) [0..<slot_count t]) = Some ?p"
    unfolding path_split [OF j(1)] by (rule empty_along_first) (use j in auto)
  from searches(2) [OF wf refl refl this]
  have eq: "rehash_slot h i t = Some (write_slot ?p h i t)"
    using i(1) by (simp add: rehash_slot_def STBDS_INDEX_IN_USE_def)
  have neg: "index_at ?p t < 0"
    using slots_okD(2) [OF ok probe_in_range [OF wf], of "unat h" j] j(2) hash_ne(1) by auto
  have "slots_ok H key (insert (nat i) I) (write_slot ?p h i t)"
    using slots_ok_insert [OF ok i(2) hash_ne(1), of ?p j] i j neg by simp
  moreover have "deleted_slots (write_slot ?p h i t) = {}"
    using i(1) by (simp add: deleted_write [OF wf probe_in_range [OF wf]] del)
  ultimately show ?thesis using eq write_slot_storage by blast
qed

lemma rehash_slots_ok:
  assumes "slots_ok H key I t" "deleted_slots t = {}" "card I + length (in_use olds) \<le> slot_count t"
    "distinct (in_use olds)" "set (in_use olds) \<inter> I = {}"
    "\<forall>(h, i) \<in> set olds. 0 \<le> i \<longrightarrow> h = H (key (nat i))"
  shows "\<exists>u. rehash_slots olds t = Some u \<and> slots_ok H key (I \<union> set (in_use olds)) u \<and> deleted_slots u = {}
     \<and> u = t\<lparr>storage := storage u\<rparr>"
  using assms
proof (induction olds arbitrary: I t)
  case (Cons old olds)
  obtain h i where old: "old = (h, i)" by (cases old)
  show ?case
  proof (cases "0 \<le> i")
    case True
    have "card I < slot_count t" "nat i \<notin> I" "h = H (key (nat i))" using Cons.prems True by (auto simp: old)
    from rehash_slot_ok [OF Cons.prems(1,2) this(1) True this(2,3)] obtain u where
      u: "rehash_slot h i t = Some u" "slots_ok H key (insert (nat i) I) u" "deleted_slots u = {}" "u = t\<lparr>storage := storage u\<rparr>"
      by blast
    have n: "slot_count u = slot_count t" by (subst u(4)) simp
    have c: "card (insert (nat i) I) + length (in_use olds) \<le> slot_count u"
      using Cons.prems(3) True in_use_card(2) [OF Cons.prems(1)] \<open>nat i \<notin> I\<close> n by (simp add: old)
    have d: "distinct (in_use olds)" "set (in_use olds) \<inter> insert (nat i) I = {}"
      "\<forall>(h, i) \<in> set olds. 0 \<le> i \<longrightarrow> h = H (key (nat i))"
      using Cons.prems(4,5,6) True by (auto simp: old)
    from Cons.IH [OF u(2,3) c d] obtain v where
      v: "rehash_slots olds u = Some v" "slots_ok H key (insert (nat i) I \<union> set (in_use olds)) v" "deleted_slots v = {}"
        "v = u\<lparr>storage := storage v\<rparr>" by blast
    have "v = t\<lparr>storage := storage v\<rparr>" by (rule storage_trans [OF u(4) v(4)])
    with u(1) v True show ?thesis by (simp add: old)
  next
    case False
    then have "rehash_slot h i t = Some t" by (simp add: rehash_slot_def STBDS_INDEX_IN_USE_def)
    with Cons.IH [OF Cons.prems(1,2)] Cons.prems(3-6) False show ?thesis by (simp add: old)
  qed
qed simp

text \<open>A copy has the same keys and no deleted slots.\<close>

lemma make_hash_index_copy:
  assumes ok: "slots_ok H key I ot" and n: "3 \<le> k" "n = 2 ^ k" "card I \<le> n"
  shows "\<exists>u. stbds_make_hash_index n (Some ot) s = Some (u, s) \<and> slots_ok H key I u \<and> deleted_slots u = {}
     \<and> u = (fresh_index n (hi_seed ot) (hi_string ot))\<lparr>used_count := used_count ot, storage := storage u\<rparr>"
proof -
  let ?f = "fresh_index n (hi_seed ot) (hi_string ot)"
  let ?t = "?f\<lparr>used_count := used_count ot\<rparr>"
  have same: "same_slots ?t ?f" by (simp add: same_slots_def)
  have f: "slots_ok H key {} ?t" "deleted_slots ?t = {}"
    using fresh_slots(1,2) [OF n(1)] slots_ok_cong [OF same] same_slots_simps [OF same]
    by (simp_all add: n(2) deleted_slots_def)
  have c: "card ({} :: nat set) + length (in_use (all_slots ot)) \<le> slot_count ?t"
    using n(3) in_use_all_slots(3) [OF ok] by (simp add: fresh_index_def)
  from rehash_slots_ok [OF f c in_use_all_slots(2) [OF ok] _ in_use_all_slots(4) [OF ok]] obtain u where
    u: "rehash_slots (all_slots ot) ?t = Some u" "slots_ok H key I u" "deleted_slots u = {}" "u = ?t\<lparr>storage := storage u\<rparr>"
    by (auto simp: in_use_all_slots(1) [OF ok])
  from u(1) have "stbds_make_hash_index n (Some ot) s = Some (u, s)" by (simp add: stbds_make_hash_index_def)
  with u show ?thesis by blast
qed

end

end
