(* ===== verification/HashOps.thy ===== *)
theory HashOps
  imports HashInv
begin

text \<open>
  The operations of the hash maps keep the invariant \<open>index_ok\<close>: the slots in use are those of
  the elements, no key occurs twice, the counters count, and the thresholds leave an empty slot
  for every search to stop at.
\<close>

section \<open>The invariant of a map\<close>

definition elem_key :: "'v hm_elem list \<Rightarrow> nat \<Rightarrow> u8 list" where
  "elem_key es i = hm_key (es ! Suc i)"

definition thresholds_ok :: "stbds_hash_index \<Rightarrow> bool" where
  "thresholds_ok t \<longleftrightarrow> used_count_threshold t = slot_count t - slot_count t div 4
     \<and> tombstone_count_threshold t = slot_count t div 8 + slot_count t div 16
     \<and> used_count_shrink_threshold t = (if slot_count t \<le> 8 then 0 else slot_count t div 4)"

definition index_core :: "hm_mode \<Rightarrow> 'v hm_elem list \<Rightarrow> stbds_hash_index \<Rightarrow> bool" where
  "index_core mode es t \<longleftrightarrow>
     slots_ok (\<lambda>k. hash_of_key mode k (hi_seed t)) (elem_key es) {..<length es - 1} t
     \<and> inj_on (elem_key es) {..<length es - 1} \<and> thresholds_ok t
     \<and> used_count t = length es - 1 \<and> used_count t \<le> used_count_threshold t
     \<and> tombstone_count t = card (deleted_slots t)"

definition index_ok :: "hm_mode \<Rightarrow> 'v hm_elem list \<Rightarrow> stbds_hash_index \<Rightarrow> bool" where
  "index_ok mode es t \<longleftrightarrow> index_core mode es t \<and> tombstone_count t \<le> tombstone_count_threshold t"

definition hm_ok :: "hm_mode \<Rightarrow> 'v hm_array \<Rightarrow> bool" where
  "hm_ok mode a \<longleftrightarrow> elems a \<noteq> []
     \<and> (case hash_table a of None \<Rightarrow> length (elems a) = 1 | Some t \<Rightarrow> index_ok mode (elems a) t)"

lemma index_coreD:
  assumes "index_core mode es t"
  shows "slots_ok (\<lambda>k. hash_of_key mode k (hi_seed t)) (elem_key es) {..<length es - 1} t"
    "inj_on (elem_key es) {..<length es - 1}" "thresholds_ok t" "used_count t = length es - 1"
    "used_count t \<le> used_count_threshold t" "tombstone_count t = card (deleted_slots t)"
  using assms by (simp_all add: index_core_def)

lemma index_ok_core: "index_ok mode es t \<Longrightarrow> index_core mode es t"
  by (simp add: index_ok_def)

lemmas index_okD = index_coreD [OF index_ok_core]

lemma index_ok_tombs: "index_ok mode es t \<Longrightarrow> tombstone_count t \<le> tombstone_count_threshold t"
  by (simp add: index_ok_def)

lemma fresh_fields [simp]:
  "slot_count (fresh_index n sd strs) = n" "used_count (fresh_index n sd strs) = 0"
  "tombstone_count (fresh_index n sd strs) = 0" "hi_seed (fresh_index n sd strs) = sd"
  "hi_string (fresh_index n sd strs) = strs"
  by (simp_all add: fresh_index_def)

lemma fresh_thresholds: "thresholds_ok (fresh_index n sd strs)"
  by (simp add: thresholds_ok_def fresh_index_def drop_bit_eq_div STBDS_BUCKET_LENGTH_def)

lemma thresholds_room:
  assumes "thresholds_ok t" "index_wf t"
  shows "used_count_threshold t + tombstone_count_threshold t < slot_count t"
proof -
  obtain m where m: "slot_count t = 8 * m" "0 < m" using index_wf_count [OF assms(2)] by (auto elim!: dvdE)
  have "8 * m div 4 = 2 * m" "8 * m div 8 = m" "8 * m div 16 = m div 2" by simp_all
  moreover have "m - 0 + m div 2 < 2 * m" using m(2) by simp
  ultimately show ?thesis using assms(1) m(1) by (simp add: thresholds_ok_def)
qed

lemma index_ok_room:
  assumes "index_ok mode es t"
  shows "card {..<length es - 1} + card (deleted_slots t) < slot_count t"
  using thresholds_room [OF index_okD(3) [OF assms] slots_okD(1) [OF index_okD(1) [OF assms]]] index_okD(4-6) [OF assms] index_ok_tombs [OF assms]
  by simp

interpretation kh: key_hash "\<lambda>k. hash_of_key mode k sd" for mode sd
proof
  fix k
  have "2 \<le> h + 2" if "h < 2" for h :: u64
  proof -
    have "unat h < 2" using that by (simp add: word_less_nat_alt)
    then have "unat (h + 2) = unat h + 2" by (simp add: unat_word_ariths)
    then show ?thesis by (simp add: word_le_nat_alt)
  qed
  then show "2 \<le> hash_of_key mode k sd" by (simp add: hash_of_key_def Let_def linorder_not_less)
qed

section \<open>Searching\<close>

lemma is_key_equal:
  "I \<subseteq> {..<length es - 1} \<Longrightarrow> \<forall>i \<in> I. stbds_is_key_equal es k (int i) = Inr (elem_key es i = k)"
  by (auto simp: stbds_is_key_equal_def elem_key_def nat_add_distrib)

lemma find_slot_present:
  assumes "slots_ok (\<lambda>k. hash_of_key mode k (hi_seed t)) (elem_key es) I t" "I \<subseteq> {..<length es - 1}" "inj_on (elem_key es) I" "i \<in> I"
  shows "\<exists>p < slot_count t. index_at p t = int i \<and> stbds_hm_find_slot mode (elem_key es i) es t = Some (Inr (int p))"
  using kh.search_present [OF assms(1) is_key_equal [OF assms(2)] assms(4) refl assms(3), of "slot_count_log2 t"]
  by (auto simp: stbds_hm_find_slot_def Let_def)

lemma find_slot_absent:
  assumes "slots_ok (\<lambda>k. hash_of_key mode k (hi_seed t)) (elem_key es) I t" "I \<subseteq> {..<length es - 1}" "k \<notin> elem_key es ` I"
    "card I + card (deleted_slots t) < slot_count t"
  shows "stbds_hm_find_slot mode k es t = Some (Inr (-1))"
  using kh.search_absent [OF assms(1) is_key_equal [OF assms(2)] assms(3,4), of "slot_count_log2 t"]
  by (simp add: stbds_hm_find_slot_def Let_def)

lemma othen_simps [simp]:
  "othen (Some (Inr x)) f = f x" "othen (Some (Inl e)) f = Some (Inl e)" "othen None f = None"
  by (simp_all add: othen_def)

text \<open>Reading a key.\<close>

lemma hmget_key_present:
  assumes "hm_ok mode a" "i < length (elems a) - 1"
  shows "stbds_hmget_key E mode (elem_key (elems a) i) (Some a) = Some (Inr (a\<lparr>temp := int i\<rparr>))"
proof -
  obtain t where t: "hash_table a = Some t" "index_ok mode (elems a) t"
    using assms by (auto simp: hm_ok_def split: option.splits)
  have "i \<in> {..<length (elems a) - 1}" using assms(2) by simp
  from find_slot_present [OF index_okD(1) [OF t(2)] subset_refl index_okD(2) [OF t(2)] this]
  obtain p where "index_at p t = int i" "stbds_hm_find_slot mode (elem_key (elems a) i) (elems a) t = Some (Inr (int p))" by blast
  then show ?thesis using t(1) by (simp add: stbds_hmget_key_def stbds_hmget_key_ts_def)
qed

lemma hmget_key_absent:
  assumes "hm_ok mode a" "k \<notin> elem_key (elems a) ` {..<length (elems a) - 1}"
  shows "stbds_hmget_key E mode k (Some a) = Some (Inr (a\<lparr>temp := -1\<rparr>))"
proof (cases "hash_table a")
  case (Some t)
  then have ok: "index_ok mode (elems a) t" using assms(1) by (simp add: hm_ok_def)
  show ?thesis
    using find_slot_absent [OF index_okD(1) [OF ok] subset_refl assms(2) index_ok_room [OF ok]] Some
    by (simp add: stbds_hmget_key_def stbds_hmget_key_ts_def STBDS_INDEX_EMPTY_def)
qed (simp add: stbds_hmget_key_def stbds_hmget_key_ts_def)

section \<open>The table to put into\<close>

lemma copy_index_ok:
  assumes ok: "index_core mode es t" and n: "3 \<le> k" "n = 2 ^ k" "length es - 1 \<le> n - n div 4"
  shows "\<exists>u. stbds_make_hash_index n (Some t) s = Some (u, s) \<and> index_ok mode es u \<and> slot_count u = n \<and> used_count u = used_count t"
proof -
  have "card {..<length es - 1} \<le> n" using n(3) by simp
  from kh.make_hash_index_copy [OF index_coreD(1) [OF ok] n(1,2) this, of s] obtain u where
    u: "stbds_make_hash_index n (Some t) s = Some (u, s)"
      "slots_ok (\<lambda>k. hash_of_key mode k (hi_seed t)) (elem_key es) {..<length es - 1} u" "deleted_slots u = {}"
      "u = (fresh_index n (hi_seed t) (hi_string t))\<lparr>used_count := used_count t, storage := storage u\<rparr>" by blast
  have f: "hi_seed u = hi_seed t" "slot_count u = n" "used_count u = used_count t" "tombstone_count u = 0"
    by (subst u(4), simp)+
  have th: "thresholds_ok u"
    by (subst u(4)) (use fresh_thresholds [of n] in \<open>simp add: thresholds_ok_def\<close>)
  then have "index_ok mode es u"
    using u(2,3) n(3) index_coreD(2,4) [OF ok] f by (simp add: index_ok_def index_core_def thresholds_ok_def)
  with u(1) f show ?thesis by blast
qed

lemma first_index_ok:
  assumes "length es = 1"
  shows "index_ok mode es ((fresh_index 8 sd strs)\<lparr>hi_string := strs'\<rparr>)"
proof -
  let ?f = "fresh_index 8 sd strs"
  have same: "same_slots (?f\<lparr>hi_string := strs'\<rparr>) ?f" by (simp add: same_slots_def)
  have "slots_ok H key {} ?f" "deleted_slots ?f = {}" for H key using fresh_slots(1,2) [of 3] by simp_all
  then have "slots_ok H key {} (?f\<lparr>hi_string := strs'\<rparr>)" "deleted_slots (?f\<lparr>hi_string := strs'\<rparr>) = {}" for H key
    using slots_ok_cong [OF same] same_slots_simps [OF same] by (simp_all add: deleted_slots_def)
  with assms fresh_thresholds [of 8 sd strs] show ?thesis by (simp add: index_ok_def index_core_def thresholds_ok_def)
qed

lemma grown_table_ok:
  assumes "hm_ok mode a"
  shows "\<exists>t s'. grown_table mode (hash_table a) s = Some (t, s') \<and> index_ok mode (elems a) t
     \<and> used_count t < used_count_threshold t"
proof (cases "hash_table a")
  case None
  with assms have len: "length (elems a) = 1" by (simp add: hm_ok_def)
  show ?thesis
    using first_index_ok [OF len] None
    by (simp add: grown_table_def stbds_make_hash_index_def STBDS_BUCKET_LENGTH_def) (simp add: fresh_index_def)
next
  case (Some t)
  then have ok: "index_ok mode (elems a) t" using assms by (simp add: hm_ok_def)
  show ?thesis
  proof (cases "used_count_threshold t \<le> used_count t")
    case True
    obtain k where k: "3 \<le> k" "slot_count t = 2 ^ k" using index_wf_pow [OF slots_okD(1) [OF index_okD(1) [OF ok]]] by blast
    obtain m where m: "slot_count t = 8 * m" "0 < m"
      using index_wf_count [OF slots_okD(1) [OF index_okD(1) [OF ok]]] by (auto elim!: dvdE)
    have th: "used_count_threshold t = slot_count t - slot_count t div 4" using index_okD(3) [OF ok] by (simp add: thresholds_ok_def)
    have used: "used_count t = 6 * m" using True th index_okD(5) [OF ok] m(1) by simp
    have n: "3 \<le> Suc k" "slot_count t * 2 = 2 ^ Suc k" "length (elems a) - 1 \<le> slot_count t * 2 - slot_count t * 2 div 4"
      using k m used index_okD(4) [OF ok] by simp_all
    from copy_index_ok [OF index_ok_core [OF ok] n, of s] obtain u where
      u: "stbds_make_hash_index (slot_count t * 2) (Some t) s = Some (u, s)" "index_ok mode (elems a) u"
        "slot_count u = slot_count t * 2" "used_count u = used_count t" by blast
    have "used_count u < used_count_threshold u"
      using index_okD(3) [OF u(2)] u(3,4) used m by (simp add: thresholds_ok_def)
    with u(1,2) show ?thesis using True Some by (simp add: grown_table_def)
  next
    case False
    with ok Some show ?thesis by (simp add: grown_table_def)
  qed
qed

section \<open>Putting\<close>

lemma same_slots_deleted: "same_slots t u \<Longrightarrow> deleted_slots t = deleted_slots u"
  by (simp add: deleted_slots_def same_slots_simps)

lemma elem_key_append:
  "i < length es - Suc 0 \<Longrightarrow> elem_key (es @ [e]) i = elem_key es i"
  "es \<noteq> [] \<Longrightarrow> elem_key (es @ [e]) (length es - Suc 0) = hm_key e"
  by (auto simp: elem_key_def nth_append)

lemma inj_on_append:
  assumes "es \<noteq> []" "inj_on (elem_key es) {..<length es - 1}" "hm_key e \<notin> elem_key es ` {..<length es - 1}"
  shows "inj_on (elem_key (es @ [e])) {..<length (es @ [e]) - 1}"
proof -
  have "{..<length (es @ [e]) - 1} = insert (length es - 1) {..<length es - 1}" using assms(1) by auto
  moreover have "inj_on (elem_key (es @ [e])) {..<length es - 1}"
    using assms(2) by (simp add: inj_on_def elem_key_append)
  moreover have "elem_key (es @ [e]) ` {..<length es - 1} = elem_key es ` {..<length es - 1}"
    by (rule image_cong) (simp_all add: elem_key_append)
  ultimately show ?thesis using assms(1,3) by (simp add: elem_key_append)
qed

text \<open>
  The state of the index when a key has got the slot \<open>pos\<close>: it was free, and the search for
  the key had seen no empty slot before.
\<close>

lemma put_index_ok:
  assumes ok: "index_ok mode es t" and ne: "es \<noteq> []" and room: "used_count t < used_count_threshold t"
    and new: "hm_key e \<notin> elem_key es ` {..<length es - 1}"
    and h: "h = hash_of_key mode (hm_key e) (hi_seed t)"
    and pos: "pos = probe (slot_count t) (unat h) j" "j < slot_count t" "index_at pos t < 0"
      "\<forall>j' < j. hash_at (probe (slot_count t) (unat h) j') t \<noteq> 0"
    and u: "same_slots u (write_slot pos h (int (length es - 1)) t)" "hi_seed u = hi_seed t"
      "used_count u = used_count t + 1"
      "used_count_threshold u = used_count_threshold t" "used_count_shrink_threshold u = used_count_shrink_threshold t"
      "tombstone_count_threshold u = tombstone_count_threshold t"
      "tombstone_count u = (if index_at pos t = -2 then tombstone_count t - 1 else tombstone_count t)"
  shows "index_ok mode (es @ [e]) u"
proof -
  let ?H = "\<lambda>k. hash_of_key mode k (hi_seed t)" and ?n = "length es - 1" and ?es = "es @ [e]"
  let ?w = "write_slot pos h (int ?n) t"
  note wf = slots_okD(1) [OF index_okD(1) [OF ok]]
  have lt: "pos < slot_count t" unfolding pos(1) by (rule probe_in_range [OF wf])
  have I: "insert ?n {..<?n} = {..<length ?es - 1}" using ne by auto
  have keys: "elem_key ?es (length es - Suc 0) = hm_key e" using ne by (rule elem_key_append(2))
  have old: "slots_ok ?H (elem_key ?es) {..<?n} t"
    using index_okD(1) [OF ok] slots_ok_keys [of "{..<?n}" "elem_key es" "elem_key ?es" ?H t] by (simp add: elem_key_append)
  have "slots_ok ?H (elem_key ?es) (insert ?n {..<?n}) (write_slot pos (?H (elem_key ?es ?n)) (int ?n) t)"
    by (rule slots_ok_insert [OF old, where j = j])
      (use pos h kh.hash_ne(1) in \<open>simp_all add: keys\<close>)
  then have slots: "slots_ok ?H (elem_key ?es) {..<length ?es - 1} u"
    unfolding I using slots_ok_cong [OF u(1)] by (simp add: keys h)
  have del: "deleted_slots u = deleted_slots t - {pos}"
    using same_slots_deleted [OF u(1)] deleted_write [OF wf lt, of h "int ?n"] by simp
  have mem: "pos \<in> deleted_slots t \<longleftrightarrow> index_at pos t = -2" using lt by (simp add: deleted_slots_def)
  have tomb: "tombstone_count u = card (deleted_slots u)"
    using u(7) index_okD(6) [OF ok] mem by (simp add: del card_Diff_singleton_if)
  moreover have "tombstone_count u \<le> tombstone_count_threshold u" using u(6,7) index_ok_tombs [OF ok] by (auto intro: order_trans [OF diff_le_self])
  moreover have "thresholds_ok u"
    using index_okD(3) [OF ok] u(1,4-6) by (simp add: thresholds_ok_def same_slots_def)
  moreover have "used_count u = length ?es - 1" using u(3) index_okD(4) [OF ok] ne by (simp add: Suc_pred)
  moreover have "used_count u \<le> used_count_threshold u" using room u(3,4) by simp
  ultimately show ?thesis
    using slots inj_on_append [OF ne index_okD(2) [OF ok] new] by (simp add: index_ok_def index_core_def u(2))
qed

lemma store_key_fields [simp]:
  "slot_count (store_key E k t) = slot_count t" "storage (store_key E k t) = storage t"
  "hi_seed (store_key E k t) = hi_seed t" "used_count (store_key E k t) = used_count t"
  "used_count_threshold (store_key E k t) = used_count_threshold t"
  "used_count_shrink_threshold (store_key E k t) = used_count_shrink_threshold t"
  "tombstone_count (store_key E k t) = tombstone_count t"
  "tombstone_count_threshold (store_key E k t) = tombstone_count_threshold t"
  by (simp_all add: store_key_def split: string_mode.split)

lemma index_ok_temp_key:
  "index_ok mode es t \<Longrightarrow> index_ok mode es (t\<lparr>temp_key := x\<rparr>)"
proof -
  have same: "same_slots (t\<lparr>temp_key := x\<rparr>) t" by (simp add: same_slots_def)
  show "index_ok mode es t \<Longrightarrow> index_ok mode es (t\<lparr>temp_key := x\<rparr>)"
    using slots_ok_cong [OF same] same_slots_deleted [OF same] by (simp add: index_ok_def index_core_def thresholds_ok_def)
qed

text \<open>A map, or a new one for NULL.\<close>

definition hm_body :: "'v hm_env \<Rightarrow> 'v hmap \<Rightarrow> 'v hm_array" where
  "hm_body E a = (case a of None \<Rightarrow> new_hm_array E | Some a \<Rightarrow> a)"

lemma new_hm_array_ok: "hm_ok mode (new_hm_array E)"
  by (simp add: hm_ok_def new_hm_array_def)

lemma hmput_key_present:
  assumes "hm_ok mode (hm_body E a)" "i < length (elems (hm_body E a)) - 1"
  shows "\<exists>t s'. stbds_hmput_key E mode (elem_key (elems (hm_body E a)) i) a s
       = Some (Inr ((hm_body E a)\<lparr>hash_table := Some t, temp := int i\<rparr>, s'))
     \<and> index_ok mode (elems (hm_body E a)) t"
proof -
  let ?a = "hm_body E a"
  obtain t s' where t: "grown_table mode (hash_table ?a) s = Some (t, s')" "index_ok mode (elems ?a) t"
    using grown_table_ok [OF assms(1)] by blast
  have "i \<in> {..<length (elems ?a) - 1}" using assms(2) by simp
  from kh.search_present [OF index_okD(1) [OF t(2)] is_key_equal [OF subset_refl] this refl index_okD(2) [OF t(2)],
      of "slot_count_log2 t" "-1"]
  obtain first where "put_loop (hash_of_key mode (elem_key (elems ?a) i) (hi_seed t))
      (stbds_is_key_equal (elems ?a) (elem_key (elems ?a) i)) t
      (stbds_probe_position (hash_of_key mode (elem_key (elems ?a) i) (hi_seed t)) (slot_count t) (slot_count_log2 t))
      STBDS_BUCKET_LENGTH (-1) = Some (Inr (Present (int i) first))" by blast
  then have "stbds_hmput_key E mode (elem_key (elems ?a) i) a s
      = Some (Inr (?a\<lparr>hash_table := Some (if first \<and> mode = STBDS_HM_STRING
          then t\<lparr>temp_key := Some (hm_key (elems ?a ! nat (int i + 1)))\<rparr> else t), temp := int i\<rparr>, s'))"
    using t(1) by (simp add: stbds_hmput_key_def hm_body_def [symmetric] Let_def)
  moreover have "index_ok mode (elems ?a) (if first \<and> mode = STBDS_HM_STRING
          then t\<lparr>temp_key := Some (hm_key (elems ?a ! nat (int i + 1)))\<rparr> else t)"
    using t(2) index_ok_temp_key [OF t(2)] by (split if_split) blast
  ultimately show ?thesis by blast
qed

lemma hmput_key_absent:
  assumes ok: "hm_ok mode (hm_body E a)" and new: "k \<notin> elem_key (elems (hm_body E a)) ` {..<length (elems (hm_body E a)) - 1}"
  shows "\<exists>t s'. stbds_hmput_key E mode k a s
       = Some (Inr (\<lparr>elems = elems (hm_body E a) @ [\<lparr>hm_key = k, hm_value = junk_value E\<rparr>], hash_table = Some t,
                     temp = int (length (elems (hm_body E a))) - 1\<rparr>, s'))
     \<and> index_ok mode (elems (hm_body E a) @ [\<lparr>hm_key = k, hm_value = junk_value E\<rparr>]) t"
proof -
  let ?a = "hm_body E a"
  obtain t s' where t: "grown_table mode (hash_table ?a) s = Some (t, s')" "index_ok mode (elems ?a) t"
    "used_count t < used_count_threshold t"
    using grown_table_ok [OF ok] by blast
  have ne: "elems ?a \<noteq> []" using ok by (simp add: hm_ok_def)
  let ?e = "\<lparr>hm_key = k, hm_value = junk_value E\<rparr>" and ?h = "hash_of_key mode k (hi_seed t)"
  let ?n = "slot_count t"
  note wf = slots_okD(1) [OF index_okD(1) [OF t(2)]]
  from kh.search_absent [OF index_okD(1) [OF t(2)] is_key_equal [OF subset_refl] new index_ok_room [OF t(2)], of "slot_count_log2 t"]
  obtain j tb where loop: "put_loop ?h (stbds_is_key_equal (elems ?a) k) t (stbds_probe_position ?h ?n (slot_count_log2 t))
      STBDS_BUCKET_LENGTH (-1) = Some (Inr (Absent (probe ?n (unat ?h) j) tb))"
    and j: "j < ?n" "hash_at (probe ?n (unat ?h) j) t = 0" "\<forall>j' < j. hash_at (probe ?n (unat ?h) j') t \<noteq> 0"
    and tb: "tb = -1 \<or> (\<exists>j' < j. tb = int (probe ?n (unat ?h) j') \<and> index_at (probe ?n (unat ?h) j') t = -2)"
    by blast
  have empty: "index_at (probe ?n (unat ?h) j) t = -1"
    using slots_okD(2) [OF index_okD(1) [OF t(2)] probe_in_range [OF wf], of "unat ?h" j] j(2) kh.hash_ne(1) by auto
  have len: "int (length (elems ?a)) - 1 = int (length (elems ?a) - 1)" using ne by (cases "elems ?a") auto
  define pos where "pos = (if tb \<ge> 0 then nat tb else probe ?n (unat ?h) j)"
  define u where "u = store_key E k (write_slot pos ?h (int (length (elems ?a)) - 1)
      ((if tb \<ge> 0 then t\<lparr>tombstone_count := tombstone_count t - 1\<rparr> else t)\<lparr>used_count := used_count t + 1\<rparr>))"
  obtain i where i: "pos = probe ?n (unat ?h) i" "i \<le> j" "index_at pos t = (if tb \<ge> 0 then -2 else -1)"
    using tb empty by (auto simp: pos_def)
  have same: "same_slots u (write_slot pos ?h (int (length (elems ?a) - 1)) t)"
    by (auto simp: u_def same_slots_def write_slot_def Let_def len)
  have u_ok: "index_ok mode (elems ?a @ [?e]) u"
  proof (rule put_index_ok [OF t(2) ne t(3), where pos = pos and j = i and h = ?h])
    show "hm_key ?e \<notin> elem_key (elems ?a) ` {..<length (elems ?a) - 1}" using new by simp
    show "?h = hash_of_key mode (hm_key ?e) (hi_seed t)" by simp
    show "pos = probe ?n (unat ?h) i" by (rule i(1))
    show "i < ?n" using i(2) j(1) by simp
    show "index_at pos t < 0" using i(3) by simp
    show "\<forall>j' < i. hash_at (probe ?n (unat ?h) j') t \<noteq> 0" using i(2) j(3) by simp
    show "same_slots u (write_slot pos ?h (int (length (elems ?a) - 1)) t)" by (rule same)
    show "tombstone_count u = (if index_at pos t = -2 then tombstone_count t - 1 else tombstone_count t)"
      using i(3) by (simp add: u_def)
  qed (simp_all add: u_def)
  have "stbds_hmput_key E mode k a s = Some (Inr (\<lparr>elems = elems ?a @ [?e], hash_table = Some u,
      temp = int (length (elems ?a)) - 1\<rparr>, s'))"
    using loop t(1) by (simp add: stbds_hmput_key_def hm_body_def [symmetric] u_def pos_def Let_def)
  with u_ok show ?thesis by blast
qed

end
