(* ===== verification/HashDelete.thy ===== *)
theory HashDelete
  imports HashOps
begin

text \<open>
  Deleting from a hash map: the last element takes the place of the deleted one and its slot
  gets the new index; then the table is halved, rebuilt without deleted slots, or kept.
\<close>

text \<open>The elements after a deletion.\<close>

definition swap_removed :: "nat \<Rightarrow> 'v hm_elem list \<Rightarrow> 'v hm_elem list" where
  "swap_removed i es = butlast (es[Suc i := last es])"

lemma swap_removed_nth:
  "l < length es - 2 \<Longrightarrow> i < length es - 1 \<Longrightarrow>
     swap_removed i es ! Suc l = (if l = i then es ! Suc (length es - 2) else es ! Suc l)"
  by (cases es rule: rev_cases) (auto simp: swap_removed_def nth_butlast nth_list_update nth_append last_conv_nth)

lemma length_swap_removed [simp]: "length (swap_removed i es) = length es - 1"
  by (simp add: swap_removed_def)

lemma elem_key_swap_removed:
  "l < length es - 2 \<Longrightarrow> i < length es - 1 \<Longrightarrow>
     elem_key (swap_removed i es) l = (if l = i then elem_key es (length es - 2) else elem_key es l)"
  by (simp add: elem_key_def swap_removed_nth)

lemma inj_on_swap_removed:
  assumes "inj_on (elem_key es) {..<length es - 1}" "i < length es - 1"
  shows "inj_on (elem_key (swap_removed i es)) {..<length (swap_removed i es) - 1}"
proof (rule inj_onI)
  fix x y assume a: "x \<in> {..<length (swap_removed i es) - 1}" "y \<in> {..<length (swap_removed i es) - 1}"
    "elem_key (swap_removed i es) x = elem_key (swap_removed i es) y"
  then have "x < length es - 2" "y < length es - 2" by auto
  moreover have "length es - 2 < length es - 1" using assms(2) by simp
  ultimately
  show "x = y" using a(3) inj_onD [OF assms(1), of x y] inj_onD [OF assms(1), of x "length es - 2"]
    inj_onD [OF assms(1), of "length es - 2" y] assms(2)
    by (auto simp: elem_key_swap_removed split: if_splits)
qed

text \<open>The table at the end.\<close>

lemma shrunk_table_ok:
  assumes core: "index_core mode es t"
  shows "\<exists>u s'. shrunk_table t s = Some (u, s') \<and> index_ok mode es u"
proof -
  note wf = slots_okD(1) [OF index_coreD(1) [OF core]]
  obtain k where k: "3 \<le> k" "slot_count t = 2 ^ k" using index_wf_pow [OF wf] by blast
  note th = index_coreD(3) [OF core, unfolded thresholds_ok_def]
  show ?thesis
  proof (cases "used_count t < used_count_shrink_threshold t \<and> slot_count t > 8")
    case True
    have "3 < k"
    proof (rule ccontr)
      assume "\<not> 3 < k"
      then have "k = 3" using k(1) by simp
      with k(2) True show False by simp
    qed
    then obtain l where l: "k = Suc l" "3 \<le> l" by (cases k) auto
    have n: "drop_bit 1 (slot_count t) = 2 ^ l" using k(2) l(1) by (simp add: drop_bit_eq_div)
    obtain m where m: "(2 :: nat) ^ l = 8 * m" using pow_8_dvd [OF l(2)] by blast
    have "used_count t < slot_count t div 4" using True th by (auto split: if_splits)
    then have "length es - 1 \<le> 2 ^ l - 2 ^ l div 4"
      using index_coreD(4) [OF core] k(2) l(1) m by simp
    from copy_index_ok [OF core l(2) refl this, of s]
    show ?thesis using True n by (auto simp: shrunk_table_def STBDS_BUCKET_LENGTH_def)
  next
    case False
    show ?thesis
    proof (cases "tombstone_count t > tombstone_count_threshold t")
      case True
      have "length es - 1 \<le> slot_count t - slot_count t div 4"
        using th index_coreD(4,5) [OF core] by simp
      from copy_index_ok [OF core k this, of s] show ?thesis
        using False True by (auto simp: shrunk_table_def STBDS_BUCKET_LENGTH_def)
    next
      case no_rebuild: False
      with False core show ?thesis by (auto simp: shrunk_table_def STBDS_BUCKET_LENGTH_def index_ok_def)
    qed
  qed
qed

text \<open>The slots when the last element has been moved.\<close>

lemma move_last_ok:
  assumes slots: "slots_ok (\<lambda>k. hash_of_key mode k (hi_seed t)) (elem_key es) ({..<length es - 1} - {i}) t"
    and inj: "inj_on (elem_key es) {..<length es - 1}" and i: "i < length es - 1"
  shows "\<exists>es' st. move_last mode (int i) es t = Some (Inr (es', t\<lparr>storage := st\<rparr>)) \<and> butlast es' = swap_removed i es
     \<and> slots_ok (\<lambda>k. hash_of_key mode k (hi_seed t)) (elem_key (swap_removed i es)) {..<length es - 2} (t\<lparr>storage := st\<rparr>)
     \<and> deleted_slots (t\<lparr>storage := st\<rparr>) = deleted_slots t"
proof -
  let ?H = "\<lambda>k. hash_of_key mode k (hi_seed t)" and ?n = "length es - 2"
  have len: "int (length es) - 1 - 1 = int ?n" using i by simp
  have ne: "es \<noteq> []" using i by auto
  show ?thesis
  proof (cases "i = ?n")
    case True
    have "es[Suc i := last es] = es"
      using True i ne by (simp add: last_conv_nth Suc_diff_Suc numeral_2_eq_2)
    then have sw: "butlast es = swap_removed i es" by (simp add: swap_removed_def)
    have set: "{..<length es - 1} - {i} = {..<?n}" using True i by auto
    have "slots_ok ?H (elem_key (swap_removed i es)) {..<?n} t"
      using slots slots_ok_keys [of "{..<?n}" "elem_key es" "elem_key (swap_removed i es)" ?H t] i True
      unfolding set by (simp add: elem_key_swap_removed)
    moreover have "move_last mode (int i) es t = Some (Inr (es, t\<lparr>storage := storage t\<rparr>))"
      using True i by (simp add: move_last_def len)
    ultimately show ?thesis using sw by (intro exI [of _ es] exI [of _ "storage t"]) simp
  next
    case False
    let ?es = "es[Suc i := es ! Suc ?n]" and ?I = "{..<length es - 1} - {i}"
    have last: "es ! Suc ?n = last es" using i ne by (simp add: last_conv_nth Suc_diff_Suc numeral_2_eq_2)
    have keys: "elem_key ?es l = elem_key es l" if "l \<in> ?I" for l using that by (simp add: elem_key_def)
    have slots': "slots_ok ?H (elem_key ?es) ?I t"
      using slots slots_ok_keys [of ?I "elem_key es" "elem_key ?es" ?H t] keys by simp
    have sub: "?I \<subseteq> {..<length ?es - 1}" by auto
    have inj': "inj_on (elem_key ?es) ?I"
      using inj_on_subset [OF inj, of ?I] inj_on_cong [of ?I "elem_key ?es" "elem_key es"] keys by blast
    have mem: "?n \<in> ?I" using i False by auto
    from find_slot_present [OF slots' sub inj' mem] obtain p where
      p: "p < slot_count t" "index_at p t = int ?n" "stbds_hm_find_slot mode (elem_key ?es ?n) ?es t = Some (Inr (int p))" by blast
    have key: "hm_key (?es ! Suc i) = elem_key ?es ?n" using i False by (simp add: elem_key_def nth_list_update)
    let ?u = "write_slot p (hash_at p t) (int i) t"
    have "move_last mode (int i) es t = Some (Inr (?es, ?u))"
      using p(3) key False by (simp add: move_last_def len nat_add_distrib)
    moreover have "?u = t\<lparr>storage := storage ?u\<rparr>" by (rule write_slot_storage)
    moreover have "butlast ?es = swap_removed i es" by (simp add: swap_removed_def last)
    moreover have "slots_ok ?H (elem_key (swap_removed i es)) (insert i (?I - {?n})) ?u" "deleted_slots ?u = deleted_slots t"
    proof -
      have 1: "i \<notin> ?I" by simp
      have 2: "elem_key (swap_removed i es) i = elem_key ?es ?n"
        using i False keys [OF mem] by (simp add: elem_key_swap_removed)
      have 3: "elem_key (swap_removed i es) l = elem_key ?es l" if "l \<in> ?I - {?n}" for l
        using that i keys [of l] by (auto simp: elem_key_swap_removed)
      note re = slots_ok_reindex [OF slots' p(1,2) mem 1 2 3 kh.hash_ne(1)]
      show "slots_ok ?H (elem_key (swap_removed i es)) (insert i (?I - {?n})) ?u" by (rule re(1))
      show "deleted_slots ?u = deleted_slots t" by (rule re(2))
    qed
    moreover have "insert i (?I - {?n}) = {..<?n}" using i False by auto
    ultimately show ?thesis by metis
  qed
qed

lemma hmdel_key_absent:
  assumes "hm_ok mode a" "k \<notin> elem_key (elems a) ` {..<length (elems a) - 1}"
  shows "stbds_hmdel_key mode k (Some a) s = Some (Inr (Some (a\<lparr>temp := 0\<rparr>), s))"
proof (cases "hash_table a")
  case (Some t)
  then have ok: "index_ok mode (elems a) t" using assms(1) by (simp add: hm_ok_def)
  show ?thesis
    using find_slot_absent [OF index_okD(1) [OF ok] subset_refl assms(2) index_ok_room [OF ok]] Some
    by (simp add: stbds_hmdel_key_def Let_def)
qed (simp add: stbds_hmdel_key_def Let_def)

lemma hmdel_key_present:
  assumes "hm_ok mode a" and i: "i < length (elems a) - 1"
  shows "\<exists>t s'. stbds_hmdel_key mode (elem_key (elems a) i) (Some a) s
      = Some (Inr (Some \<lparr>elems = swap_removed i (elems a), hash_table = Some t, temp = 1\<rparr>, s'))
     \<and> index_ok mode (swap_removed i (elems a)) t"
proof -
  let ?es = "elems a"
  obtain t where t: "hash_table a = Some t" "index_ok mode ?es t"
    using assms by (auto simp: hm_ok_def split: option.splits)
  let ?H = "\<lambda>k. hash_of_key mode k (hi_seed t)"
  have mem: "i \<in> {..<length ?es - 1}" using i by simp
  note slots = index_okD(1) [OF t(2)]
  note wf = slots_okD(1) [OF slots]
  from find_slot_present [OF slots subset_refl index_okD(2) [OF t(2)] mem] obtain p where
    p: "p < slot_count t" "index_at p t = int i" "stbds_hm_find_slot mode (elem_key ?es i) ?es t = Some (Inr (int p))" by blast
  let ?w = "write_slot p 1 (-2) t"
  let ?t = "write_slot p STBDS_HASH_DELETED STBDS_INDEX_DELETED
      (t\<lparr>used_count := used_count t - 1, tombstone_count := tombstone_count t + 1\<rparr>)"
  have same: "same_slots ?t ?w"
    by (simp add: same_slots_def write_slot_def Let_def STBDS_HASH_DELETED_def STBDS_INDEX_DELETED_def)
  have del: "deleted_slots ?t = insert p (deleted_slots t)" "p \<notin> deleted_slots t"
    using same_slots_deleted [OF same] deleted_write [OF wf p(1), of 1 "-2"] p(2) by (simp_all add: deleted_slots_def)
  have "slots_ok ?H (elem_key ?es) ({..<length ?es - 1} - {i}) ?t"
    using slots_ok_delete [OF slots p(1,2)] slots_ok_cong [OF same] by simp
  then have slots_t: "slots_ok (\<lambda>k. hash_of_key mode k (hi_seed ?t)) (elem_key ?es) ({..<length ?es - 1} - {i}) ?t" by simp
  from move_last_ok [OF slots_t index_okD(2) [OF t(2)] i] obtain es' st where
    m: "move_last mode (int i) ?es ?t = Some (Inr (es', ?t\<lparr>storage := st\<rparr>))" "butlast es' = swap_removed i ?es"
      "slots_ok ?H (elem_key (swap_removed i ?es)) {..<length ?es - 2} (?t\<lparr>storage := st\<rparr>)"
      "deleted_slots (?t\<lparr>storage := st\<rparr>) = deleted_slots ?t" by auto
  have "index_core mode (swap_removed i ?es) (?t\<lparr>storage := st\<rparr>)"
    using m(3,4) del index_okD(3-6) [OF t(2)] inj_on_swap_removed [OF index_okD(2) [OF t(2)] i]
    by (simp add: index_core_def thresholds_ok_def numeral_2_eq_2)
  from shrunk_table_ok [OF this, of s] obtain u s' where
    u: "shrunk_table (?t\<lparr>storage := st\<rparr>) s = Some (u, s')" "index_ok mode (swap_removed i ?es) u" by blast
  have "stbds_hmdel_key mode (elem_key ?es i) (Some a) s
      = Some (Inr (Some \<lparr>elems = swap_removed i ?es, hash_table = Some u, temp = 1\<rparr>, s'))"
    using t(1) p(2,3) m(1,2) u(1) by (simp add: stbds_hmdel_key_def Let_def)
  with u(2) show ?thesis by blast
qed

end
