(* ===== verification/HashRefine.thy ===== *)
theory HashRefine
  imports HashDelete
begin

text \<open>
  The hash maps implement finite maps with a default value: every sequence of operations on a
  new map returns, with the results of the same operations on a map. The abstraction of a map
  forgets the order of the elements, the index and its history.
\<close>

section \<open>Operations and their specification\<close>

datatype 'v hm_op = Op_get "u8 list" | Op_has "u8 list" | Op_len | Op_put "u8 list" 'v | Op_del "u8 list" | Op_default 'v

datatype 'v hm_out = Out_value 'v | Out_int int | Out_none

text \<open>\<open>Op_has\<close> is the test of \<open>hmgetp_null\<close>; \<open>Op_put\<close> is \<open>shput\<close> on a map with string keys.\<close>

fun hm_step :: "'v hm_env \<Rightarrow> hm_mode \<Rightarrow> 'v hm_op \<Rightarrow> 'v hmap \<Rightarrow> u64 \<Rightarrow> ('v hm_out \<times> 'v hmap \<times> u64) res option" where
  "hm_step E mode (Op_get k) a s = othen (stbds_hmget E mode k a) (\<lambda>(v, a). Some (Inr (Out_value v, a, s)))"
| "hm_step E mode (Op_has k) a s =
     othen (stbds_hmgeti E mode k a) (\<lambda>(i, a). Some (Inr (Out_int (if i = -1 then 0 else 1), a, s)))"
| "hm_step E mode Op_len a s = Some (Inr (Out_int (int (stbds_hmlen a)), a, s))"
| "hm_step E mode (Op_put k v) a s =
     othen (if mode = STBDS_HM_STRING then stbds_shput E k v a s else stbds_hmput E k v a s) (\<lambda>(a, s).
     Some (Inr (Out_none, a, s)))"
| "hm_step E mode (Op_del k) a s = othen (stbds_hmdel mode k a s) (\<lambda>(i, a, s). Some (Inr (Out_int i, a, s)))"
| "hm_step E mode (Op_default v) a s = Some (Inr (Out_none, stbds_hmdefault E v a, s))"

fun hm_run :: "'v hm_env \<Rightarrow> hm_mode \<Rightarrow> 'v hm_op list \<Rightarrow> 'v hmap \<Rightarrow> u64 \<Rightarrow> ('v hm_out list \<times> 'v hmap \<times> u64) res option" where
  "hm_run E mode [] a s = Some (Inr ([], a, s))"
| "hm_run E mode (op # ops) a s =
     othen (hm_step E mode op a s) (\<lambda>(out, a, s).
     othen (hm_run E mode ops a s) (\<lambda>(outs, a, s). Some (Inr (out # outs, a, s))))"

text \<open>The same operations on the default value and a map.\<close>

fun map_step :: "'v hm_op \<Rightarrow> 'v \<Rightarrow> (u8 list \<rightharpoonup> 'v) \<Rightarrow> 'v hm_out \<times> 'v \<times> (u8 list \<rightharpoonup> 'v)" where
  "map_step (Op_get k) d m = (Out_value (case m k of None \<Rightarrow> d | Some v \<Rightarrow> v), d, m)"
| "map_step (Op_has k) d m = (Out_int (if m k = None then 0 else 1), d, m)"
| "map_step Op_len d m = (Out_int (int (card (dom m))), d, m)"
| "map_step (Op_put k v) d m = (Out_none, d, m(k \<mapsto> v))"
| "map_step (Op_del k) d m = (Out_int (if m k = None then 0 else 1), d, m(k := None))"
| "map_step (Op_default v) d m = (Out_none, v, m)"

fun map_run :: "'v hm_op list \<Rightarrow> 'v \<Rightarrow> (u8 list \<rightharpoonup> 'v) \<Rightarrow> 'v hm_out list \<times> 'v \<times> (u8 list \<rightharpoonup> 'v)" where
  "map_run [] d m = ([], d, m)"
| "map_run (op # ops) d m =
     (let (out, d, m) = map_step op d m; (outs, d, m) = map_run ops d m in (out # outs, d, m))"

section \<open>The abstraction\<close>

definition elem_map :: "'v hm_elem list \<Rightarrow> (u8 list \<rightharpoonup> 'v)" where
  "elem_map es = map_of (map (\<lambda>e. (hm_key e, hm_value e)) (tl es))"

definition hm_default :: "'v hm_env \<Rightarrow> 'v hmap \<Rightarrow> 'v" where
  "hm_default E a = (case a of None \<Rightarrow> zero_value E | Some a \<Rightarrow> hm_value (hd (elems a)))"

definition hm_map :: "'v hmap \<Rightarrow> (u8 list \<rightharpoonup> 'v)" where
  "hm_map a = (case a of None \<Rightarrow> Map.empty | Some a \<Rightarrow> elem_map (elems a))"

lemma elem_map_Some:
  assumes "inj_on (elem_key es) {..<length es - 1}"
  shows "elem_map es k = Some v \<longleftrightarrow> (\<exists>i < length es - 1. elem_key es i = k \<and> hm_value (es ! Suc i) = v)"
proof -
  let ?f = "\<lambda>e. (hm_key e, hm_value e)"
  have eq: "map ?f (tl es) = map (\<lambda>i. (elem_key es i, hm_value (es ! Suc i))) [0..<length es - 1]"
    by (rule nth_equalityI) (simp_all add: elem_key_def nth_tl)
  have d: "distinct (map fst (map ?f (tl es)))"
    unfolding eq using assms by (simp add: comp_def distinct_map lessThan_atLeast0)
  have "(k, v) \<in> set (map ?f (tl es)) \<longleftrightarrow> (\<exists>i < length es - 1. elem_key es i = k \<and> hm_value (es ! Suc i) = v)"
    unfolding eq by auto
  then show ?thesis
    unfolding elem_map_def using map_of_eq_Some_iff [OF d] by simp
qed

lemma elem_map_at:
  assumes "inj_on (elem_key es) {..<length es - 1}"
  shows "i < length es - 1 \<Longrightarrow> elem_map es (elem_key es i) = Some (hm_value (es ! Suc i))"
    "k \<notin> elem_key es ` {..<length es - 1} \<Longrightarrow> elem_map es k = None"
proof -
  show "i < length es - 1 \<Longrightarrow> elem_map es (elem_key es i) = Some (hm_value (es ! Suc i))"
    using elem_map_Some [OF assms, of "elem_key es i"] by blast
  show "k \<notin> elem_key es ` {..<length es - 1} \<Longrightarrow> elem_map es k = None"
    using elem_map_Some [OF assms, of k] by (cases "elem_map es k") auto
qed

lemma elem_map_dom:
  assumes "inj_on (elem_key es) {..<length es - 1}"
  shows "card (dom (elem_map es)) = length es - 1"
proof -
  have "dom (elem_map es) = elem_key es ` {..<length es - 1}"
    using elem_map_Some [OF assms] by (auto simp: dom_def)
  then show ?thesis using card_image [OF assms] by simp
qed

lemma map_eqI: "(\<And>k v. m k = Some v \<longleftrightarrow> m' k = Some v) \<Longrightarrow> m = m'"
  by (rule ext) (metis not_Some_eq)

lemma elem_map_update:
  assumes "inj_on (elem_key es) {..<length es - 1}" "i < length es - 1"
  shows "elem_map (es[Suc i := \<lparr>hm_key = elem_key es i, hm_value = v\<rparr>]) = (elem_map es)(elem_key es i \<mapsto> v)"
    "elem_key (es[Suc i := \<lparr>hm_key = elem_key es i, hm_value = v\<rparr>]) l = elem_key es l"
proof -
  let ?es = "es[Suc i := \<lparr>hm_key = elem_key es i, hm_value = v\<rparr>]"
  have keys: "elem_key ?es l = elem_key es l" for l
    using assms(2) by (cases "l = i") (simp_all add: elem_key_def)
  then show "elem_key ?es l = elem_key es l" .
  have inj: "inj_on (elem_key ?es) {..<length ?es - 1}" using assms(1) keys by (simp add: inj_on_def)
  show "elem_map ?es = (elem_map es)(elem_key es i \<mapsto> v)"
  proof (rule map_eqI)
    fix k w
    have eq: "hm_value (?es ! Suc l) = (if l = i then v else hm_value (es ! Suc l))" for l
      using assms(2) by simp
    have "(\<exists>l < length es - 1. elem_key es l = k \<and> (if l = i then v else hm_value (es ! Suc l)) = w)
        \<longleftrightarrow> ((elem_map es)(elem_key es i \<mapsto> v)) k = Some w"
    proof (cases "k = elem_key es i")
      case True
      then show ?thesis using inj_onD [OF assms(1), of _ i] assms(2) by auto
    next
      case False
      then show ?thesis using elem_map_Some [OF assms(1), of k w] by auto
    qed
    then show "elem_map ?es k = Some w \<longleftrightarrow> ((elem_map es)(elem_key es i \<mapsto> v)) k = Some w"
      unfolding elem_map_Some [OF inj] keys eq by simp
  qed
qed

lemma elem_map_append:
  assumes "es \<noteq> []" "inj_on (elem_key es) {..<length es - 1}" "hm_key e \<notin> elem_key es ` {..<length es - 1}"
  shows "elem_map (es @ [e]) = (elem_map es)(hm_key e \<mapsto> hm_value e)"
proof -
  have "tl (es @ [e]) = tl es @ [e]" using assms(1) by simp
  then have "elem_map (es @ [e]) = [hm_key e \<mapsto> hm_value e] ++ elem_map es" by (simp add: elem_map_def)
  also have "\<dots> = (elem_map es)(hm_key e \<mapsto> hm_value e)"
    using elem_map_at(2) [OF assms(2,3)] by (intro ext) (simp add: map_add_def split: option.split)
  finally show ?thesis .
qed

lemma elem_map_swap_removed:
  assumes "inj_on (elem_key es) {..<length es - 1}" "i < length es - 1"
  shows "elem_map (swap_removed i es) = (elem_map es)(elem_key es i := None)"
proof (rule map_eqI)
  fix k v
  note inj = inj_on_swap_removed [OF assms]
  let ?n = "length es - 2"
  have n: "length (swap_removed i es) - 1 = ?n" by simp
  have at: "elem_key (swap_removed i es) l = elem_key es (if l = i then ?n else l)"
    "hm_value (swap_removed i es ! Suc l) = hm_value (es ! Suc (if l = i then ?n else l))" if "l < ?n" for l
    using that assms(2) by (simp_all add: elem_key_swap_removed swap_removed_nth)
  have "(\<exists>l < ?n. elem_key (swap_removed i es) l = k \<and> hm_value (swap_removed i es ! Suc l) = v)
      \<longleftrightarrow> (\<exists>l < length es - 1. l \<noteq> i \<and> elem_key es l = k \<and> hm_value (es ! Suc l) = v)"
  proof
    assume "\<exists>l < ?n. elem_key (swap_removed i es) l = k \<and> hm_value (swap_removed i es ! Suc l) = v"
    then obtain l where "l < ?n" "elem_key es (if l = i then ?n else l) = k" "hm_value (es ! Suc (if l = i then ?n else l)) = v"
      using at by auto
    then show "\<exists>l < length es - 1. l \<noteq> i \<and> elem_key es l = k \<and> hm_value (es ! Suc l) = v"
      by (intro exI [of _ "if l = i then ?n else l"]) (auto split: if_splits)
  next
    assume "\<exists>l < length es - 1. l \<noteq> i \<and> elem_key es l = k \<and> hm_value (es ! Suc l) = v"
    then obtain l where l: "l < length es - 1" "l \<noteq> i" "elem_key es l = k" "hm_value (es ! Suc l) = v" by blast
    have "(if l = ?n then i else l) < ?n" using l(1,2) assms(2) by auto
    with l at [OF this] show "\<exists>l < ?n. elem_key (swap_removed i es) l = k \<and> hm_value (swap_removed i es ! Suc l) = v"
      by (intro exI [of _ "if l = ?n then i else l"]) (auto split: if_splits)
  qed
  also have "\<dots> \<longleftrightarrow> ((elem_map es)(elem_key es i := None)) k = Some v"
    using elem_map_Some [OF assms(1), of k v] inj_onD [OF assms(1), of _ i] assms(2) by auto
  finally show "elem_map (swap_removed i es) k = Some v \<longleftrightarrow> ((elem_map es)(elem_key es i := None)) k = Some v"
    unfolding elem_map_Some [OF inj] n .
qed

section \<open>Every step is a step of the specification\<close>

definition hm_inv :: "hm_mode \<Rightarrow> 'v hmap \<Rightarrow> bool" where
  "hm_inv mode a = (case a of None \<Rightarrow> True | Some a \<Rightarrow> hm_ok mode a)"

lemma hm_inv_body:
  assumes "hm_inv mode a"
  shows "hm_ok mode (hm_body E a)" "hm_map a = elem_map (elems (hm_body E a))"
    "hm_default E a = hm_value (hd (elems (hm_body E a)))"
  using assms
  by (cases a; simp add: hm_inv_def hm_body_def new_hm_array_ok)
    (cases a; simp add: hm_body_def hm_map_def hm_default_def elem_map_def new_hm_array_def)+

lemma hm_ok_inj: "hm_ok mode a \<Longrightarrow> inj_on (elem_key (elems a)) {..<length (elems a) - 1}"
  by (auto simp: hm_ok_def dest: index_okD(2) split: option.splits)

lemma hm_ok_temp [simp]: "hm_ok mode (a\<lparr>temp := i\<rparr>) = hm_ok mode a"
  by (cases "hash_table a") (simp_all add: hm_ok_def)

lemma hmget_key_body: "stbds_hmget_key E mode k a = stbds_hmget_key E mode k (Some (hm_body E a))"
  by (simp add: hm_body_def stbds_hmget_key_def stbds_hmget_key_ts_def new_hm_array_def STBDS_INDEX_EMPTY_def split: option.split)

text \<open>A key is that of an element, or of none.\<close>

lemma key_cases:
  obtains i where "i < length es - 1" "k = elem_key es i" | "k \<notin> elem_key es ` {..<length es - 1}"
  by blast

lemma get_step:
  assumes "hm_inv mode a"
  shows "\<exists>i b. stbds_hmget_key E mode k a = Some (Inr b) \<and> temp b = i \<and> elems b = elems (hm_body E a) \<and> hm_ok mode b
     \<and> (case hm_map a k of None \<Rightarrow> i = -1 | Some v \<Rightarrow> 0 \<le> i \<and> hm_value (elems b ! nat (i + 1)) = v)"
proof -
  let ?b = "hm_body E a"
  note b = hm_inv_body [OF assms, of E]
  note at = elem_map_at [OF hm_ok_inj [OF b(1)]]
  show ?thesis
  proof (cases rule: key_cases [of "elems ?b" k])
    case (1 i)
    with hmget_key_present [OF b(1) 1(1), of E] b(1) at(1) [OF 1(1)]
    show ?thesis by (subst hmget_key_body) (simp add: b(2) nat_add_distrib)
  next
    case 2
    with hmget_key_absent [OF b(1) 2, of E] b(1) at(2) [OF 2]
    show ?thesis by (subst hmget_key_body) (simp add: b(2))
  qed
qed

text \<open>Both forms of put write the key and the value.\<close>

lemma put_writes:
  assumes "stbds_hmput_key E mode k a s = Some (Inr (b, s'))" "hm_key (elems b ! nat (temp b + 1)) = k"
  shows "(if mode = STBDS_HM_STRING then stbds_shput E k v a s else stbds_hmput E k v a s)
     = Some (Inr (Some (write_elem (temp b) \<lparr>hm_key = k, hm_value = v\<rparr> b), s'))"
proof (cases mode)
  case STBDS_HM_STRING
  have "(elems b ! nat (temp b + 1))\<lparr>hm_value := v\<rparr> = \<lparr>hm_key = k, hm_value = v\<rparr>"
    using assms(2) by (cases "elems b ! nat (temp b + 1)") simp
  then show ?thesis using assms(1) STBDS_HM_STRING by (simp add: stbds_shput_def)
qed (use assms(1) in \<open>simp add: stbds_hmput_def\<close>)

lemma index_ok_keys:
  assumes "index_ok mode es t" "length es' = length es" "\<And>l. elem_key es' l = elem_key es l"
  shows "index_ok mode es' t"
proof -
  have "elem_key es' = elem_key es" using assms(3) by blast
  then show ?thesis using assms(1,2) by (simp add: index_ok_def index_core_def)
qed

lemma put_step:
  assumes "hm_inv mode a"
  shows "\<exists>b s'. (if mode = STBDS_HM_STRING then stbds_shput E k v a s else stbds_hmput E k v a s) = Some (Inr (Some b, s'))
     \<and> hm_ok mode b \<and> hm_map (Some b) = (hm_map a)(k \<mapsto> v) \<and> hm_default E (Some b) = hm_default E a"
proof -
  let ?b = "hm_body E a"
  note b = hm_inv_body [OF assms, of E]
  note inj = hm_ok_inj [OF b(1)]
  have ne: "elems ?b \<noteq> []" using b(1) by (simp add: hm_ok_def)
  show ?thesis
  proof (cases rule: key_cases [of "elems ?b" k])
    case (1 i)
    from hmput_key_present [OF b(1) 1(1), of s] obtain t s' where
      t: "stbds_hmput_key E mode k a s = Some (Inr (?b\<lparr>hash_table := Some t, temp := int i\<rparr>, s'))" "index_ok mode (elems ?b) t"
      unfolding 1(2) by blast
    let ?es = "(elems ?b)[Suc i := \<lparr>hm_key = elem_key (elems ?b) i, hm_value = v\<rparr>]"
    note up = elem_map_update [OF inj 1(1), of v]
    have "(if mode = STBDS_HM_STRING then stbds_shput E k v a s else stbds_hmput E k v a s)
        = Some (Inr (Some (\<lparr>elems = ?es, hash_table = Some t, temp = int i\<rparr>), s'))"
      using put_writes [OF t(1), of v] 1(2) by (simp add: nat_add_distrib elem_key_def write_elem_def)
    moreover have "index_ok mode ?es t"
      by (rule index_ok_keys [OF t(2)]) (simp_all only: up(2) length_list_update)
    then have "hm_ok mode \<lparr>elems = ?es, hash_table = Some t, temp = int i\<rparr>" using ne by (simp add: hm_ok_def)
    moreover have "elem_map ?es = (hm_map a)(k \<mapsto> v)" using up(1) by (simp only: b(2) 1(2))
    moreover have "hd ?es = hd (elems ?b)" using ne by (cases "elems ?b") simp_all
    ultimately show ?thesis using b(3) by (auto simp: hm_map_def hm_default_def)
  next
    case 2
    from hmput_key_absent [OF b(1) 2, of s] obtain t s' where
      t: "stbds_hmput_key E mode k a s = Some (Inr (\<lparr>elems = elems ?b @ [\<lparr>hm_key = k, hm_value = junk_value E\<rparr>],
            hash_table = Some t, temp = int (length (elems ?b)) - 1\<rparr>, s'))"
        "index_ok mode (elems ?b @ [\<lparr>hm_key = k, hm_value = junk_value E\<rparr>]) t" by blast
    let ?e = "\<lparr>hm_key = k, hm_value = v\<rparr>"
    have "(if mode = STBDS_HM_STRING then stbds_shput E k v a s else stbds_hmput E k v a s)
        = Some (Inr (Some (\<lparr>elems = elems ?b @ [?e], hash_table = Some t, temp = int (length (elems ?b)) - 1\<rparr>), s'))"
      using put_writes [OF t(1), of v] by (simp add: write_elem_def)
    moreover have "index_ok mode (elems ?b @ [?e]) t"
      by (rule index_ok_keys [OF t(2)]) (auto simp: elem_key_def nth_append nth_Cons split: nat.split)
    then have "hm_ok mode \<lparr>elems = elems ?b @ [?e], hash_table = Some t, temp = int (length (elems ?b)) - 1\<rparr>"
      by (simp add: hm_ok_def)
    moreover have "elem_map (elems ?b @ [?e]) = (hm_map a)(k \<mapsto> v)"
      using elem_map_append [OF ne inj, of ?e] 2 by (simp add: b(2))
    ultimately show ?thesis using ne b(3) by (auto simp: hm_map_def hm_default_def)
  qed
qed

lemma del_step:
  assumes "hm_inv mode a"
  shows "\<exists>b s'. stbds_hmdel mode k a s = Some (Inr (if hm_map a k = None then 0 else 1, b, s'))
     \<and> hm_inv mode b \<and> hm_map b = (hm_map a)(k := None) \<and> hm_default E b = hm_default E a"
proof (cases a)
  case None
  then show ?thesis
    by (simp add: stbds_hmdel_def stbds_hmdel_key_def hm_map_def hm_inv_def fun_upd_def)
next
  case (Some b)
  then have ok: "hm_ok mode b" and map: "hm_map a = elem_map (elems b)" using assms by (simp_all add: hm_inv_def hm_map_def)
  note inj = hm_ok_inj [OF ok]
  show ?thesis
  proof (cases rule: key_cases [of "elems b" k])
    case (1 i)
    from hmdel_key_present [OF ok 1(1), of s] obtain t s' where
      t: "stbds_hmdel_key mode k a s = Some (Inr (Some \<lparr>elems = swap_removed i (elems b), hash_table = Some t, temp = 1\<rparr>, s'))"
        "index_ok mode (swap_removed i (elems b)) t" unfolding 1(2) Some by blast
    let ?c = "\<lparr>elems = swap_removed i (elems b), hash_table = Some t, temp = 1\<rparr>"
    have "0 < length (swap_removed i (elems b))" using 1(1) by simp
    then have "swap_removed i (elems b) \<noteq> []" by (simp only: length_greater_0_conv not_False_eq_True)
    then have "hm_inv mode (Some ?c)" using t(2) by (simp add: hm_inv_def hm_ok_def)
    moreover have "hm_map (Some ?c) = (hm_map a)(k := None)"
      using elem_map_swap_removed [OF inj 1(1)] map by (simp add: hm_map_def 1(2))
    moreover have "hd (swap_removed i (elems b)) = hd (elems b)"
      using 1(1) by (cases "elems b") (auto simp: swap_removed_def)
    moreover have "stbds_hmdel mode k a s = Some (Inr (1, Some ?c, s'))" using t(1) by (simp add: stbds_hmdel_def)
    moreover have "hm_map a k \<noteq> None" using elem_map_at(1) [OF inj 1(1)] by (simp add: map 1(2))
    ultimately show ?thesis by (auto simp: hm_default_def Some)
  next
    case 2
    have none: "hm_map a k = None" using elem_map_at(2) [OF inj 2] by (simp add: map)
    then have "(hm_map a)(k := None) = hm_map a" by (simp add: fun_upd_idem)
    with none hmdel_key_absent [OF ok 2, of s] ok map show ?thesis
      by (simp add: Some stbds_hmdel_def hm_inv_def hm_map_def hm_default_def)
  qed
qed

lemma default_step:
  assumes "hm_inv mode a"
  shows "hm_inv mode (stbds_hmdefault E v a)" "hm_map (stbds_hmdefault E v a) = hm_map a"
    "hm_default E (stbds_hmdefault E v a) = v"
proof -
  note b = hm_inv_body [OF assms, of E]
  let ?b = "hm_body E a"
  have "elems ?b \<noteq> []" using b(1) by (simp add: hm_ok_def)
  then obtain e es where es: "elems ?b = e # es" by (cases "elems ?b") auto
  have put: "stbds_hmput_default E a = ?b"
    using assms by (auto simp: stbds_hmput_default_def hm_body_def hm_inv_def hm_ok_def split: option.splits)
  have eq: "stbds_hmdefault E v a = Some (?b\<lparr>elems := e\<lparr>hm_value := v\<rparr> # es\<rparr>)"
    using es by (simp add: stbds_hmdefault_def put)
  have keys: "elem_key (e\<lparr>hm_value := v\<rparr> # es) l = elem_key (elems ?b) l" for l
    by (simp add: elem_key_def es)
  have "index_ok mode (e\<lparr>hm_value := v\<rparr> # es) t" if "index_ok mode (elems ?b) t" for t
    by (rule index_ok_keys [OF that]) (simp_all only: keys, simp add: es)
  then show "hm_inv mode (stbds_hmdefault E v a)"
    using b(1) es by (auto simp: eq hm_inv_def hm_ok_def split: option.splits)
  show "hm_map (stbds_hmdefault E v a) = hm_map a" using es by (simp add: eq b(2)) (simp add: hm_map_def elem_map_def)
  show "hm_default E (stbds_hmdefault E v a) = v" by (simp add: eq hm_default_def)
qed

lemma len_step: "hm_inv mode a \<Longrightarrow> stbds_hmlen a = card (dom (hm_map a))"
proof (cases a)
  case (Some b)
  assume "hm_inv mode a"
  then have "hm_ok mode b" by (simp add: Some hm_inv_def)
  from elem_map_dom [OF hm_ok_inj [OF this]] show ?thesis by (simp add: Some stbds_hmlen_def hm_map_def)
qed (simp add: stbds_hmlen_def hm_map_def)

lemma hm_step_refines:
  assumes "hm_inv mode a"
  shows "\<exists>b s'. hm_step E mode op a s = Some (Inr (fst (map_step op (hm_default E a) (hm_map a)), b, s'))
     \<and> hm_inv mode b \<and> (hm_default E b, hm_map b) = snd (map_step op (hm_default E a) (hm_map a))"
proof (cases op)
  case (Op_get k)
  from get_step [OF assms, of E k] obtain b where
    b: "stbds_hmget_key E mode k a = Some (Inr b)" "elems b = elems (hm_body E a)" "hm_ok mode b"
      "case hm_map a k of None \<Rightarrow> temp b = -1 | Some v \<Rightarrow> 0 \<le> temp b \<and> hm_value (elems b ! nat (temp b + 1)) = v" by blast
  have "hm_inv mode (Some b)" "hm_map (Some b) = hm_map a" "hm_default E (Some b) = hm_default E a"
    using b(2,3) hm_inv_body [OF assms, of E] by (simp_all add: hm_inv_def hm_map_def hm_default_def)
  moreover have "elems b \<noteq> []" using b(3) by (simp add: hm_ok_def)
  then have "hm_value (elems b ! nat (temp b + 1)) = (case hm_map a k of None \<Rightarrow> hm_default E a | Some v \<Rightarrow> v)"
    using b(2,4) hm_inv_body(3) [OF assms, of E] by (simp add: hd_conv_nth split: option.splits)
  ultimately show ?thesis using b(1) by (simp add: Op_get stbds_hmget_def)
next
  case (Op_has k)
  from get_step [OF assms, of E k] obtain b where
    b: "stbds_hmget_key E mode k a = Some (Inr b)" "elems b = elems (hm_body E a)" "hm_ok mode b"
      "case hm_map a k of None \<Rightarrow> temp b = -1 | Some v \<Rightarrow> 0 \<le> temp b \<and> hm_value (elems b ! nat (temp b + 1)) = v" by blast
  have "hm_inv mode (Some b)" "hm_map (Some b) = hm_map a" "hm_default E (Some b) = hm_default E a"
    using b(2,3) hm_inv_body [OF assms, of E] by (simp_all add: hm_inv_def hm_map_def hm_default_def)
  then show ?thesis using b(1,4) by (auto simp: Op_has stbds_hmgeti_def split: option.splits)
next
  case (Op_put k v)
  then show ?thesis using put_step [OF assms, of E k v s] by (auto simp: hm_inv_def)
next
  case (Op_del k)
  then show ?thesis using del_step [OF assms, of k s E] by auto
next
  case (Op_default v)
  then show ?thesis using default_step [OF assms, of E v] by simp
qed (use assms len_step [OF assms] in simp)

lemma hm_run_refines:
  assumes "hm_inv mode a"
  shows "\<exists>b s'. hm_run E mode ops a s = Some (Inr (fst (map_run ops (hm_default E a) (hm_map a)), b, s'))
     \<and> hm_inv mode b \<and> (hm_default E b, hm_map b) = snd (map_run ops (hm_default E a) (hm_map a))"
  using assms
proof (induction ops arbitrary: a s)
  case (Cons op ops)
  from hm_step_refines [OF Cons.prems, of E op s] obtain b s' where
    b: "hm_step E mode op a s = Some (Inr (fst (map_step op (hm_default E a) (hm_map a)), b, s'))" "hm_inv mode b"
      "snd (map_step op (hm_default E a) (hm_map a)) = (hm_default E b, hm_map b)" by auto
  obtain out where out: "map_step op (hm_default E a) (hm_map a) = (out, hm_default E b, hm_map b)"
    using b(3) by (metis prod.collapse)
  from Cons.IH [OF b(2), of s'] obtain c s'' where
    c: "hm_run E mode ops b s' = Some (Inr (fst (map_run ops (hm_default E b) (hm_map b)), c, s''))" "hm_inv mode c"
      "(hm_default E c, hm_map c) = snd (map_run ops (hm_default E b) (hm_map b))" by blast
  obtain outs d m where run: "map_run ops (hm_default E b) (hm_map b) = (outs, d, m)" by (metis prod_cases3)
  show ?case using b(1) c by (simp add: out run)
qed simp

text \<open>The other forms of the operations.\<close>

lemma hmputs_eq: "stbds_hmputs E e a s = stbds_hmput E (hm_key e) (hm_value e) a s"
  by (cases e) (simp add: stbds_hmputs_def stbds_hmput_def)

lemma other_forms:
  "othen (stbds_hmgets E mode k a) (\<lambda>(e, b). Some (Inr (hm_value e, b))) = stbds_hmget E mode k a"
  "othen (stbds_hmget_ts E mode k a) (\<lambda>(v, b). Some (Inr v)) = othen (stbds_hmget E mode k a) (\<lambda>(v, b). Some (Inr v))"
  "othen (stbds_shputi E k v a s) (\<lambda>(i, b, s). Some (Inr (b, s))) = stbds_shput E k v a s"
  "hm_map (stbds_hmdefaults E e a) = hm_map (stbds_hmdefault E (hm_value e) a)"
  "hm_default E (stbds_hmdefaults E e a) = hm_default E (stbds_hmdefault E (hm_value e) a)"
  by (auto simp: stbds_hmgets_def stbds_hmget_def stbds_hmget_ts_def stbds_hmget_key_def
      stbds_shputi_def stbds_shput_def stbds_hmdefaults_def stbds_hmdefault_def hm_map_def hm_default_def elem_map_def
      othen_def Let_def write_elem_def split: option.splits sum.splits)

lemma hmgetp_null_spec:
  assumes "hm_inv mode a"
  shows "\<exists>e b. stbds_hmgetp_null E mode k a = Some (Inr (e, b)) \<and> map_option hm_value e = hm_map a k"
proof -
  from get_step [OF assms, of E k] obtain b where
    "stbds_hmget_key E mode k a = Some (Inr b)"
    "case hm_map a k of None \<Rightarrow> temp b = -1 | Some v \<Rightarrow> 0 \<le> temp b \<and> hm_value (elems b ! nat (temp b + 1)) = v" by blast
  then show ?thesis by (auto simp: stbds_hmgetp_null_def split: option.splits)
qed

end
