(* ===== verification/HashStale.thy ===== *)
theory HashStale
  imports HashOps
begin

text \<open>
  \<open>shputs\<close> on a key that is present and is found in the second inner loop of
  \<open>stbds_hmput_key\<close>: that loop does not note the key of the element in \<open>temp_key\<close>, so the
  element gets the key noted by an earlier call.
\<close>

section \<open>Evaluating shputs\<close>

text \<open>The search of \<open>stbds_hmput_key\<close>.\<close>

definition put_search :: "'v hm_elem list \<Rightarrow> u8 list \<Rightarrow> stbds_hash_index \<Rightarrow> put_result res option" where
  "put_search es key t =
     (let hash = hash_of_key STBDS_HM_STRING key (hi_seed t)
      in put_loop hash (stbds_is_key_equal es key) t
           (stbds_probe_position hash (slot_count t) (slot_count_log2 t)) STBDS_BUCKET_LENGTH (-1))"

lemma shputs_new:
  assumes "grown_table STBDS_HM_STRING (hash_table (hm_body E a)) s = Some (t, s')"
    "put_search (elems (hm_body E a)) (hm_key e) t = Some (Inr (Absent pos (-1)))"
    "string_mode (hi_string t) = STBDS_SH_DEFAULT" "elems (hm_body E a) \<noteq> []"
    "u = (write_slot pos (hash_of_key STBDS_HM_STRING (hm_key e) (hi_seed t)) (int (length (elems (hm_body E a))) - 1)
       (t\<lparr>used_count := used_count t + 1\<rparr>))\<lparr>temp_key := Some (hm_key e)\<rparr>"
  shows "stbds_shputs E e a s = Some (Inr (Some \<lparr>elems = elems (hm_body E a) @ [e], hash_table = Some u,
     temp = int (length (elems (hm_body E a))) - 1\<rparr>, s'))"
proof -
  have "stbds_hmput_key E STBDS_HM_STRING (hm_key e) a s = Some (Inr (\<lparr>elems = elems (hm_body E a) @
      [\<lparr>hm_key = hm_key e, hm_value = junk_value E\<rparr>], hash_table = Some u, temp = int (length (elems (hm_body E a))) - 1\<rparr>, s'))"
    using assms(1-3) by (simp add: stbds_hmput_key_def hm_body_def [symmetric] put_search_def store_key_def assms(5) Let_def)
  then show ?thesis by (simp add: stbds_shputs_def assms(5) write_elem_def)
qed

lemma shputs_second_loop:
  assumes "grown_table STBDS_HM_STRING (hash_table a) s = Some (t, s')"
    "put_search (elems a) (hm_key e) t = Some (Inr (Present (int i) False))" "temp_key t = Some k"
  shows "stbds_shputs E e (Some a) s
     = Some (Inr (Some (a\<lparr>elems := (elems a)[Suc i := e\<lparr>hm_key := k\<rparr>], hash_table := Some t, temp := int i\<rparr>), s'))"
  using assms by (simp add: stbds_shputs_def stbds_hmput_key_def put_search_def write_elem_def nat_add_distrib Let_def)

section \<open>The history of a map\<close>

fun shputs_all :: "'v hm_env \<Rightarrow> 'v hm_elem list \<Rightarrow> 'v hmap \<Rightarrow> u64 \<Rightarrow> ('v hmap \<times> u64) res option" where
  "shputs_all E [] a s = Some (Inr (a, s))"
| "shputs_all E (e # es) a s = othen (stbds_shputs E e a s) (\<lambda>(a, s). shputs_all E es a s)"

text \<open>A table of one bucket with the seed the library starts with.\<close>

definition table_8 :: "u8 list option \<Rightarrow> nat \<Rightarrow> u64 list \<Rightarrow> int list \<Rightarrow> stbds_hash_index" where
  "table_8 key used hs is =
     \<lparr>temp_key = key, slot_count = 8, used_count = used, used_count_threshold = 6, used_count_shrink_threshold = 0,
      tombstone_count = 0, tombstone_count_threshold = 1, hi_seed = 0x31415926, slot_count_log2 = 3,
      hi_string = \<lparr>arena_storage = [], remaining = 0, block = 0, string_mode = STBDS_SH_DEFAULT\<rparr>,
      storage = [\<lparr>bucket_hash = hs, bucket_index = is\<rparr>]\<rparr>"

lemma table_8_fields [simp]:
  "temp_key (table_8 key used hs is) = key" "used_count (table_8 key used hs is) = used"
  "used_count_threshold (table_8 key used hs is) = 6" "hi_seed (table_8 key used hs is) = 0x31415926"
  "string_mode (hi_string (table_8 key used hs is)) = STBDS_SH_DEFAULT"
  by (simp_all add: table_8_def)

lemma table_8_write:
  "p < 8 \<Longrightarrow> (write_slot p h i ((table_8 key used hs is)\<lparr>used_count := n\<rparr>))\<lparr>temp_key := k\<rparr>
     = table_8 k n (hs[p := h]) (is[p := i])"
  by (simp add: table_8_def write_slot_def)

text \<open>The keys \<open>d\<close>, \<open>l\<close> and \<open>a\<close>: the search for \<open>l\<close> starts at slot 7, where \<open>d\<close> is, and goes on at slot 0.\<close>

lemma key_hashes:
  "hash_of_key STBDS_HM_STRING [100] 0x31415926 = 6663674321099768367"
  "hash_of_key STBDS_HM_STRING [108] 0x31415926 = 6674554876383107335"
  "hash_of_key STBDS_HM_STRING [97] 0x31415926 = 6652040349649152262"
  by code_simp+

lemma grown_8:
  "used < 6 \<Longrightarrow> grown_table mode (Some (table_8 key used hs is)) s = Some (table_8 key used hs is, s)"
  by (simp add: grown_table_def)

lemma replicate_8: "replicate 8 x = [x, x, x, x, x, x, x, x]"
  by (simp add: numeral_eq_Suc)

lemma grown_first:
  "\<exists>s. grown_table STBDS_HM_STRING None 0x31415926
     = Some (table_8 None 0 [0, 0, 0, 0, 0, 0, 0, 0] [-1, -1, -1, -1, -1, -1, -1, -1], s)"
proof -
  have "stbds_log2 8 = 3" using stbds_log2_pow [of 3] by simp
  then show ?thesis
    by (simp add: grown_table_def stbds_make_hash_index_def fresh_index_def table_8_def stbds_constants no_strings_def
        empty_bucket_def drop_bit_eq_div replicate_8)
qed

lemma searches_8:
  "put_search [e0] [100] (table_8 None 0 [0, 0, 0, 0, 0, 0, 0, 0] [-1, -1, -1, -1, -1, -1, -1, -1])
     = Some (Inr (Absent 7 (-1)))"
  "put_search [e0, \<lparr>hm_key = [100], hm_value = v1\<rparr>] [108]
       (table_8 (Some [100]) 1 [0, 0, 0, 0, 0, 0, 0, 6663674321099768367] [-1, -1, -1, -1, -1, -1, -1, 0])
     = Some (Inr (Absent 0 (-1)))"
  "put_search [e0, \<lparr>hm_key = [100], hm_value = v1\<rparr>, \<lparr>hm_key = [108], hm_value = v2\<rparr>] [97]
       (table_8 (Some [108]) 2 [6674554876383107335, 0, 0, 0, 0, 0, 0, 6663674321099768367] [1, -1, -1, -1, -1, -1, -1, 0])
     = Some (Inr (Absent 6 (-1)))"
  "put_search [e0, \<lparr>hm_key = [100], hm_value = v1\<rparr>, \<lparr>hm_key = [108], hm_value = v2\<rparr>, \<lparr>hm_key = [97], hm_value = v3\<rparr>] [108]
       (table_8 (Some [97]) 3 [6674554876383107335, 0, 0, 0, 0, 0, 6652040349649152262, 6663674321099768367]
         [1, -1, -1, -1, -1, -1, 2, 0])
     = Some (Inr (Present 1 False))"
  by code_simp+

lemma find_after_8:
  "stbds_hm_find_slot STBDS_HM_STRING [108]
       [e0, \<lparr>hm_key = [100], hm_value = v1\<rparr>, \<lparr>hm_key = [97], hm_value = v4\<rparr>, \<lparr>hm_key = [97], hm_value = v3\<rparr>]
       (table_8 (Some [97]) 3 [6674554876383107335, 0, 0, 0, 0, 0, 6652040349649152262, 6663674321099768367]
         [1, -1, -1, -1, -1, -1, 2, 0])
     = Some (Inr (-1))"
  by code_simp

text \<open>
  C27: The first map of a program, of the keys "d", "l" and "a", put by \<open>shputs\<close> and "l" then put
  again: the element of "l" gets the key "a" (\<open>temp_key\<close> is the key of the call before, because
  the second inner loop of \<open>stbds_hmput_key\<close> does not set it), so the map has "a" twice and "l"
  is lost.
\<close>

theorem shputs_stale_key:
  "\<exists>a s. shputs_all E [\<lparr>hm_key = [100], hm_value = v1\<rparr>, \<lparr>hm_key = [108], hm_value = v2\<rparr>, \<lparr>hm_key = [97], hm_value = v3\<rparr>,
         \<lparr>hm_key = [108], hm_value = v4\<rparr>] None 0x31415926 = Some (Inr (Some a, s))
     \<and> map hm_key (tl (elems a)) = [[100], [97], [97]] \<and> map hm_value (tl (elems a)) = [v1, v4, v3]
     \<and> stbds_hmgeti E STBDS_HM_STRING [108] (Some a) = Some (Inr (-1, Some (a\<lparr>temp := -1\<rparr>)))"
proof -
  let ?e = "\<lambda>k v. \<lparr>hm_key = k, hm_value = v\<rparr>" and ?d = "[\<lparr>hm_key = [], hm_value = zero_value E\<rparr>]" and ?dflt = "\<lparr>hm_key = [], hm_value = zero_value E\<rparr>"
  let ?tz = "table_8 None 0 [0, 0, 0, 0, 0, 0, 0, 0] [-1, -1, -1, -1, -1, -1, -1, -1]"
  let ?ta = "table_8 (Some [100]) 1 [0, 0, 0, 0, 0, 0, 0, 6663674321099768367] [-1, -1, -1, -1, -1, -1, -1, 0]"
  let ?tb = "table_8 (Some [108]) 2 [6674554876383107335, 0, 0, 0, 0, 0, 0, 6663674321099768367] [1, -1, -1, -1, -1, -1, -1, 0]"
  let ?tc = "table_8 (Some [97]) 3 [6674554876383107335, 0, 0, 0, 0, 0, 6652040349649152262, 6663674321099768367]
      [1, -1, -1, -1, -1, -1, 2, 0]"
  obtain s where s: "grown_table STBDS_HM_STRING None 0x31415926
      = Some (table_8 None 0 [0, 0, 0, 0, 0, 0, 0, 0] [-1, -1, -1, -1, -1, -1, -1, -1], s)"
    using grown_first by blast
  have 1: "stbds_shputs E (?e [100] v1) None 0x31415926
      = Some (Inr (Some \<lparr>elems = ?d @ [?e [100] v1], hash_table = Some ?ta, temp = 0\<rparr>, s))"
    using shputs_new [where E = E and a = None and s = "0x31415926" and s' = s and e = "?e [100] v1"
        and pos = 7 and t = ?tz and u = ?ta] s searches_8(1) [of ?dflt] key_hashes(1)
    by (simp add: hm_body_def new_hm_array_def table_8_write)
  have 2: "stbds_shputs E (?e [108] v2) (Some \<lparr>elems = ?d @ [?e [100] v1], hash_table = Some ?ta, temp = 0\<rparr>) s
      = Some (Inr (Some \<lparr>elems = ?d @ [?e [100] v1, ?e [108] v2], hash_table = Some ?tb, temp = 1\<rparr>, s))"
    using shputs_new [where E = E and a = "Some \<lparr>elems = ?d @ [?e [100] v1], hash_table = Some ?ta, temp = 0\<rparr>"
        and s = s and s' = s and e = "?e [108] v2" and pos = 0 and t = ?ta and u = ?tb]
      searches_8(2) [of ?dflt v1] key_hashes(2)
    by (simp add: hm_body_def grown_8 table_8_write numeral_2_eq_2)
  have 3: "stbds_shputs E (?e [97] v3) (Some \<lparr>elems = ?d @ [?e [100] v1, ?e [108] v2], hash_table = Some ?tb, temp = 1\<rparr>) s
      = Some (Inr (Some \<lparr>elems = ?d @ [?e [100] v1, ?e [108] v2, ?e [97] v3], hash_table = Some ?tc, temp = 2\<rparr>, s))"
    using shputs_new [where E = E and a = "Some \<lparr>elems = ?d @ [?e [100] v1, ?e [108] v2], hash_table = Some ?tb, temp = 1\<rparr>"
        and s = s and s' = s and e = "?e [97] v3" and pos = 6 and t = ?tb and u = ?tc]
      searches_8(3) [of ?dflt v1 v2] key_hashes(3)
    by (simp add: hm_body_def grown_8 table_8_write)
  have 4: "stbds_shputs E (?e [108] v4) (Some \<lparr>elems = ?d @ [?e [100] v1, ?e [108] v2, ?e [97] v3], hash_table = Some ?tc, temp = 2\<rparr>) s
      = Some (Inr (Some \<lparr>elems = ?d @ [?e [100] v1, ?e [97] v4, ?e [97] v3], hash_table = Some ?tc, temp = 1\<rparr>, s))"
    using shputs_second_loop [where E = E and a = "\<lparr>elems = ?d @ [?e [100] v1, ?e [108] v2, ?e [97] v3], hash_table = Some ?tc, temp = 2\<rparr>"
        and s = s and t = ?tc and s' = s
        and e = "?e [108] v4" and i = 1 and k = "[97]"] searches_8(4) [of ?dflt v1 v2 v3]
    by (simp add: grown_8)
  show ?thesis
    by (intro exI [of _ "\<lparr>elems = ?d @ [?e [100] v1, ?e [97] v4, ?e [97] v3], hash_table = Some ?tc, temp = 1\<rparr>"] exI [of _ s])
      (use 1 2 3 4 find_after_8 [of ?dflt v1 v4 v3] in \<open>simp add: stbds_hmgeti_def stbds_hmget_key_def stbds_hmget_key_ts_def STBDS_INDEX_EMPTY_def\<close>)
qed

end
