(* ===== verification/HashArena.thy ===== *)
theory HashArena
  imports HashIndex
begin

text \<open>
  The string arena of \<open>include/lib/stb_ds.h\<close>: strings are cut from the end of the first block,
  and one that does not fit in a block gets its own, behind the first. What has been stored is
  never written again.
\<close>

section \<open>Reading\<close>

text \<open>The \<open>n\<close> bytes at a pointer into a block.\<close>

definition arena_read :: "stbds_string_arena \<Rightarrow> nat \<times> nat \<Rightarrow> nat \<Rightarrow> u8 list option" where
  "arena_read a ptr n =
     (case map_of (arena_storage a) (fst ptr) of
        None \<Rightarrow> None
      | Some bytes \<Rightarrow> if snd ptr + n \<le> length bytes then Some (take n (drop (snd ptr) bytes)) else None)"

fun stralloc_all :: "u8 \<Rightarrow> u8 list list \<Rightarrow> stbds_string_arena \<Rightarrow> (nat \<times> nat) list \<times> stbds_string_arena" where
  "stralloc_all junk [] a = ([], a)"
| "stralloc_all junk (str # strs) a =
     (let (ptr, a) = stbds_stralloc junk str a; (ptrs, a) = stralloc_all junk strs a in (ptr # ptrs, a))"

section \<open>The arena\<close>

definition arena_ok :: "stbds_string_arena \<Rightarrow> bool" where
  "arena_ok a \<longleftrightarrow> distinct (map fst (arena_storage a)) \<and> (\<forall>b \<in> set (arena_storage a). fst b < length (arena_storage a))
     \<and> (case arena_storage a of [] \<Rightarrow> remaining a = 0 | b # bs \<Rightarrow> remaining a \<le> length (snd b))"

text \<open>The bytes are stored at the pointer, outside of what remains of the first block.\<close>

definition stored :: "stbds_string_arena \<Rightarrow> nat \<times> nat \<Rightarrow> u8 list \<Rightarrow> bool" where
  "stored a ptr bytes \<longleftrightarrow> arena_read a ptr (length bytes) = Some bytes
     \<and> (case arena_storage a of [] \<Rightarrow> True | b # bs \<Rightarrow> fst ptr = fst b \<longrightarrow> remaining a \<le> snd ptr)"

lemma storedD: "stored a ptr bytes \<Longrightarrow> arena_read a ptr (length bytes) = Some bytes"
  by (simp add: stored_def)

lemma carve_ok:
  assumes ok: "arena_ok a" and st: "arena_storage a = (b, old) # bs" and len: "length bytes \<le> remaining a"
    and res: "carve bytes a = (ptr, a')"
  shows "arena_ok a'" "stored a' ptr bytes" "stored a q xs \<Longrightarrow> stored a' q xs"
proof -
  let ?p = "remaining a - length bytes"
  define new where "new = take ?p old @ bytes @ drop (?p + length bytes) old"
  have rem: "remaining a \<le> length old" using ok st by (simp add: arena_ok_def)
  have a': "ptr = (b, ?p)" "a' = a\<lparr>remaining := ?p, arena_storage := (b, new) # bs\<rparr>"
    using res st by (simp_all add: carve_def Let_def new_def)
  have new: "length new = length old" "drop ?p new = bytes @ drop (?p + length bytes) old"
    using rem len by (simp_all add: new_def)
  have same: "drop q new = drop q old" if "remaining a \<le> q" for q
  proof -
    obtain r where "q = remaining a + r" using \<open>remaining a \<le> q\<close> le_Suc_ex by blast
    then show ?thesis using rem len by (simp add: new_def add.commute)
  qed
  show "arena_ok a'" using ok st new(1) rem by (auto simp: arena_ok_def a'(2))
  show "stored a' ptr bytes"
    using new rem len by (simp add: stored_def a' arena_read_def)
  assume q: "stored a q xs"
  show "stored a' q xs"
  proof (cases "fst q = b")
    case True
    with q st have "remaining a \<le> snd q" by (simp add: stored_def)
    then show ?thesis using q st same [of "snd q"] new(1) True by (auto simp: stored_def a'(2) arena_read_def split: if_splits)
  next
    case False
    with q st show ?thesis by (simp add: stored_def a'(2) arena_read_def)
  qed
qed

lemma fresh_id: "arena_ok a \<Longrightarrow> map_of (arena_storage a) (length (arena_storage a)) = None"
  by (auto simp: arena_ok_def map_of_eq_None_iff)

lemma stored_Cons:
  assumes "arena_ok a" "stored a q xs" "arena_storage a' = (length (arena_storage a), bytes) # arena_storage a"
  shows "stored a' q xs"
proof -
  have "fst q \<noteq> length (arena_storage a)"
    using assms(2) fresh_id [OF assms(1)] by (auto simp: stored_def arena_read_def split: option.splits)
  then show ?thesis using assms(2,3) by (simp add: stored_def arena_read_def)
qed

lemma stralloc_ok:
  assumes ok: "arena_ok a" and res: "stbds_stralloc junk str a = (ptr, a')"
  shows "arena_ok a' \<and> stored a' ptr (str @ [0]) \<and> (\<forall>q xs. stored a q xs \<longrightarrow> stored a' q xs)"
proof (cases "length (str @ [0]) \<le> remaining a")
  case True
  then obtain b old bs where st: "arena_storage a = (b, old) # bs"
    using ok by (cases "arena_storage a") (auto simp: arena_ok_def)
  have "carve (str @ [0]) a = (ptr, a')" using res True by (simp add: stbds_stralloc_def Let_def)
  from carve_ok [OF ok st True this] show ?thesis by blast
next
  case big: False
  define size where "size = push_bit (unat (drop_bit 1 (block a))) STBDS_STRING_ARENA_BLOCKSIZE_MIN"
  define a1 where "a1 = (if size < STBDS_STRING_ARENA_BLOCKSIZE_MAX then a\<lparr>block := block a + 1\<rparr> else a)"
  have a1: "arena_storage a1 = arena_storage a" "remaining a1 = remaining a" by (simp_all add: a1_def)
  let ?n = "length (arena_storage a)"
  define a2 where "a2 = a1\<lparr>arena_storage := (?n, replicate size junk) # arena_storage a, remaining := size\<rparr>"
  have eq: "stbds_stralloc junk str a = (if length (str @ [0]) > size
      then ((?n, 0), case arena_storage a of b # bs \<Rightarrow> a1\<lparr>arena_storage := b # (?n, str @ [0]) # bs\<rparr>
        | [] \<Rightarrow> a1\<lparr>arena_storage := [(?n, str @ [0])], remaining := 0\<rparr>)
      else carve (str @ [0]) a2)"
    using big by (simp add: stbds_stralloc_def Let_def size_def a1_def a2_def new_string_block_def split: list.split)
  show ?thesis
  proof (cases "length (str @ [0]) > size")
    case True
    then have res1: "ptr = (?n, 0)" "a' = (case arena_storage a of b # bs \<Rightarrow> a1\<lparr>arena_storage := b # (?n, str @ [0]) # bs\<rparr>
        | [] \<Rightarrow> a1\<lparr>arena_storage := [(?n, str @ [0])], remaining := 0\<rparr>)"
      using res True by (simp_all add: eq)
    show ?thesis
    proof (cases "arena_storage a")
      case Nil
      then show ?thesis by (simp add: res1 arena_ok_def stored_def arena_read_def)
    next
      case (Cons b bs)
      have ids: "distinct (map fst (b # bs))" "\<forall>c \<in> set (b # bs). fst c < Suc (length bs)" "remaining a \<le> length (snd b)"
        using ok Cons by (auto simp: arena_ok_def)
      have new: "fst b \<noteq> Suc (length bs)" "Suc (length bs) \<notin> fst ` set bs" using ids(2) by auto
      have "arena_ok a'" using ids new a1 by (auto simp: res1(2) Cons arena_ok_def)
      moreover have "stored a' ptr (str @ [0])" using new by (simp add: res1 Cons stored_def arena_read_def)
      moreover have "stored a' q xs" if q: "stored a q xs" for q xs
      proof -
        have "map_of (arena_storage a) (fst q) \<noteq> None" using q by (auto simp: stored_def arena_read_def split: option.splits)
        moreover have "map_of (arena_storage a) (Suc (length bs)) = None" using fresh_id [OF ok] by (simp add: Cons)
        ultimately have "fst q \<noteq> Suc (length bs)" by metis
        then show ?thesis
          using q a1 by (cases "fst q = fst b") (auto simp: res1(2) Cons stored_def arena_read_def split: if_splits)
      qed
      ultimately show ?thesis by blast
    qed
  next
    case False
    have res2: "carve (str @ [0]) a2 = (ptr, a')" using res False by (simp add: eq)
    have ok2: "arena_ok a2" using ok fresh_id [OF ok] by (auto simp: arena_ok_def a2_def a1 map_of_eq_None_iff)
    have st2: "arena_storage a2 = (?n, replicate size junk) # arena_storage a" by (simp add: a2_def a1)
    have "length (str @ [0]) \<le> remaining a2" using False by (simp add: a2_def)
    from carve_ok [OF ok2 st2 this res2] stored_Cons [OF ok _ st2] show ?thesis by blast
  qed
qed

lemma stralloc_all_ok:
  assumes "arena_ok a" "stralloc_all junk strs a = (ptrs, a')"
  shows "list_all2 (\<lambda>ptr str. stored a' ptr (str @ [0])) ptrs strs \<and> (\<forall>q xs. stored a q xs \<longrightarrow> stored a' q xs)"
  using assms
proof (induction strs arbitrary: a ptrs)
  case (Cons str strs)
  obtain ptr a1 where 1: "stbds_stralloc junk str a = (ptr, a1)" by (cases "stbds_stralloc junk str a")
  obtain qs a2 where 2: "stralloc_all junk strs a1 = (qs, a2)" by (cases "stralloc_all junk strs a1")
  have eq: "ptrs = ptr # qs" "a' = a2" using Cons.prems(2) by (simp_all add: 1 2)
  note s = stralloc_ok [OF Cons.prems(1) 1]
  then have "arena_ok a1" by blast
  note rest = Cons.IH [OF this, of qs, unfolded 2 eq(2), OF refl]
  have "stored a2 ptr (str @ [0])" "\<forall>q xs. stored a q xs \<longrightarrow> stored a2 q xs" using s rest by blast+
  then show ?case using rest by (simp add: eq)
qed simp

text \<open>
  C28: Strings put one after the other into a new arena can all be read at their pointers
  afterwards, with their terminating zero: no string overlaps another, whatever their lengths.
\<close>

theorem stralloc_keeps_strings:
  "case stralloc_all junk strs no_strings of
     (ptrs, a) \<Rightarrow> map2 (\<lambda>ptr str. arena_read a ptr (length str + 1)) ptrs strs = map (\<lambda>str. Some (str @ [0])) strs"
proof -
  obtain ptrs a where run: "stralloc_all junk strs no_strings = (ptrs, a)" by (cases "stralloc_all junk strs no_strings")
  have "arena_ok no_strings" by (simp add: arena_ok_def no_strings_def)
  from stralloc_all_ok [OF this run] have "list_all2 (\<lambda>ptr str. stored a ptr (str @ [0])) ptrs strs" by blast
  then have "map2 (\<lambda>ptr str. arena_read a ptr (length str + 1)) ptrs strs = map (\<lambda>str. Some (str @ [0])) strs"
    by (induction rule: list_all2_induct) (use storedD in fastforce)+
  then show ?thesis by (simp add: run)
qed

end
