(* ===== verification/HashClaims.thy ===== *)
theory HashClaims
  imports HashRefine HashStale HashArena
begin

text \<open>
  What the hash maps promise: they behave like finite maps, their table always has an empty
  slot, and every search visits all slots, in the order of \<open>probe\<close>, until one ends it.
\<close>

section \<open>New maps\<close>

lemma shmode_func_inv:
  "\<exists>a s'. stbds_shmode_func E m s = Some (a, s') \<and> hm_inv mode a \<and> hm_map a = Map.empty \<and> hm_default E a = zero_value E"
proof -
  let ?t = "(fresh_index 8 s no_strings)\<lparr>hi_string := (hi_string (fresh_index 8 s no_strings))\<lparr>string_mode := m\<rparr>\<rparr>"
  have "stbds_shmode_func E m s = Some (Some ((new_hm_array E)\<lparr>hash_table := Some ?t\<rparr>), next_hash_seed s)"
    by (simp add: stbds_shmode_func_def stbds_make_hash_index_def STBDS_BUCKET_LENGTH_def)
  moreover have "index_ok mode (elems (new_hm_array E)) ?t"
    by (rule first_index_ok) (simp add: new_hm_array_def)
  then have "hm_inv mode (Some ((new_hm_array E)\<lparr>hash_table := Some ?t\<rparr>))"
    by (simp add: hm_inv_def hm_ok_def new_hm_array_def)
  ultimately show ?thesis
    by (auto simp: hm_map_def hm_default_def new_hm_array_def elem_map_def)
qed

text \<open>
  C25: Every sequence of \<open>hmget\<close>, \<open>hmgetp_null\<close>, \<open>hmlen\<close>, \<open>hmput\<close> (or \<open>shput\<close>), \<open>hmdel\<close> and
  \<open>hmdefault\<close> on a new map returns, with the results of the same operations on a finite map and
  a default value, for every seed and both kinds of keys; the map at the end has the contents
  of the finite map. The same holds of a map made by \<open>sh_new_strdup\<close> or \<open>sh_new_arena\<close>.
\<close>

theorem hm_refines_map:
  "(\<exists>a s. hm_run E mode ops None hash_seed = Some (Inr (fst (map_run ops (zero_value E) Map.empty), a, s))
      \<and> (hm_default E a, hm_map a) = snd (map_run ops (zero_value E) Map.empty))
   \<and> (\<exists>b s a s'. stbds_shmode_func E m hash_seed = Some (b, s)
      \<and> hm_run E STBDS_HM_STRING ops b s = Some (Inr (fst (map_run ops (zero_value E) Map.empty), a, s'))
      \<and> (hm_default E a, hm_map a) = snd (map_run ops (zero_value E) Map.empty))"
proof
  have none: "hm_inv mode None" "hm_map None = Map.empty" "hm_default E None = zero_value E"
    by (simp_all add: hm_inv_def hm_map_def hm_default_def)
  show "\<exists>a s. hm_run E mode ops None hash_seed = Some (Inr (fst (map_run ops (zero_value E) Map.empty), a, s))
      \<and> (hm_default E a, hm_map a) = snd (map_run ops (zero_value E) Map.empty)"
    using hm_run_refines [OF none(1), of E ops hash_seed] unfolding none(2,3) by blast
  obtain b s where b: "stbds_shmode_func E m hash_seed = Some (b, s)" "hm_inv STBDS_HM_STRING b"
    "hm_map b = Map.empty" "hm_default E b = zero_value E" using shmode_func_inv by blast
  then show "\<exists>b s a s'. stbds_shmode_func E m hash_seed = Some (b, s)
      \<and> hm_run E STBDS_HM_STRING ops b s = Some (Inr (fst (map_run ops (zero_value E) Map.empty), a, s'))
      \<and> (hm_default E a, hm_map a) = snd (map_run ops (zero_value E) Map.empty)"
    using hm_run_refines [OF b(2), of E ops s] unfolding b(3,4) by blast
qed

section \<open>Room in the table\<close>

text \<open>
  Whatever operations have run on a new map, its table counts its elements, is at most three
  quarters full of them and has an empty slot. (An empty slot is what ends every search for a
  key that is not there; the code asserts that the thresholds leave one.)
\<close>

theorem hm_table_has_room:
  "case hm_run E mode ops None hash_seed of
     Some (Inr (outs, Some a, s)) \<Rightarrow>
       (case hash_table a of
          None \<Rightarrow> length (elems a) = 1
        | Some t \<Rightarrow> used_count t = length (elems a) - 1 \<and> 4 * used_count t \<le> 3 * slot_count t
            \<and> used_count t + tombstone_count t < slot_count t \<and> (\<exists>p < slot_count t. hash_at p t = STBDS_HASH_EMPTY))
   | Some (Inr (outs, None, s)) \<Rightarrow> True
   | _ \<Rightarrow> False"
proof -
  have "hm_inv mode None" by (simp add: hm_inv_def)
  from hm_run_refines [OF this, of E ops hash_seed] obtain outs a s where
    run: "hm_run E mode ops None hash_seed = Some (Inr (outs, a, s))" "hm_inv mode a" by blast
  show ?thesis
  proof (cases a)
    case (Some b)
    then have ok: "hm_ok mode b" using run(2) by (simp add: hm_inv_def)
    show ?thesis
    proof (cases "hash_table b")
      case None
      then show ?thesis using ok run(1) Some by (simp add: hm_ok_def)
    next
      case t: (Some t)
      then have t_ok: "index_ok mode (elems b) t" using ok by (simp add: hm_ok_def)
      note core = index_okD [OF t_ok]
      obtain p where "p < slot_count t" "hash_at p t = 0"
        using empty_slot_exists [OF core(1) index_ok_room [OF t_ok]] by blast
      moreover have "4 * used_count t \<le> 3 * slot_count t"
      proof -
        obtain n where "slot_count t = 8 * n" using index_wf_count [OF slots_okD(1) [OF core(1)]] by (auto elim!: dvdE)
        then show ?thesis using core(3,5) by (simp add: thresholds_ok_def)
      qed
      moreover have "used_count t + tombstone_count t < slot_count t"
        using index_ok_room [OF t_ok] core(4,6) by simp
      ultimately show ?thesis using run(1) Some t core(4) by (auto simp: STBDS_HASH_EMPTY_def)
    qed
  qed (simp add: run(1))
qed

section \<open>The order of the searches\<close>

text \<open>
  Slots that end no search for a key with the given hash: in use or deleted, and not of that
  key. The first deleted one among them is where \<open>stbds_hmput_key\<close> puts a new key.
\<close>

definition passed_over :: "u64 \<Rightarrow> (int \<Rightarrow> bool res) \<Rightarrow> stbds_hash_index \<Rightarrow> nat list \<Rightarrow> bool" where
  "passed_over hash eq t ps \<longleftrightarrow> (\<forall>q \<in> set ps. hash_at q t \<noteq> STBDS_HASH_EMPTY
     \<and> (hash_at q t = hash \<longrightarrow> eq (index_at q t) = Inr False))"

definition first_deleted :: "u64 \<Rightarrow> stbds_hash_index \<Rightarrow> nat list \<Rightarrow> int" where
  "first_deleted hash t ps =
     (case find (\<lambda>q. hash_at q t \<noteq> hash \<and> index_at q t = STBDS_INDEX_DELETED) ps of None \<Rightarrow> -1 | Some q \<Rightarrow> int q)"

lemma put_along_passed:
  assumes "passed_over hash eq t as" "hash_at p t = 0" "hash \<noteq> 0"
  shows "0 \<le> tb \<Longrightarrow> put_along hash eq t (as @ p # bs) tb = Inr (Put_vacant p tb)"
    "put_along hash eq t (as @ p # bs) (-1) = Inr (Put_vacant p (first_deleted hash t as))"
proof -
  have *: "put_along hash eq t (as @ p # bs) tb = Inr (Put_vacant p tb)" if "0 \<le> tb" "passed_over hash eq t as" for tb as
    using that assms(2,3) by (induction as) (auto simp: passed_over_def STBDS_HASH_EMPTY_def)
  then show "0 \<le> tb \<Longrightarrow> put_along hash eq t (as @ p # bs) tb = Inr (Put_vacant p tb)" using assms(1) by blast
  show "put_along hash eq t (as @ p # bs) (-1) = Inr (Put_vacant p (first_deleted hash t as))"
    using assms(1)
  proof (induction as)
    case (Cons a as)
    then have "passed_over hash eq t as" by (simp add: passed_over_def)
    with Cons * [of "int a" as] show ?case
      by (auto simp: passed_over_def first_deleted_def STBDS_HASH_EMPTY_def)
  qed (use assms(2,3) in \<open>simp add: first_deleted_def\<close>)
qed

text \<open>
  C26: The three search loops (\<open>stbds_hm_find_slot\<close>, \<open>stbds_hmput_key\<close> and the copying in
  \<open>stbds_make_hash_index\<close>), in every well-formed table and for every hash other than that of an
  empty slot: they end at the first slot that ends them in the order \<open>probe\<close>, in which round r
  visits the 8 slots of the bucket that lies 1 + 2 + \<dots> + r buckets after the first one, each
  from the position of the hash on; and this order visits every slot of the table exactly once,
  so one slot is enough for the loops to end, wherever it is. On a slot with the key, find
  returns the slot and put its element; on an empty one, find returns -1, the copying returns
  the slot, and put the slot with the first deleted slot passed on the way (-1 if there is none).
\<close>

theorem searches_end_at_first_slot:
  assumes "index_wf t" "hash \<noteq> STBDS_HASH_EMPTY" "j < slot_count t"
    and "passed_over hash eq t (map (probe (slot_count t) (unat hash)) [0..<j])"
    and "p = probe (slot_count t) (unat hash) j" "start = stbds_probe_position hash (slot_count t) l"
  shows "bij_betw (probe (slot_count t) (unat hash)) {..<slot_count t} {..<slot_count t}
    \<and> (hash_at p t = hash \<and> eq (index_at p t) = Inr True \<longrightarrow>
         find_loop hash eq t start STBDS_BUCKET_LENGTH = Some (Inr (int p))
         \<and> (\<exists>first. put_loop hash eq t start STBDS_BUCKET_LENGTH (-1) = Some (Inr (Present (index_at p t) first))))
    \<and> (hash_at p t = STBDS_HASH_EMPTY \<longrightarrow>
         find_loop hash eq t start STBDS_BUCKET_LENGTH = Some (Inr (-1))
         \<and> rehash_loop t start STBDS_BUCKET_LENGTH = Some p
         \<and> put_loop hash eq t start STBDS_BUCKET_LENGTH (-1)
             = Some (Inr (Absent p (first_deleted hash t (map (probe (slot_count t) (unat hash)) [0..<j])))))"
proof (intro conjI impI)
  let ?f = "probe (slot_count t) (unat hash)"
  let ?as = "map ?f [0..<j]"
  obtain k where k: "3 \<le> k" "slot_count t = 2 ^ k" using index_wf_pow [OF assms(1)] by blast
  show "bij_betw ?f {..<slot_count t} {..<slot_count t}"
    unfolding k(2) bij_betw_def using probe_inj_on [OF k(1)] probe_image [OF k(1)] by blast
  note path = path_split [OF assms(3), of ?f, folded assms(5)]
  note find = searches(1) [OF assms(1,6) refl] and rehash = searches(2) [OF assms(1,6) refl]
    and put = searches(3) [OF assms(1,6) refl]
  have before: "\<forall>q \<in> set ?as. hash_at q t \<noteq> 0 \<and> (hash_at q t = hash \<longrightarrow> eq (index_at q t) = Inr False)"
    using assms(4) unfolding passed_over_def STBDS_HASH_EMPTY_def .
  then have empty: "\<forall>q \<in> set ?as. hash_at q t \<noteq> 0" by blast
  have ne: "hash \<noteq> 0" using assms(2) by (simp add: STBDS_HASH_EMPTY_def)
  {
    assume "hash_at p t = hash \<and> eq (index_at p t) = Inr True"
    then have hit: "hash_at p t = hash" "eq (index_at p t) = Inr True" by blast+
    show "find_loop hash eq t start STBDS_BUCKET_LENGTH = Some (Inr (int p))"
      by (rule find) (simp only: path find_along_hit [OF before hit])
    have "\<exists>first. put_loop hash eq t start STBDS_BUCKET_LENGTH (-1)
        = Some (Inr (outcome_of_step (Put_hit (index_at p t)) first))"
      by (rule put) (simp_all only: path put_along_hit [OF before hit], simp)
    then show "\<exists>first. put_loop hash eq t start STBDS_BUCKET_LENGTH (-1) = Some (Inr (Present (index_at p t) first))"
      by (simp add: outcome_of_step_def)
  next
    assume "hash_at p t = STBDS_HASH_EMPTY"
    then have z: "hash_at p t = 0" by (simp add: STBDS_HASH_EMPTY_def)
    show "find_loop hash eq t start STBDS_BUCKET_LENGTH = Some (Inr (-1))"
      by (rule find) (simp only: path find_along_vacant [OF before z ne])
    show "rehash_loop t start STBDS_BUCKET_LENGTH = Some p"
      by (rule rehash) (simp only: path empty_along_first [OF empty z])
    have "\<exists>first. put_loop hash eq t start STBDS_BUCKET_LENGTH (-1)
        = Some (Inr (outcome_of_step (Put_vacant p (first_deleted hash t ?as)) first))"
      by (rule put) (simp_all only: path put_along_passed(2) [OF assms(4) z ne], simp)
    then show "put_loop hash eq t start STBDS_BUCKET_LENGTH (-1)
        = Some (Inr (Absent p (first_deleted hash t ?as)))"
      by (simp add: outcome_of_step_def)
  }
qed

text \<open>
  A full table of 32 slots but for one. The search for the hash 29 starts at slot 29 and visits
  the buckets 3, 0, 2 and 1; slot 8 is in the last of them.
\<close>

definition crowded :: "u64 \<Rightarrow> int \<Rightarrow> stbds_hash_index" where
  "crowded h i = (let full = \<lparr>bucket_hash = replicate 8 2, bucket_index = replicate 8 5\<rparr> in
     (fresh_index 32 0x31415926 no_strings)\<lparr>storage :=
       [full, \<lparr>bucket_hash = h # replicate 7 2, bucket_index = i # replicate 7 5\<rparr>, full, full]\<rparr>)"

lemma crowded_slots:
  assumes "p < 32"
  shows "hash_at p (crowded h i) = (if p = 8 then h else 2)" "index_at p (crowded h i) = (if p = 8 then i else 5)"
proof -
  let ?full = "\<lparr>bucket_hash = replicate 8 2, bucket_index = replicate 8 5\<rparr>"
  have b: "p div 8 < 4" and s: "p mod 8 < 8" using assms by simp_all
  have "storage (crowded h i) ! b = (if b = 1 then \<lparr>bucket_hash = h # replicate 7 2, bucket_index = i # replicate 7 5\<rparr> else ?full)"
    if "b < 4" for b
  proof -
    have "b = 0 \<or> b = 1 \<or> b = 2 \<or> b = 3" using that by presburger
    then show ?thesis by (elim disjE) (simp_all only: crowded_def Let_def, simp_all)
  qed
  from this [OF b] have "bucket_of p (crowded h i)
      = (if p div 8 = 1 then \<lparr>bucket_hash = h # replicate 7 2, bucket_index = i # replicate 7 5\<rparr> else ?full)"
    by (simp add: bucket_of_def)
  moreover have "p = 8 \<longleftrightarrow> p div 8 = 1 \<and> p mod 8 = 0" by presburger
  ultimately show "hash_at p (crowded h i) = (if p = 8 then h else 2)" "index_at p (crowded h i) = (if p = 8 then i else 5)"
    using s by (auto simp: hash_at_def index_at_def nth_Cons')
qed

lemma crowded_passed:
  "index_wf (crowded h i)" "slot_count (crowded h i) = 32" "probe 32 29 27 = 8"
  "passed_over 29 eq (crowded h i) (map (probe 32 29) [0..<27])"
  "first_deleted 29 (crowded h i) (map (probe 32 29) [0..<27]) = -1"
proof -
  show "index_wf (crowded h i)"
    by (auto simp: index_wf_def crowded_def fresh_index_def bucket_wf_def Let_def intro!: exI [of _ 5])
  show "slot_count (crowded h i) = 32" by (simp add: crowded_def fresh_index_def Let_def)
  show p: "probe 32 29 27 = 8" by code_simp
  have lt: "probe 32 29 x < 32" for x by (rule probe_lt) simp_all
  have ne: "probe 32 29 x \<noteq> 8" if "x < 27" for x
    using probe_inj [of 5 x 27 29] that p by auto
  show "passed_over 29 eq (crowded h i) (map (probe 32 29) [0..<27])"
    using lt ne by (auto simp: passed_over_def crowded_slots STBDS_HASH_EMPTY_def)
  have "find (\<lambda>q. hash_at q (crowded h i) \<noteq> 29 \<and> index_at q (crowded h i) = STBDS_INDEX_DELETED) (map (probe 32 29) [0..<27]) = None"
    using lt ne by (auto simp: find_None_iff crowded_slots STBDS_INDEX_DELETED_def)
  then show "first_deleted 29 (crowded h i) (map (probe 32 29) [0..<27]) = -1" by (simp add: first_deleted_def)
qed

theorem searches_end_at_first_slot_witness:
  "find_loop 29 (\<lambda>i. Inr (i = 7)) (crowded 29 7) (stbds_probe_position 29 32 5) STBDS_BUCKET_LENGTH = Some (Inr 8)
   \<and> find_loop 29 (\<lambda>i. Inr (i = 7)) (crowded 0 (-1)) (stbds_probe_position 29 32 5) STBDS_BUCKET_LENGTH = Some (Inr (-1))
   \<and> rehash_loop (crowded 0 (-1)) (stbds_probe_position 29 32 5) STBDS_BUCKET_LENGTH = Some 8
   \<and> put_loop 29 (\<lambda>i. Inr (i = 7)) (crowded 0 (-1)) (stbds_probe_position 29 32 5) STBDS_BUCKET_LENGTH (-1)
       = Some (Inr (Absent 8 (-1)))"
proof -
  have k: "(29 :: u64) \<noteq> STBDS_HASH_EMPTY" "(27 :: nat) < 32" "unat (29 :: u64) = 29"
    by (simp_all add: STBDS_HASH_EMPTY_def)
  note s = searches_end_at_first_slot [where hash = 29 and t = "crowded h i" and j = 27 and l = 5 and p = 8
      and eq = "\<lambda>i. Inr (i = 7)" for h i, unfolded k(3) crowded_passed(2),
      OF crowded_passed(1) k(1,2) crowded_passed(4) crowded_passed(3) [symmetric] refl, unfolded crowded_passed(5)]
  have c: "hash_at 8 (crowded h i) = h" "index_at 8 (crowded h i) = i" for h i by (simp_all add: crowded_slots)
  from s [of 29 7, unfolded c] s [of 0 "-1", unfolded c] show ?thesis by (simp add: STBDS_HASH_EMPTY_def)
qed

end
